(* ===== verification/Prelude.thy ===== *)
theory Prelude
  imports Main "HOL-Library.Word" "HOL-Library.AList"
begin

unbundle bit_operations_syntax

section \<open>Shared types, containers and lemma collections\<close>

text \<open>
  The vocabulary every component uses.
  \<^item> Machine integers: \<open>u8\<close>, \<open>u32\<close>, \<open>u64\<close> are words of that width; a C++ \<open>int64_t\<close> is
    the \<open>u64\<close> with the same bits, read with \<open>sint\<close> where its sign matters. ENet peer ids
    (\<open>int32_t\<close>, only compared and negated) are \<open>int\<close>.
  \<^item> Godot's containers: a \<open>HashMap\<close> iterates in insertion order and overwrites in place, which
    is what \<open>AList.update\<close> and \<open>AList.delete\<close> do on an association list; a \<open>HashSet\<close> is the
    list of its members in insertion order.
  \<^item> Godot's \<open>Variant\<close>, as a datatype of the cases the source tells apart. A type the source
    never names is \<open>VOther\<close>, with its type number and its content as opaque bytes.
  \<^item> \<open>run\<close>, the left-to-right run of a component over a list of its operations, and the
    locale \<open>machine\<close>, which lifts a one-operation invariant to runs.
\<close>

named_theorems wire_simps \<open>equations that read back what an encoder wrote\<close>

type_synonym u8 = "8 word"
type_synonym u32 = "32 word"
type_synonym u64 = "64 word"
type_synonym bytes = "u8 list"
type_synonym f32 = "32 word"
type_synonym f64 = "64 word"
type_synonym objid = u64
type_synonym net_id = u32
type_synonym peer = int

subsection \<open>HashMap\<close>

type_synonym ('k, 'v) hash_map = "('k \<times> 'v) list"

definition hm_get :: "('k, 'v) hash_map \<Rightarrow> 'k \<Rightarrow> 'v option" where
  "hm_get m k = map_of m k"

definition hm_has :: "('k, 'v) hash_map \<Rightarrow> 'k \<Rightarrow> bool" where
  "hm_has m k = (hm_get m k \<noteq> None)"

definition hm_put :: "'k \<Rightarrow> 'v \<Rightarrow> ('k, 'v) hash_map \<Rightarrow> ('k, 'v) hash_map" where
  "hm_put k v m = AList.update k v m"

definition hm_erase :: "'k \<Rightarrow> ('k, 'v) hash_map \<Rightarrow> ('k, 'v) hash_map" where
  "hm_erase k m = AList.delete k m"

definition hm_keys :: "('k, 'v) hash_map \<Rightarrow> 'k list" where
  "hm_keys m = map fst m"

definition hm_wf :: "('k, 'v) hash_map \<Rightarrow> bool" where
  "hm_wf m = distinct (map fst m)"

lemma hm_get_empty [simp]: "hm_get [] k = None"
  by (simp add: hm_get_def)

lemma hm_get_put: "hm_get (hm_put k v m) j = (if j = k then Some v else hm_get m j)"
  by (simp add: hm_get_def hm_put_def AList.update_conv')

lemma hm_get_erase: "hm_get (hm_erase k m) j = (if j = k then None else hm_get m j)"
  by (simp add: hm_get_def hm_erase_def AList.delete_conv')

lemma hm_get_put_same [simp]: "hm_get (hm_put k v m) k = Some v"
  and hm_get_put_other [simp]: "j \<noteq> k \<Longrightarrow> hm_get (hm_put k v m) j = hm_get m j"
  and hm_get_erase_same [simp]: "hm_get (hm_erase k m) k = None"
  and hm_get_erase_other [simp]: "j \<noteq> k \<Longrightarrow> hm_get (hm_erase k m) j = hm_get m j"
  by (simp_all add: hm_get_put hm_get_erase)

lemma hm_has_put: "hm_has (hm_put k v m) j \<longleftrightarrow> j = k \<or> hm_has m j"
  by (simp add: hm_has_def hm_get_put)

lemma hm_has_erase: "hm_has (hm_erase k m) j \<longleftrightarrow> j \<noteq> k \<and> hm_has m j"
  by (simp add: hm_has_def hm_get_erase)

lemma hm_wf_empty [simp]: "hm_wf []"
  by (simp add: hm_wf_def)

lemma hm_wf_put [simp]: "hm_wf m \<Longrightarrow> hm_wf (hm_put k v m)"
  by (simp add: hm_wf_def hm_put_def AList.distinct_update)

lemma hm_wf_erase [simp]: "hm_wf m \<Longrightarrow> hm_wf (hm_erase k m)"
  by (simp add: hm_wf_def hm_erase_def AList.distinct_delete)

lemma hm_get_iff_mem: "hm_wf m \<Longrightarrow> hm_get m k = Some v \<longleftrightarrow> (k, v) \<in> set m"
  by (simp add: hm_wf_def hm_get_def)

lemma hm_get_mem: "hm_get m k = Some v \<Longrightarrow> (k, v) \<in> set m"
  by (simp add: hm_get_def map_of_SomeD)

lemma hm_get_None_iff: "hm_get m k = None \<longleftrightarrow> k \<notin> set (hm_keys m)"
  by (simp add: hm_get_def hm_keys_def map_of_eq_None_iff)

subsection \<open>HashSet\<close>

type_synonym 'a hash_set = "'a list"

definition hs_insert :: "'a \<Rightarrow> 'a hash_set \<Rightarrow> 'a hash_set" where
  "hs_insert x s = (if x \<in> set s then s else s @ [x])"

definition hs_erase :: "'a \<Rightarrow> 'a hash_set \<Rightarrow> 'a hash_set" where
  "hs_erase x s = filter (\<lambda>y. y \<noteq> x) s"

lemma set_hs_insert [simp]: "set (hs_insert x s) = insert x (set s)"
  by (auto simp: hs_insert_def)

lemma set_hs_erase [simp]: "set (hs_erase x s) = set s - {x}"
  by (auto simp: hs_erase_def)

lemma distinct_hs_insert [simp]: "distinct s \<Longrightarrow> distinct (hs_insert x s)"
  by (simp add: hs_insert_def)

lemma distinct_hs_erase [simp]: "distinct s \<Longrightarrow> distinct (hs_erase x s)"
  by (simp add: hs_erase_def)

subsection \<open>Godot's Variant\<close>

datatype variant =
    VNil
  | VBool bool
  | VInt u64
  | VFloat f64
  | VString string
  | VVec3 f32 f32 f32
  | VStringName string
  | VDict "(variant \<times> variant) list"
  | VArray "variant list"
  | VBytes bytes
  | VOther nat bytes

datatype variant_type =
    T_NIL | T_BOOL | T_INT | T_FLOAT | T_STRING | T_VECTOR3 | T_STRING_NAME
  | T_DICTIONARY | T_ARRAY | T_PACKED_BYTE_ARRAY | T_OTHER nat

fun get_type :: "variant \<Rightarrow> variant_type" where
  "get_type VNil = T_NIL"
| "get_type (VBool b) = T_BOOL"
| "get_type (VInt i) = T_INT"
| "get_type (VFloat d) = T_FLOAT"
| "get_type (VString s) = T_STRING"
| "get_type (VVec3 x y z) = T_VECTOR3"
| "get_type (VStringName s) = T_STRING_NAME"
| "get_type (VDict d) = T_DICTIONARY"
| "get_type (VArray xs) = T_ARRAY"
| "get_type (VBytes bs) = T_PACKED_BYTE_ARRAY"
| "get_type (VOther n bs) = T_OTHER n"

lemma get_type_iff [simp]:
  "get_type v = T_NIL \<longleftrightarrow> v = VNil"
  "get_type v = T_BOOL \<longleftrightarrow> (\<exists>b. v = VBool b)"
  "get_type v = T_INT \<longleftrightarrow> (\<exists>i. v = VInt i)"
  "get_type v = T_FLOAT \<longleftrightarrow> (\<exists>d. v = VFloat d)"
  "get_type v = T_PACKED_BYTE_ARRAY \<longleftrightarrow> (\<exists>bs. v = VBytes bs)"
  "get_type v = T_DICTIONARY \<longleftrightarrow> (\<exists>d. v = VDict d)"
  "get_type v = T_ARRAY \<longleftrightarrow> (\<exists>xs. v = VArray xs)"
  by (cases v; simp)+

subsection \<open>Runs of a component\<close>

fun run :: "('s \<Rightarrow> 'e \<Rightarrow> 's) \<Rightarrow> 's \<Rightarrow> 'e list \<Rightarrow> 's" where
  "run step s [] = s"
| "run step s (e # es) = run step (step s e) es"

fun run_ok :: "('s \<Rightarrow> 'e \<Rightarrow> 's) \<Rightarrow> ('s \<Rightarrow> 'e \<Rightarrow> bool) \<Rightarrow> 's \<Rightarrow> 'e list \<Rightarrow> bool" where
  "run_ok step ok s [] = True"
| "run_ok step ok s (e # es) = (ok s e \<and> run_ok step ok (step s e) es)"

lemma run_append: "run step s (xs @ ys) = run step (run step s xs) ys"
  by (induction xs arbitrary: s) auto

lemma run_ok_append: "run_ok step ok s (xs @ ys) = (run_ok step ok s xs \<and> run_ok step ok (run step s xs) ys)"
  by (induction xs arbitrary: s) auto

lemma run_ok_all [simp]: "run_ok step (\<lambda>_ _. True) s es"
  by (induction es arbitrary: s) simp_all

lemma run_ok_list_all: "run_ok step (\<lambda>_ e. P e) s es = list_all P es"
  by (induction es arbitrary: s) simp_all

locale machine =
  fixes step :: "'s \<Rightarrow> 'e \<Rightarrow> 's"
    and ok :: "'s \<Rightarrow> 'e \<Rightarrow> bool"
    and inv :: "'s \<Rightarrow> bool"
  assumes inv_step: "inv s \<Longrightarrow> ok s e \<Longrightarrow> inv (step s e)"
begin

lemma inv_run: "inv s \<Longrightarrow> run_ok step ok s es \<Longrightarrow> inv (run step s es)"
  by (induction es arbitrary: s) (auto intro: inv_step)

end

end
