(* ===== verification/Ieee.thy ===== *)
theory Ieee
  imports Prelude Complex_Main
begin

section \<open>C++ \<open>float\<close> and \<open>double\<close> as IEEE 754 bit patterns\<close>

text \<open>
  A \<open>double\<close> is its 64 bits, a \<open>float\<close> its 32: the source copies both bit for bit
  (\<open>memcpy\<close> in \<open>put_arg\<close>, \<open>get_arg\<close> and \<open>_make_slot_coding\<close>), so a value with another bit
  pattern is another value here. An operation unpacks its operands to sign, significand and
  exponent, computes the exact rational result and rounds it to nearest, ties to even, as the
  C++ operators do in the default rounding mode. NaN results are the one quiet NaN: the payload
  a conversion leaves is not tracked. A conversion to an integer outside its range, undefined in
  C++, is \<open>None\<close>.
\<close>

datatype fpval = FNaN | FInf bool | FFin bool nat int

fun log2n :: "nat \<Rightarrow> nat" where
  "log2n n = (if n < 2 then 0 else Suc (log2n (n div 2)))"

declare log2n.simps [simp del]

subsection \<open>Rounding a rational\<close>

definition round_div :: "nat \<Rightarrow> nat \<Rightarrow> nat" where
  "round_div a b =
     (let q = a div b; r = a mod b
      in if b < 2 * r \<or> b = 2 * r \<and> odd q then Suc q else q)"

definition pow2_num :: "int \<Rightarrow> nat" where
  "pow2_num e = 2 ^ nat e"

definition pow2_den :: "int \<Rightarrow> nat" where
  "pow2_den e = 2 ^ nat (- e)"

definition ilog2_rat :: "nat \<Rightarrow> nat \<Rightarrow> int" where
  "ilog2_rat n d =
     (let e = int (log2n n) - int (log2n d)
      in if d * pow2_num e \<le> n * pow2_den e then e else e - 1)"

definition fp_bias :: "nat \<Rightarrow> int" where
  "fp_bias eb = 2 ^ (eb - 1) - 1"

definition fp_sign_bit :: "nat \<Rightarrow> nat \<Rightarrow> bool \<Rightarrow> nat" where
  "fp_sign_bit mb eb s = (if s then 2 ^ (mb + eb) else 0)"

text \<open>The bits of \<open>n / d\<close> (with sign \<open>s\<close>) in a format of \<open>mb\<close> fraction and \<open>eb\<close> exponent
  bits. The quantum is a power of two: the significand in quanta is rounded, and a carry out of
  it lands in the exponent field by itself.\<close>

definition fp_quantum :: "nat \<Rightarrow> nat \<Rightarrow> nat \<Rightarrow> nat \<Rightarrow> int" where
  "fp_quantum mb eb n d = max (ilog2_rat n d) (1 - fp_bias eb) - int mb"

definition fp_round_rat :: "nat \<Rightarrow> nat \<Rightarrow> bool \<Rightarrow> nat \<Rightarrow> nat \<Rightarrow> nat" where
  "fp_round_rat mb eb s n d =
     (let inf = (2 ^ eb - 1) * 2 ^ mb;
          k = fp_quantum mb eb n d;
          q = round_div (n * pow2_den k) (d * pow2_num k);
          bits = nat (k + int mb - (1 - fp_bias eb)) * 2 ^ mb + q
      in fp_sign_bit mb eb s + (if n = 0 then 0 else min bits inf))"

definition fp_nan :: "nat \<Rightarrow> nat \<Rightarrow> nat" where
  "fp_nan mb eb = (2 ^ eb - 1) * 2 ^ mb + 2 ^ (mb - 1)"

definition fp_inf :: "nat \<Rightarrow> nat \<Rightarrow> bool \<Rightarrow> nat" where
  "fp_inf mb eb s = fp_sign_bit mb eb s + (2 ^ eb - 1) * 2 ^ mb"

fun fp_pack :: "nat \<Rightarrow> nat \<Rightarrow> fpval \<Rightarrow> nat" where
  "fp_pack mb eb FNaN = fp_nan mb eb"
| "fp_pack mb eb (FInf s) = fp_inf mb eb s"
| "fp_pack mb eb (FFin s m e) = fp_round_rat mb eb s (m * pow2_num e) (pow2_den e)"

definition fp_unpack :: "nat \<Rightarrow> nat \<Rightarrow> nat \<Rightarrow> fpval" where
  "fp_unpack mb eb w =
     (let s = odd (w div 2 ^ (mb + eb));
          e = (w div 2 ^ mb) mod 2 ^ eb;
          m = w mod 2 ^ mb
      in if e = 2 ^ eb - 1 then (if m = 0 then FInf s else FNaN)
         else if e = 0 then FFin s m (1 - fp_bias eb - int mb)
         else FFin s (m + 2 ^ mb) (int e - fp_bias eb - int mb))"

subsection \<open>The two formats\<close>

definition f64_val :: "f64 \<Rightarrow> fpval" where
  "f64_val d = fp_unpack 52 11 (unat d)"

definition f64_of :: "fpval \<Rightarrow> f64" where
  "f64_of v = of_nat (fp_pack 52 11 v)"

definition f32_val :: "f32 \<Rightarrow> fpval" where
  "f32_val x = fp_unpack 23 8 (unat x)"

definition f32_of :: "fpval \<Rightarrow> f32" where
  "f32_of v = of_nat (fp_pack 23 8 v)"

definition narrow :: "f64 \<Rightarrow> f32" where
  "narrow d = f32_of (f64_val d)"

definition widen :: "f32 \<Rightarrow> f64" where
  "widen x = f64_of (f32_val x)"

definition f64_nan :: "f64 \<Rightarrow> bool" where
  "f64_nan d = (f64_val d = FNaN)"

definition f64_zero :: "f64 \<Rightarrow> bool" where
  "f64_zero d = (d = 0 \<or> d = 0x8000000000000000)"

definition f64_eq :: "f64 \<Rightarrow> f64 \<Rightarrow> bool" where
  "f64_eq a b = (\<not> f64_nan a \<and> \<not> f64_nan b \<and> (a = b \<or> f64_zero a \<and> f64_zero b))"

fun fp_pos :: "fpval \<Rightarrow> bool" where
  "fp_pos FNaN = False"
| "fp_pos (FInf s) = (\<not> s)"
| "fp_pos (FFin s m e) = (\<not> s \<and> 0 < m)"

definition f64_pos :: "f64 \<Rightarrow> bool" where
  "f64_pos d = fp_pos (f64_val d)"

definition f32_pos :: "f32 \<Rightarrow> bool" where
  "f32_pos x = fp_pos (f32_val x)"

fun fp_finite :: "fpval \<Rightarrow> bool" where
  "fp_finite (FFin s m e) = True"
| "fp_finite _ = False"

definition f64_isfinite :: "f64 \<Rightarrow> bool" where
  "f64_isfinite d = fp_finite (f64_val d)"

subsection \<open>Arithmetic\<close>

fun fp_div :: "nat \<Rightarrow> nat \<Rightarrow> fpval \<Rightarrow> fpval \<Rightarrow> nat" where
  "fp_div mb eb FNaN y = fp_nan mb eb"
| "fp_div mb eb x FNaN = fp_nan mb eb"
| "fp_div mb eb (FInf s) (FInf t) = fp_nan mb eb"
| "fp_div mb eb (FInf s) (FFin t n f) = fp_inf mb eb (s \<noteq> t)"
| "fp_div mb eb (FFin s m e) (FInf t) = fp_sign_bit mb eb (s \<noteq> t)"
| "fp_div mb eb (FFin s m e) (FFin t n f) =
     (if n = 0 then (if m = 0 then fp_nan mb eb else fp_inf mb eb (s \<noteq> t))
      else fp_round_rat mb eb (s \<noteq> t) (m * pow2_num (e - f)) (n * pow2_den (e - f)))"

fun fp_mul :: "nat \<Rightarrow> nat \<Rightarrow> fpval \<Rightarrow> fpval \<Rightarrow> nat" where
  "fp_mul mb eb FNaN y = fp_nan mb eb"
| "fp_mul mb eb x FNaN = fp_nan mb eb"
| "fp_mul mb eb (FInf s) (FInf t) = fp_inf mb eb (s \<noteq> t)"
| "fp_mul mb eb (FInf s) (FFin t n f) = (if n = 0 then fp_nan mb eb else fp_inf mb eb (s \<noteq> t))"
| "fp_mul mb eb (FFin s m e) (FInf t) = (if m = 0 then fp_nan mb eb else fp_inf mb eb (s \<noteq> t))"
| "fp_mul mb eb (FFin s m e) (FFin t n f) = fp_pack mb eb (FFin (s \<noteq> t) (m * n) (e + f))"

definition signed_num :: "bool \<Rightarrow> nat \<Rightarrow> int" where
  "signed_num s m = (if s then - int m else int m)"

fun fp_add :: "nat \<Rightarrow> nat \<Rightarrow> fpval \<Rightarrow> fpval \<Rightarrow> nat" where
  "fp_add mb eb FNaN y = fp_nan mb eb"
| "fp_add mb eb x FNaN = fp_nan mb eb"
| "fp_add mb eb (FInf s) (FInf t) = (if s = t then fp_inf mb eb s else fp_nan mb eb)"
| "fp_add mb eb (FInf s) (FFin t n f) = fp_inf mb eb s"
| "fp_add mb eb (FFin s m e) (FInf t) = fp_inf mb eb t"
| "fp_add mb eb (FFin s m e) (FFin t n f) =
     (let k = min e f;
          x = signed_num s m * int (pow2_num (e - k)) + signed_num t n * int (pow2_num (f - k))
      in fp_pack mb eb (FFin (if x = 0 then s \<and> t else x < 0) (nat \<bar>x\<bar>) k))"

definition f64_div :: "f64 \<Rightarrow> f64 \<Rightarrow> f64" where
  "f64_div a b = of_nat (fp_div 52 11 (f64_val a) (f64_val b))"

definition f64_mul :: "f64 \<Rightarrow> f64 \<Rightarrow> f64" where
  "f64_mul a b = of_nat (fp_mul 52 11 (f64_val a) (f64_val b))"

definition f64_add :: "f64 \<Rightarrow> f64 \<Rightarrow> f64" where
  "f64_add a b = of_nat (fp_add 52 11 (f64_val a) (f64_val b))"

definition f32_div :: "f32 \<Rightarrow> f32 \<Rightarrow> f32" where
  "f32_div a b = of_nat (fp_div 23 8 (f32_val a) (f32_val b))"

definition f64_of_int :: "int \<Rightarrow> f64" where
  "f64_of_int i = f64_of (FFin (i < 0) (nat \<bar>i\<bar>) 0)"

definition f32_of_int :: "int \<Rightarrow> f32" where
  "f32_of_int i = f32_of (FFin (i < 0) (nat \<bar>i\<bar>) 0)"

text \<open>Truncation towards zero, and \<open>std::llround\<close>'s rounding half away from zero.\<close>

fun fp_trunc :: "fpval \<Rightarrow> int option" where
  "fp_trunc (FFin s m e) = Some (signed_num s (m * pow2_num e div pow2_den e))"
| "fp_trunc _ = None"

fun fp_round_away :: "fpval \<Rightarrow> int option" where
  "fp_round_away (FFin s m e) =
     Some (signed_num s ((2 * (m * pow2_num e) + pow2_den e) div (2 * pow2_den e)))"
| "fp_round_away _ = None"

definition f64_to_u64 :: "f64 \<Rightarrow> u64 option" where
  "f64_to_u64 d =
     (case fp_trunc (f64_val d) of
        None \<Rightarrow> None
      | Some i \<Rightarrow> if 0 \<le> i \<and> i < 2 ^ 64 then Some (word_of_int i) else None)"

definition f64_llround :: "f64 \<Rightarrow> u64 option" where
  "f64_llround d =
     (case fp_round_away (f64_val d) of
        None \<Rightarrow> None
      | Some i \<Rightarrow> if - (2 ^ 63) \<le> i \<and> i < 2 ^ 63 then Some (word_of_int i) else None)"

text \<open>The equations that evaluate the arithmetic on concrete bits.\<close>

lemmas fp_eval =
  log2n.simps round_div_def pow2_num_def pow2_den_def ilog2_rat_def fp_bias_def fp_sign_bit_def
  fp_quantum_def fp_round_rat_def fp_nan_def fp_inf_def fp_unpack_def f64_val_def f64_of_def
  f32_val_def f32_of_def narrow_def widen_def f64_nan_def f64_zero_def f64_eq_def f64_pos_def
  f32_pos_def f64_isfinite_def signed_num_def f64_div_def f64_mul_def f64_add_def f32_div_def
  f64_of_int_def f32_of_int_def f64_to_u64_def f64_llround_def Let_def

end
