(* ===== verification/Wire.thy ===== *)
theory Wire
  imports Ieee
begin

section \<open>The byte-level wire and the engine, as parameters\<close>

text \<open>
  goldnet's \<open>Writer\<close>, \<open>Reader\<close> and primitive encoders live in the \<open>extern/goldnet\<close> submodule, and
  Godot's \<open>Variant\<close> conversions and serialisation in the engine; neither is part of this
  repository, so both are parameters: the records \<open>wire\<close> and \<open>engine\<close>. A writer is the bytes
  written so far, so an encoder gives the bytes it appends; a reader is its unread bytes and the
  \<open>failed()\<close> flag, the two things the binding asks a \<open>Reader\<close>. What the binding relies on is
  stated as named hypotheses (\<open>wire_ok\<close>, \<open>engine_ok\<close>, \<open>str_ok\<close>, \<open>opaque_ok\<close>, \<open>angle_ok\<close>), and
  \<open>Wire_Demo\<close> gives a concrete instance of each.

  The locale \<open>codec\<close> is the interface every encoder/decoder pair of the binding meets: reading
  back what was written gives the value's view and leaves the rest. The counted list of such
  values, which spawn records and calls both use, is proved once inside it.
\<close>

subsection \<open>Readers and primitives\<close>

record reader =
  rd_bytes :: bytes
  rd_failed :: bool

definition reader_of :: "bytes \<Rightarrow> reader" where
  "reader_of bs = \<lparr>rd_bytes = bs, rd_failed = False\<rparr>"

lemma reader_of_simps [simp]:
  "rd_bytes (reader_of bs) = bs" "\<not> rd_failed (reader_of bs)"
  "reader_of xs = reader_of ys \<longleftrightarrow> xs = ys"
  by (auto simp: reader_of_def)

record wire =
  w_u8 :: "u8 \<Rightarrow> bytes"
  w_u32 :: "u32 \<Rightarrow> bytes"
  w_uvarint :: "u32 \<Rightarrow> bytes"
  w_varint :: "u64 \<Rightarrow> bytes"
  w_float :: "f32 \<Rightarrow> bytes"
  w_half :: "f32 \<Rightarrow> bytes"
  w_angle16 :: "f32 \<Rightarrow> bytes"
  w_angle8 :: "f32 \<Rightarrow> bytes"
  r_u8 :: "reader \<Rightarrow> u8 \<times> reader"
  r_u32 :: "reader \<Rightarrow> u32 \<times> reader"
  r_uvarint :: "reader \<Rightarrow> u32 \<times> reader"
  r_varint :: "reader \<Rightarrow> u64 \<times> reader"
  r_float :: "reader \<Rightarrow> f32 \<times> reader"
  r_half :: "reader \<Rightarrow> f32 \<times> reader"
  r_angle16 :: "reader \<Rightarrow> f32 \<times> reader"
  r_angle8 :: "reader \<Rightarrow> f32 \<times> reader"
  r_data :: "nat \<Rightarrow> reader \<Rightarrow> bytes option \<times> reader"
  half_view :: "f32 \<Rightarrow> f32" \<comment> \<open>the float a binary16 reads back as\<close>
  angle_view :: "nat \<Rightarrow> f32 \<Rightarrow> f32" \<comment> \<open>bits, angle: the angle read back\<close>
  angle_quanta :: "f32 \<Rightarrow> nat \<Rightarrow> int" \<comment> \<open>an angle's step out of \<open>2 ^ bits\<close>\<close>
  times_tau :: "f32 \<Rightarrow> f64" \<comment> \<open>\<open>(double)(x * TAU)\<close>, whose \<open>TAU\<close> is goldnet's\<close>

definition prim_ok :: "('a \<Rightarrow> bytes) \<Rightarrow> (reader \<Rightarrow> 'b \<times> reader) \<Rightarrow> ('a \<Rightarrow> 'b) \<Rightarrow> bool" where
  "prim_ok enc dec view =
     (\<forall>x bs. dec (reader_of (enc x @ bs)) = (view x, reader_of bs))"

lemma prim_okD: "prim_ok enc dec view \<Longrightarrow> dec (reader_of (enc x @ bs)) = (view x, reader_of bs)"
  by (simp add: prim_ok_def)

definition data_ok :: "(nat \<Rightarrow> reader \<Rightarrow> bytes option \<times> reader) \<Rightarrow> bool" where
  "data_ok get =
     ((\<forall>xs bs. get (length xs) (reader_of (xs @ bs)) = (Some xs, reader_of bs)) \<and>
      (\<forall>n bs. length bs < n \<longrightarrow>
         fst (get n (reader_of bs)) = None \<and> rd_failed (snd (get n (reader_of bs)))))"

definition wire_ok :: "wire \<Rightarrow> bool" where
  "wire_ok W =
     (prim_ok (w_u8 W) (r_u8 W) (\<lambda>x. x) \<and>
      prim_ok (w_u32 W) (r_u32 W) (\<lambda>x. x) \<and>
      prim_ok (w_uvarint W) (r_uvarint W) (\<lambda>x. x) \<and>
      prim_ok (w_varint W) (r_varint W) (\<lambda>x. x) \<and>
      prim_ok (w_float W) (r_float W) (\<lambda>x. x) \<and>
      prim_ok (w_half W) (r_half W) (half_view W) \<and>
      prim_ok (w_angle16 W) (r_angle16 W) (angle_view W 16) \<and>
      prim_ok (w_angle8 W) (r_angle8 W) (angle_view W 8) \<and>
      data_ok (r_data W))"

lemma wire_okD [wire_simps]:
  assumes "wire_ok W"
  shows "r_u8 W (reader_of (w_u8 W b @ bs)) = (b, reader_of bs)"
    and "r_u32 W (reader_of (w_u32 W n @ bs)) = (n, reader_of bs)"
    and "r_uvarint W (reader_of (w_uvarint W n @ bs)) = (n, reader_of bs)"
    and "r_varint W (reader_of (w_varint W i @ bs)) = (i, reader_of bs)"
    and "r_float W (reader_of (w_float W x @ bs)) = (x, reader_of bs)"
    and "r_half W (reader_of (w_half W x @ bs)) = (half_view W x, reader_of bs)"
    and "r_angle16 W (reader_of (w_angle16 W x @ bs)) = (angle_view W 16 x, reader_of bs)"
    and "r_angle8 W (reader_of (w_angle8 W x @ bs)) = (angle_view W 8 x, reader_of bs)"
  using assms by (simp_all add: wire_ok_def prim_ok_def)

lemma r_data_exact [wire_simps]:
  "wire_ok W \<Longrightarrow> n = length xs \<Longrightarrow>
     r_data W n (reader_of (xs @ bs)) = (Some xs, reader_of bs)"
  by (simp add: wire_ok_def data_ok_def)

lemma r_data_short:
  "wire_ok W \<Longrightarrow> length bs < n \<Longrightarrow>
     fst (r_data W n (reader_of bs)) = None \<and> rd_failed (snd (r_data W n (reader_of bs)))"
  by (simp add: wire_ok_def data_ok_def)

text \<open>\<open>angle_quanta\<close> is a step in range, and a whole angle reads back as the step's share of a
  turn, which is how \<open>get_slot\<close> rebuilds a stepped one.\<close>

definition angle_value :: "wire \<Rightarrow> nat \<Rightarrow> int \<Rightarrow> f64" where
  "angle_value W bits q = times_tau W (f32_div (f32_of_int q) (f32_of_int (2 ^ bits)))"

definition angle_ok :: "wire \<Rightarrow> bool" where
  "angle_ok W =
     (\<forall>x. \<forall>bits \<in> {8, 16}.
        0 \<le> angle_quanta W x bits \<and> angle_quanta W x bits < 2 ^ bits \<and>
        widen (angle_view W bits x) = angle_value W bits (angle_quanta W x bits))"

subsection \<open>The engine's conversions\<close>

record engine =
  to_int :: "variant \<Rightarrow> u64"
  to_double :: "variant \<Rightarrow> f64"
  to_bool :: "variant \<Rightarrow> bool"
  to_vec3 :: "variant \<Rightarrow> f32 \<times> f32 \<times> f32"
  to_str :: "variant \<Rightarrow> string"
  var_to_bytes :: "variant \<Rightarrow> bytes"
  bytes_to_var :: "bytes \<Rightarrow> variant"
  utf8 :: "string \<Rightarrow> bytes"
  of_utf8 :: "bytes \<Rightarrow> string"
  llround_edge :: "f64 \<Rightarrow> u64" \<comment> \<open>\<open>std::llround\<close> outside the range of \<open>int64_t\<close>: unspecified\<close>

definition engine_ok :: "engine \<Rightarrow> bool" where
  "engine_ok E =
     ((\<forall>i. to_int E (VInt i) = i) \<and> (\<forall>d. to_double E (VFloat d) = d) \<and>
      (\<forall>b. to_bool E (VBool b) = b) \<and> (\<forall>x y z. to_vec3 E (VVec3 x y z) = (x, y, z)) \<and>
      (\<forall>s. to_str E (VString s) = s \<and> to_str E (VStringName s) = s))"

lemma engine_okD [simp]:
  assumes "engine_ok E"
  shows "to_int E (VInt i) = i" and "to_double E (VFloat d) = d"
    and "to_bool E (VBool b) = b" and "to_vec3 E (VVec3 x y z) = (x, y, z)"
    and "to_str E (VString s) = s" and "to_str E (VStringName s) = s"
  using assms by (simp_all add: engine_ok_def)

definition opaque_ok :: "engine \<Rightarrow> variant \<Rightarrow> bool" where
  "opaque_ok E v =
     (bytes_to_var E (var_to_bytes E v) = v \<and> length (var_to_bytes E v) < 2 ^ 32)"

definition str_ok :: "engine \<Rightarrow> string \<Rightarrow> bool" where
  "str_ok E s = (of_utf8 E (utf8 E s) = s \<and> length (utf8 E s) < 2 ^ 32)"

lemma unat_of_nat_u32: "n < 2 ^ 32 \<Longrightarrow> unat (of_nat n :: u32) = n"
  by (simp add: unat_of_nat take_bit_nat_eq_self)

subsection \<open>Encoder/decoder pairs\<close>

text \<open>\<open>for (i = 0; i < n && !r.failed(); i++) push_back(dec(r))\<close>.\<close>

fun get_many :: "(reader \<Rightarrow> 'b \<times> reader) \<Rightarrow> nat \<Rightarrow> reader \<Rightarrow> 'b list \<times> reader" where
  "get_many dec 0 r = ([], r)"
| "get_many dec (Suc n) r =
     (if rd_failed r then ([], r)
      else let (x, r1) = dec r; (xs, r2) = get_many dec n r1 in (x # xs, r2))"

locale codec =
  fixes ok :: bool
    and enc :: "'a \<Rightarrow> bytes"
    and dec :: "reader \<Rightarrow> 'b \<times> reader"
    and view :: "'a \<Rightarrow> 'b"
    and valid :: "'a \<Rightarrow> bool"
  assumes reads_back: "ok \<Longrightarrow> valid x \<Longrightarrow> dec (reader_of (enc x @ bs)) = (view x, reader_of bs)"
begin

lemma many_reads_back:
  "ok \<Longrightarrow> list_all valid xs \<Longrightarrow>
     get_many dec (length xs) (reader_of (concat (map enc xs) @ bs)) = (map view xs, reader_of bs)"
  by (induction xs) (simp_all add: reads_back)

lemma reads_back_end: "ok \<Longrightarrow> valid x \<Longrightarrow> dec (reader_of (enc x)) = (view x, reader_of [])"
  using reads_back [of x "[]"] by simp

lemma enc_unambiguous:
  "ok \<Longrightarrow> valid x \<Longrightarrow> valid y \<Longrightarrow> enc x @ xs = enc y @ ys \<Longrightarrow> view x = view y \<and> xs = ys"
  by (metis reads_back prod.inject reader_of_simps(3))

end

subsection \<open>Strings\<close>

definition put_str :: "wire \<Rightarrow> engine \<Rightarrow> string \<Rightarrow> bytes" where
  "put_str W E s = (let u = utf8 E s in w_uvarint W (of_nat (length u)) @ u)"

definition get_str :: "wire \<Rightarrow> engine \<Rightarrow> reader \<Rightarrow> string \<times> reader" where
  "get_str W E r =
     (let (n, r1) = r_uvarint W r; (p, r2) = r_data W (unat n) r1
      in ((case p of Some bs \<Rightarrow> of_utf8 E bs | None \<Rightarrow> []), r2))"

lemma get_put_str [wire_simps]:
  "wire_ok W \<Longrightarrow> str_ok E s \<Longrightarrow> get_str W E (reader_of (put_str W E s @ bs)) = (s, reader_of bs)"
  by (simp add: put_str_def get_str_def Let_def str_ok_def wire_simps unat_of_nat_u32)

interpretation str: codec "wire_ok W" "put_str W E" "get_str W E" "\<lambda>s. s" "str_ok E" for W E
  by unfold_locales (simp add: get_put_str)

end
