(* ===== verification/Wire_Demo.thy ===== *)
theory Wire_Demo
  imports Wire
begin

section \<open>A concrete wire and engine\<close>

text \<open>
  One instance of the parameters \<open>wire\<close> and \<open>engine\<close>, which shows that their hypotheses can hold
  together and lets the witnesses evaluate. It is not goldnet's encoding: an integer is its bytes,
  least significant first, whatever its size, and an angle is sent as the float it is.
\<close>

fun le_bytes :: "nat \<Rightarrow> nat \<Rightarrow> bytes" where
  "le_bytes 0 v = []"
| "le_bytes (Suc k) v = of_nat v # le_bytes k (v div 256)"

fun le_val :: "bytes \<Rightarrow> nat" where
  "le_val [] = 0"
| "le_val (b # bs) = unat b + 256 * le_val bs"

lemma length_le_bytes [simp]: "length (le_bytes k v) = k"
  by (induction k arbitrary: v) simp_all

lemma le_val_bytes: "le_val (le_bytes k v) = v mod 256 ^ k"
proof (induction k arbitrary: v)
  case (Suc k)
  have "v mod 256 ^ Suc k = v mod 256 + 256 * (v div 256 mod 256 ^ k)"
    by (simp add: mod_mult2_eq)
  moreover have "unat (of_nat v :: u8) = v mod 256"
    by (simp add: unat_of_nat take_bit_eq_mod)
  ultimately show ?case
    using Suc by simp
qed simp

definition demo_put :: "nat \<Rightarrow> 'a::len word \<Rightarrow> bytes" where
  "demo_put k x = le_bytes k (unat x)"

definition demo_data :: "nat \<Rightarrow> reader \<Rightarrow> bytes option \<times> reader" where
  "demo_data n r =
     (if rd_failed r \<or> length (rd_bytes r) < n then (None, r\<lparr>rd_failed := True\<rparr>)
      else (Some (take n (rd_bytes r)), reader_of (drop n (rd_bytes r))))"

definition demo_get :: "nat \<Rightarrow> reader \<Rightarrow> 'a::len word \<times> reader" where
  "demo_get k r =
     (case demo_data k r of (Some bs, r1) \<Rightarrow> (of_nat (le_val bs), r1) | (None, r1) \<Rightarrow> (0, r1))"

lemma demo_get_put:
  assumes "2 ^ LENGTH('a) \<le> (256 :: nat) ^ k"
  shows "demo_get k (reader_of (demo_put k x @ bs)) = ((x :: 'a::len word), reader_of bs)"
proof -
  have "unat x < 256 ^ k"
    using unsigned_less [of x, where ?'a = nat] assms by linarith
  then show ?thesis
    by (simp add: demo_get_def demo_data_def demo_put_def le_val_bytes)
qed

definition demo_quanta :: "f32 \<Rightarrow> nat \<Rightarrow> int" where
  "demo_quanta x bits = int (unat (take_bit bits x))"

definition demo_angle :: "nat \<Rightarrow> f32 \<Rightarrow> f32" where
  "demo_angle bits x = f32_div (f32_of_int (demo_quanta x bits)) (f32_of_int (2 ^ bits))"

definition demo_wire :: wire where
  "demo_wire =
     \<lparr>w_u8 = demo_put 1, w_u32 = demo_put 4, w_uvarint = demo_put 4, w_varint = demo_put 8,
      w_float = demo_put 4, w_half = demo_put 4, w_angle16 = demo_put 4, w_angle8 = demo_put 4,
      r_u8 = demo_get 1, r_u32 = demo_get 4, r_uvarint = demo_get 4, r_varint = demo_get 8,
      r_float = demo_get 4, r_half = demo_get 4,
      r_angle16 = (\<lambda>r. map_prod (demo_angle 16) (\<lambda>r. r) (demo_get 4 r)),
      r_angle8 = (\<lambda>r. map_prod (demo_angle 8) (\<lambda>r. r) (demo_get 4 r)),
      r_data = demo_data, half_view = (\<lambda>x. x), angle_view = demo_angle,
      angle_quanta = demo_quanta, times_tau = widen\<rparr>"

lemma demo_wire_ok: "wire_ok demo_wire"
  by (auto simp: wire_ok_def demo_wire_def prim_ok_def data_ok_def demo_get_put demo_data_def)

lemma demo_angle_ok: "angle_ok demo_wire"
proof -
  have "demo_quanta x bits < 2 ^ bits" for x bits
    by (simp add: demo_quanta_def unsigned_take_bit_eq take_bit_int_less_exp)
  moreover have "0 \<le> demo_quanta x bits" for x bits
    by (simp add: demo_quanta_def)
  ultimately show ?thesis
    by (simp add: angle_ok_def angle_value_def demo_wire_def demo_angle_def)
qed

text \<open>A variant written as bytes: the two constructors the witnesses send through the engine's own
  serialisation, and a mark for the rest.\<close>

definition demo_engine :: engine where
  "demo_engine =
     \<lparr>to_int = (\<lambda>v. case v of VInt i \<Rightarrow> i | VBool b \<Rightarrow> (if b then 1 else 0) | _ \<Rightarrow> 0),
      to_double = (\<lambda>v. case v of VFloat d \<Rightarrow> d | VInt i \<Rightarrow> f64_of_int (sint i) | _ \<Rightarrow> 0),
      to_bool = (\<lambda>v. case v of VBool b \<Rightarrow> b | VInt i \<Rightarrow> i \<noteq> 0 | VFloat d \<Rightarrow> d \<noteq> 0 | _ \<Rightarrow> False),
      to_vec3 = (\<lambda>v. case v of VVec3 x y z \<Rightarrow> (x, y, z) | _ \<Rightarrow> (0, 0, 0)),
      to_str = (\<lambda>v. case v of VString s \<Rightarrow> s | VStringName s \<Rightarrow> s | _ \<Rightarrow> []),
      var_to_bytes = (\<lambda>v. case v of VOther n bs \<Rightarrow> of_nat n # bs | VArray xs \<Rightarrow> [254] | _ \<Rightarrow> [255]),
      bytes_to_var = (\<lambda>bs. case bs of
          [] \<Rightarrow> VNil
        | b # r \<Rightarrow> if b = 254 then VArray [] else if b = 255 then VNil else VOther (unat b) r),
      utf8 = map (\<lambda>c. of_nat (of_char c)), of_utf8 = map (\<lambda>b. char_of (unat b)),
      llround_edge = (\<lambda>d. 0)\<rparr>"

lemma demo_engine_ok: "engine_ok demo_engine"
  by (simp add: engine_ok_def demo_engine_def)

lemma char_through_byte: "char_of (unat (of_nat (of_char c) :: u8)) = c"
  by (simp add: unat_of_nat take_bit_eq_mod)

lemma demo_str_ok: "length s < 2 ^ 32 \<Longrightarrow> str_ok demo_engine s"
  by (simp add: str_ok_def demo_engine_def map_idI char_through_byte)

lemma demo_opaque_ok: "n < 254 \<Longrightarrow> length bs < 2 ^ 31 \<Longrightarrow> opaque_ok demo_engine (VOther n bs)"
  by (auto simp: opaque_ok_def demo_engine_def unat_of_nat take_bit_nat_eq_self word_unat_eq_iff)

end
