(* ===== verification/Values.thy ===== *)
theory Values
  imports Wire_Demo
begin

section \<open>Tagged values\<close>

text \<open>
  \<open>ValueTag\<close>, \<open>gn_tag_for\<close>, \<open>gn_put_payload\<close>, \<open>gn_put_value\<close>, \<open>gn_get_tagged\<close> and \<open>gn_get_value\<close> of
  \<open>goldnet_multiplayer.cpp\<close>: a value behind a one-byte tag, its payload in the tag's own format.
  The lemmas show what each payload reads back as (\<open>payload_view\<close>), for every tag, and so what
  a whole tagged value does. \<open>Vector3\<close>'s \<open>real_t\<close> is \<open>float\<close>, as in the stock engine. Signed
  arithmetic on \<open>int64_t\<close> wraps here; where the C++ would overflow, its result is undefined.
\<close>

subsection \<open>Tags\<close>

abbreviation TAG_OPAQUE :: u8 where "TAG_OPAQUE \<equiv> 0"
abbreviation TAG_FLOAT :: u8 where "TAG_FLOAT \<equiv> 1"
abbreviation TAG_INT :: u8 where "TAG_INT \<equiv> 2"
abbreviation TAG_VEC3 :: u8 where "TAG_VEC3 \<equiv> 3"
abbreviation TAG_BOOL :: u8 where "TAG_BOOL \<equiv> 4"
abbreviation TAG_ANGLE16 :: u8 where "TAG_ANGLE16 \<equiv> 5"
abbreviation TAG_HALF :: u8 where "TAG_HALF \<equiv> 6"
abbreviation TAG_VEC3_HALF :: u8 where "TAG_VEC3_HALF \<equiv> 7"
abbreviation TAG_ANGLE8 :: u8 where "TAG_ANGLE8 \<equiv> 8"
abbreviation TAG_TIME_DELTA :: u8 where "TAG_TIME_DELTA \<equiv> 9"
abbreviation QUANT_AUTO :: u8 where "QUANT_AUTO \<equiv> 255"

definition gn_quant_from_name :: "string \<Rightarrow> u8" where
  "gn_quant_from_name name =
     (if name = ''angle16'' then TAG_ANGLE16
      else if name = ''angle8'' then TAG_ANGLE8
      else if name = ''half'' then TAG_HALF
      else if name = ''vec3_half'' then TAG_VEC3_HALF
      else if name = ''time_delta'' then TAG_TIME_DELTA
      else QUANT_AUTO)"

text \<open>The weight behind a synchronizer's \<open>gn_priority\<close> meta (\<open>None\<close>: the meta is absent).\<close>

definition gn_read_priority :: "engine \<Rightarrow> variant option \<Rightarrow> f32" where
  "gn_read_priority E meta =
     (case meta of
        None \<Rightarrow> 0x3F800000
      | Some mv \<Rightarrow>
          if get_type mv \<noteq> T_FLOAT \<and> get_type mv \<noteq> T_INT then 0x3F800000
          else let v = narrow (to_double E mv) in if f32_pos v then v else 0x3F800000)"

definition gn_tag_for :: "variant \<Rightarrow> u8 \<Rightarrow> u8" where
  "gn_tag_for v quant =
     (if quant = TAG_ANGLE16 \<or> quant = TAG_ANGLE8 \<or> quant = TAG_HALF \<or> quant = TAG_VEC3_HALF
      then quant
      else if quant = TAG_TIME_DELTA \<and> get_type v = T_INT then quant
      else case get_type v of
             T_FLOAT \<Rightarrow> TAG_FLOAT
           | T_INT \<Rightarrow> TAG_INT
           | T_VECTOR3 \<Rightarrow> TAG_VEC3
           | T_BOOL \<Rightarrow> TAG_BOOL
           | _ \<Rightarrow> TAG_OPAQUE)"

subsection \<open>Writing and reading\<close>

definition gn_put_payload :: "wire \<Rightarrow> engine \<Rightarrow> u8 \<Rightarrow> variant \<Rightarrow> u32 \<Rightarrow> bytes" where
  "gn_put_payload W E tag v now_ms =
     (if tag = TAG_ANGLE16 then w_angle16 W (narrow (to_double E v))
      else if tag = TAG_ANGLE8 then w_angle8 W (narrow (to_double E v))
      else if tag = TAG_HALF then w_half W (narrow (to_double E v))
      else if tag = TAG_VEC3_HALF then
        (case to_vec3 E v of (x, y, z) \<Rightarrow> w_half W x @ w_half W y @ w_half W z)
      else if tag = TAG_TIME_DELTA then w_varint W (to_int E v - ucast now_ms)
      else if tag = TAG_FLOAT then w_float W (narrow (to_double E v))
      else if tag = TAG_INT then w_varint W (to_int E v)
      else if tag = TAG_VEC3 then
        (case to_vec3 E v of (x, y, z) \<Rightarrow> w_float W x @ w_float W y @ w_float W z)
      else if tag = TAG_BOOL then w_u8 W (if to_bool E v then 1 else 0)
      else let b = var_to_bytes E v in w_u32 W (of_nat (length b)) @ b)"

definition gn_put_value :: "wire \<Rightarrow> engine \<Rightarrow> variant \<Rightarrow> u8 \<Rightarrow> u32 \<Rightarrow> bytes" where
  "gn_put_value W E v quant now_ms =
     (let tag = gn_tag_for v quant in w_u8 W tag @ gn_put_payload W E tag v now_ms)"

definition gn_get_tagged :: "wire \<Rightarrow> engine \<Rightarrow> u8 \<Rightarrow> reader \<Rightarrow> u32 \<Rightarrow> variant \<times> reader" where
  "gn_get_tagged W E t r ref_time_ms =
     (if t = TAG_FLOAT then (let (x, r1) = r_float W r in (VFloat (widen x), r1))
      else if t = TAG_INT then (let (i, r1) = r_varint W r in (VInt i, r1))
      else if t = TAG_VEC3 then
        (let (x, r1) = r_float W r; (y, r2) = r_float W r1; (z, r3) = r_float W r2
         in (VVec3 x y z, r3))
      else if t = TAG_BOOL then (let (b, r1) = r_u8 W r in (VBool (b \<noteq> 0), r1))
      else if t = TAG_ANGLE16 then (let (x, r1) = r_angle16 W r in (VFloat (widen x), r1))
      else if t = TAG_ANGLE8 then (let (x, r1) = r_angle8 W r in (VFloat (widen x), r1))
      else if t = TAG_HALF then (let (x, r1) = r_half W r in (VFloat (widen x), r1))
      else if t = TAG_VEC3_HALF then
        (let (x, r1) = r_half W r; (y, r2) = r_half W r1; (z, r3) = r_half W r2
         in (VVec3 x y z, r3))
      else if t = TAG_TIME_DELTA then
        (let (d, r1) = r_varint W r in (VInt (ucast ref_time_ms + d), r1))
      else (let (len, r1) = r_u32 W r; (p, r2) = r_data W (unat len) r1
            in ((case p of Some bs \<Rightarrow> bytes_to_var E bs | None \<Rightarrow> VNil), r2)))"

definition gn_get_value :: "wire \<Rightarrow> engine \<Rightarrow> reader \<Rightarrow> u32 \<Rightarrow> variant \<times> reader" where
  "gn_get_value W E r ref_time_ms =
     (let (t, r1) = r_u8 W r in gn_get_tagged W E t r1 ref_time_ms)"

subsection \<open>What a value reads back as\<close>

definition payload_view :: "wire \<Rightarrow> engine \<Rightarrow> u8 \<Rightarrow> variant \<Rightarrow> variant" where
  "payload_view W E tag v =
     (if tag = TAG_ANGLE16 then VFloat (widen (angle_view W 16 (narrow (to_double E v))))
      else if tag = TAG_ANGLE8 then VFloat (widen (angle_view W 8 (narrow (to_double E v))))
      else if tag = TAG_HALF then VFloat (widen (half_view W (narrow (to_double E v))))
      else if tag = TAG_VEC3_HALF then
        (case to_vec3 E v of (x, y, z) \<Rightarrow> VVec3 (half_view W x) (half_view W y) (half_view W z))
      else if tag = TAG_TIME_DELTA \<or> tag = TAG_INT then VInt (to_int E v)
      else if tag = TAG_FLOAT then VFloat (widen (narrow (to_double E v)))
      else if tag = TAG_VEC3 then (case to_vec3 E v of (x, y, z) \<Rightarrow> VVec3 x y z)
      else if tag = TAG_BOOL then VBool (to_bool E v)
      else v)"

text \<open>Tags whose payload is Godot's own encoding need it to read \<open>v\<close> back.\<close>

definition tag_opaque :: "u8 \<Rightarrow> bool" where
  "tag_opaque t = (t = TAG_OPAQUE \<or> TAG_TIME_DELTA < t)"

definition payload_ok :: "engine \<Rightarrow> u8 \<Rightarrow> variant \<Rightarrow> bool" where
  "payload_ok E tag v = (tag_opaque tag \<longrightarrow> opaque_ok E v)"

lemma tag_cases:
  obtains "t = TAG_OPAQUE" | "t = TAG_FLOAT" | "t = TAG_INT" | "t = TAG_VEC3" | "t = TAG_BOOL"
    | "t = TAG_ANGLE16" | "t = TAG_HALF" | "t = TAG_VEC3_HALF" | "t = TAG_ANGLE8"
    | "t = TAG_TIME_DELTA" | "TAG_TIME_DELTA < t"
proof -
  have "t = 0 \<or> t = 1 \<or> t = 2 \<or> t = 3 \<or> t = 4 \<or> t = 5 \<or> t = 6 \<or> t = 7 \<or> t = 8 \<or> t = 9 \<or> 9 < t"
  proof (cases "9 < t")
    case False
    then have "unat t \<le> 9" by (simp add: word_less_nat_alt)
    then have "unat t = 0 \<or> unat t = 1 \<or> unat t = 2 \<or> unat t = 3 \<or> unat t = 4 \<or> unat t = 5 \<or>
        unat t = 6 \<or> unat t = 7 \<or> unat t = 8 \<or> unat t = 9"
      by arith
    moreover have "t = of_nat (unat t)" by simp
    ultimately show ?thesis by (elim disjE) simp_all
  qed simp
  with that show thesis by blast
qed

lemma get_tagged_put_payload [wire_simps]:
  assumes "wire_ok W" "payload_ok E tag v"
  shows "gn_get_tagged W E tag (reader_of (gn_put_payload W E tag v now @ bs)) now =
         (payload_view W E tag v, reader_of bs)"
proof (cases "tag_opaque tag")
  case True
  then have "tag \<noteq> 1" "tag \<noteq> 2" "tag \<noteq> 3" "tag \<noteq> 4" "tag \<noteq> 5" "tag \<noteq> 6" "tag \<noteq> 7"
    "tag \<noteq> 8" "tag \<noteq> 9"
    by (auto simp: tag_opaque_def)
  with True assms show ?thesis
    by (simp add: gn_get_tagged_def gn_put_payload_def payload_view_def Let_def wire_simps
        payload_ok_def opaque_ok_def unat_of_nat_u32)
next
  case False
  with assms show ?thesis
    by (cases tag rule: tag_cases)
      (simp_all add: gn_get_tagged_def gn_put_payload_def payload_view_def tag_opaque_def
        wire_simps split: prod.splits)
qed

definition value_view :: "wire \<Rightarrow> engine \<Rightarrow> variant \<Rightarrow> u8 \<Rightarrow> variant" where
  "value_view W E v quant = payload_view W E (gn_tag_for v quant) v"

definition value_ok :: "engine \<Rightarrow> variant \<Rightarrow> u8 \<Rightarrow> bool" where
  "value_ok E v quant = payload_ok E (gn_tag_for v quant) v"

lemma get_put_value [wire_simps]:
  "wire_ok W \<Longrightarrow> value_ok E v quant \<Longrightarrow>
     gn_get_value W E (reader_of (gn_put_value W E v quant now @ bs)) now =
       (value_view W E v quant, reader_of bs)"
  by (simp add: gn_get_value_def gn_put_value_def value_view_def value_ok_def Let_def wire_simps)

interpretation tagged: codec "wire_ok W" "\<lambda>v. gn_put_value W E v quant now"
    "\<lambda>r. gn_get_value W E r now" "\<lambda>v. value_view W E v quant" "\<lambda>v. value_ok E v quant"
  for W E quant now
  by unfold_locales (simp add: get_put_value)

subsection \<open>Properties\<close>

text \<open>C26: a value with no hint comes back as it was, whatever follows it in the packet: an int, bool
  or vector exactly, a float when an \<open>f32\<close> holds it, and any other variant as far as the engine's own
  serialisation restores it. The clocks at the two ends play no part.\<close>

theorem unhinted_value_exact:
  assumes "wire_ok W" "engine_ok E"
    and "case v of VInt i \<Rightarrow> True | VBool b \<Rightarrow> True | VVec3 x y z \<Rightarrow> True
       | VFloat d \<Rightarrow> widen (narrow d) = d | _ \<Rightarrow> opaque_ok E v"
  shows "gn_get_value W E (reader_of (gn_put_value W E v QUANT_AUTO now @ bs)) ref_now = (v, reader_of bs)"
  using assms
  by (cases v)
    (auto simp: gn_get_value_def gn_put_value_def gn_tag_for_def gn_put_payload_def gn_get_tagged_def
      Let_def wire_simps opaque_ok_def unat_of_nat_u32)

lemma unhinted_value_exact_witness:
  "gn_get_value demo_wire demo_engine
     (reader_of (gn_put_value demo_wire demo_engine (VOther 9 [1, 2]) QUANT_AUTO 5 @ [7])) 6 =
     (VOther 9 [1, 2], reader_of [7])"
  by (rule unhinted_value_exact [OF demo_wire_ok demo_engine_ok]) (simp add: demo_opaque_ok)

text \<open>A time sent as a delta from the packet's clock comes back on the reader's clock: with the
  same reference it is the same integer, for every 64-bit value and every 32-bit clock, wrap-around
  included.\<close>

theorem time_delta_rebases:
  assumes "wire_ok W" "engine_ok E"
  shows "gn_get_value W E (reader_of (gn_put_value W E (VInt i) TAG_TIME_DELTA now @ bs)) ref_now =
           (VInt (i - ucast now + ucast ref_now), reader_of bs)"
  using assms
  by (simp add: gn_get_value_def gn_put_value_def gn_tag_for_def gn_put_payload_def gn_get_tagged_def
      wire_simps)

lemma time_delta_rebases_witness:
  "gn_get_value demo_wire demo_engine
     (reader_of (gn_put_value demo_wire demo_engine (VInt 3) TAG_TIME_DELTA 4294967295 @ [1])) 1 =
     (VInt (3 - ucast (4294967295 :: u32) + ucast (1 :: u32)), reader_of [1])"
  by (rule time_delta_rebases [OF demo_wire_ok demo_engine_ok])

end
