(* ===== verification/Slots.thy ===== *)
theory Slots
  imports Values
begin

section \<open>Slots: values coded as steps from a baseline\<close>

text \<open>
  \<open>SlotKind\<close>, \<open>angle_step\<close>, \<open>grid_q\<close>, \<open>put_slot\<close> and \<open>get_slot\<close> of \<open>goldnet_multiplayer.cpp\<close>. A
  slot whose kind is stepped travels as the step from the value the peer holds at its baseline.
  The server steps from the value it read, the client from the value it decoded, so the two ends
  agree only as far as both give the same quantum (\<open>base_agrees\<close>): under that, a slot reads back
  as the same value whatever the baseline was, or whole (\<open>get_put_slot\<close>). That a decoded value has
  the quantum it was decoded from is \<open>Grid_Stable\<close>'s.
\<close>

subsection \<open>Kinds\<close>

abbreviation SK_INT_STEP :: u8 where "SK_INT_STEP \<equiv> 32"
abbreviation SK_ANGLE16_STEP :: u8 where "SK_ANGLE16_STEP \<equiv> 33"
abbreviation SK_ANGLE8_STEP :: u8 where "SK_ANGLE8_STEP \<equiv> 34"
abbreviation SK_FLOAT_GRID :: u8 where "SK_FLOAT_GRID \<equiv> 35"
abbreviation SK_VEC3_GRID :: u8 where "SK_VEC3_GRID \<equiv> 36"
abbreviation SK_TAGGED :: u8 where "SK_TAGGED \<equiv> 37"

definition slot_kind_stepped :: "u8 \<Rightarrow> bool" where
  "slot_kind_stepped kind = (SK_INT_STEP \<le> kind \<and> kind < SK_TAGGED)"

lemma stepped_cases:
  assumes "slot_kind_stepped kind"
  shows "kind = SK_INT_STEP \<or> kind = SK_ANGLE16_STEP \<or> kind = SK_ANGLE8_STEP \<or>
    kind = SK_FLOAT_GRID \<or> kind = SK_VEC3_GRID"
proof -
  have "32 \<le> unat kind" "unat kind < 37"
    using assms by (simp_all add: slot_kind_stepped_def word_le_nat_alt word_less_nat_alt)
  then have "unat kind = 32 \<or> unat kind = 33 \<or> unat kind = 34 \<or> unat kind = 35 \<or> unat kind = 36"
    by arith
  moreover have "kind = of_nat (unat kind)" by simp
  ultimately show ?thesis by (elim disjE) simp_all
qed

definition angle_step :: "int \<Rightarrow> int \<Rightarrow> nat \<Rightarrow> int" where
  "angle_step to from bits =
     (let full = 2 ^ bits in ((to - from + full div 2) AND (full - 1)) - full div 2)"

definition grid_q :: "engine \<Rightarrow> f64 \<Rightarrow> f64 \<Rightarrow> u64" where
  "grid_q E v grid =
     (let n = f64_div v grid
      in if f64_isfinite n
         then (case f64_llround n of Some q \<Rightarrow> q | None \<Rightarrow> llround_edge E n) else 0)"

definition angle_bits :: "u8 \<Rightarrow> nat" where
  "angle_bits kind = (if kind = SK_ANGLE16_STEP then 16 else 8)"

text \<open>The quantum of an optional baseline: 0 when there is none.\<close>

definition grid_base :: "engine \<Rightarrow> f64 \<Rightarrow> variant option \<Rightarrow> u64" where
  "grid_base E grid base =
     (case base of Some b \<Rightarrow> grid_q E (to_double E b) grid | None \<Rightarrow> 0)"

definition grid_base3 :: "engine \<Rightarrow> f64 \<Rightarrow> variant option \<Rightarrow> u64 \<times> u64 \<times> u64" where
  "grid_base3 E grid base =
     (case base of
        Some b \<Rightarrow>
          (case to_vec3 E b of (x, y, z) \<Rightarrow>
             (grid_q E (widen x) grid, grid_q E (widen y) grid, grid_q E (widen z) grid))
      | None \<Rightarrow> (0, 0, 0))"

definition put_slot ::
  "wire \<Rightarrow> engine \<Rightarrow> u8 \<Rightarrow> f64 \<Rightarrow> u8 \<Rightarrow> variant \<Rightarrow> variant option \<Rightarrow> u32 \<Rightarrow> bytes" where
  "put_slot W E kind grid quant v base now_ms =
     (if kind = SK_INT_STEP then
        w_varint W (to_int E v - (case base of Some b \<Rightarrow> to_int E b | None \<Rightarrow> 0))
      else if kind = SK_ANGLE16_STEP \<or> kind = SK_ANGLE8_STEP then
        (let bits = angle_bits kind in
         case base of
           None \<Rightarrow> gn_put_payload W E (if bits = 16 then TAG_ANGLE16 else TAG_ANGLE8) v now_ms
         | Some b \<Rightarrow>
             w_varint W (word_of_int (angle_step (angle_quanta W (narrow (to_double E v)) bits)
               (angle_quanta W (narrow (to_double E b)) bits) bits)))
      else if kind = SK_FLOAT_GRID then
        w_varint W (grid_q E (to_double E v) grid - grid_base E grid base)
      else if kind = SK_VEC3_GRID then
        (case to_vec3 E v of (x, y, z) \<Rightarrow>
         case grid_base3 E grid base of (bx, b_y, bz) \<Rightarrow>
           w_varint W (grid_q E (widen x) grid - bx) @
           w_varint W (grid_q E (widen y) grid - b_y) @
           w_varint W (grid_q E (widen z) grid - bz))
      else if kind = SK_TAGGED then gn_put_value W E v quant now_ms
      else gn_put_payload W E kind v now_ms)"

definition grid_value :: "u64 \<Rightarrow> f64 \<Rightarrow> f64" where
  "grid_value q grid = f64_mul (f64_of_int (sint q)) grid"

definition get_slot ::
  "wire \<Rightarrow> engine \<Rightarrow> u8 \<Rightarrow> f64 \<Rightarrow> variant option \<Rightarrow> u32 \<Rightarrow> reader \<Rightarrow> variant \<times> reader" where
  "get_slot W E kind grid base ref_time_ms r =
     (if kind = SK_INT_STEP then
        (let (d, r1) = r_varint W r
         in (VInt ((case base of Some b \<Rightarrow> to_int E b | None \<Rightarrow> 0) + d), r1))
      else if kind = SK_ANGLE16_STEP \<or> kind = SK_ANGLE8_STEP then
        (let bits = angle_bits kind in
         case base of
           None \<Rightarrow> gn_get_tagged W E (if bits = 16 then TAG_ANGLE16 else TAG_ANGLE8) r ref_time_ms
         | Some b \<Rightarrow>
             (let (d, r1) = r_varint W r;
                  q = (angle_quanta W (narrow (to_double E b)) bits + sint d) AND (2 ^ bits - 1)
              in (VFloat (angle_value W bits q), r1)))
      else if kind = SK_FLOAT_GRID then
        (let (d, r1) = r_varint W r in (VFloat (grid_value (grid_base E grid base + d) grid), r1))
      else if kind = SK_VEC3_GRID then
        (case grid_base3 E grid base of (bx, b_y, bz) \<Rightarrow>
           (let (dx, r1) = r_varint W r; (dy, r2) = r_varint W r1; (dz, r3) = r_varint W r2
            in (VVec3 (narrow (grid_value (bx + dx) grid)) (narrow (grid_value (b_y + dy) grid))
                  (narrow (grid_value (bz + dz) grid)), r3)))
      else if kind = SK_TAGGED then gn_get_value W E r ref_time_ms
      else gn_get_tagged W E kind r ref_time_ms)"

subsection \<open>Angle steps\<close>

lemma and_mask_eq_mod: "(a :: int) AND (2 ^ n - 1) = a mod 2 ^ n"
  by (simp add: take_bit_eq_mod [symmetric] take_bit_eq_mask mask_eq_exp_minus_1)

lemma angle_step_mod: "angle_step to from bits = (to - from + 2 ^ bits div 2) mod 2 ^ bits - 2 ^ bits div 2"
  by (simp add: angle_step_def Let_def and_mask_eq_mod)

lemma angle_step_range:
  "- (2 ^ bits div 2) \<le> angle_step to from bits \<and> angle_step to from bits < 2 ^ bits - 2 ^ bits div 2"
  using pos_mod_bound [of "2 ^ bits" "to - from + 2 ^ bits div 2"]
    pos_mod_sign [of "2 ^ bits" "to - from + 2 ^ bits div 2"]
  by (simp add: angle_step_mod)

lemma angle_step_lands: "(from + angle_step to from bits) mod 2 ^ bits = to mod 2 ^ bits"
proof -
  have "(from + angle_step to from bits) mod 2 ^ bits =
      ((from - 2 ^ bits div 2) + (to - from + 2 ^ bits div 2) mod 2 ^ bits) mod 2 ^ bits"
    by (simp add: angle_step_mod algebra_simps)
  also have "\<dots> = ((from - 2 ^ bits div 2) + (to - from + 2 ^ bits div 2)) mod 2 ^ bits"
    by (rule mod_add_right_eq)
  finally show ?thesis by simp
qed

lemma angle_step_sint:
  assumes "bits \<le> 32"
  shows "sint (word_of_int (angle_step to from bits) :: u64) = angle_step to from bits"
proof -
  have le: "(2 :: int) ^ bits \<le> 2 ^ 32" using assms by (intro power_increasing) auto
  have "- (2 ^ 63) \<le> angle_step to from bits" "angle_step to from bits < 2 ^ 63"
    using angle_step_range [of bits "to" "from"] le by auto
  then show ?thesis
    by (simp add: sint_sbintrunc' signed_take_bit_int_eq_self)
qed

lemma angle_base_step:
  assumes "bits \<le> 32" "0 \<le> to" "to < 2 ^ bits"
  shows "(from + sint (word_of_int (angle_step to from bits) :: u64)) AND (2 ^ bits - 1) = to"
  using assms angle_step_lands [of "from" "to" bits] by (simp add: angle_step_sint and_mask_eq_mod)

subsection \<open>What a slot reads back as\<close>

definition slot_view :: "wire \<Rightarrow> engine \<Rightarrow> u8 \<Rightarrow> f64 \<Rightarrow> u8 \<Rightarrow> variant \<Rightarrow> variant" where
  "slot_view W E kind grid quant v =
     (if kind = SK_INT_STEP then VInt (to_int E v)
      else if kind = SK_ANGLE16_STEP \<or> kind = SK_ANGLE8_STEP then
        VFloat (angle_value W (angle_bits kind) (angle_quanta W (narrow (to_double E v)) (angle_bits kind)))
      else if kind = SK_FLOAT_GRID then VFloat (grid_value (grid_q E (to_double E v) grid) grid)
      else if kind = SK_VEC3_GRID then
        (case to_vec3 E v of (x, y, z) \<Rightarrow>
           VVec3 (narrow (grid_value (grid_q E (widen x) grid) grid))
             (narrow (grid_value (grid_q E (widen y) grid) grid))
             (narrow (grid_value (grid_q E (widen z) grid) grid)))
      else if kind = SK_TAGGED then value_view W E v quant
      else payload_view W E kind v)"

definition slot_ok :: "engine \<Rightarrow> u8 \<Rightarrow> u8 \<Rightarrow> variant \<Rightarrow> bool" where
  "slot_ok E kind quant v =
     (slot_kind_stepped kind \<or>
      (if kind = SK_TAGGED then value_ok E v quant else payload_ok E kind v))"

text \<open>Both ends have no baseline, or theirs has the same quantum.\<close>

definition base_agrees ::
  "wire \<Rightarrow> engine \<Rightarrow> u8 \<Rightarrow> f64 \<Rightarrow> variant option \<Rightarrow> variant option \<Rightarrow> bool" where
  "base_agrees W E kind grid sb cb =
     (case (sb, cb) of
        (None, None) \<Rightarrow> True
      | (Some b, Some c) \<Rightarrow>
          (if kind = SK_INT_STEP then to_int E b = to_int E c
           else if kind = SK_ANGLE16_STEP \<or> kind = SK_ANGLE8_STEP then
             angle_quanta W (narrow (to_double E b)) (angle_bits kind) =
             angle_quanta W (narrow (to_double E c)) (angle_bits kind)
           else if kind = SK_FLOAT_GRID then
             grid_base E grid (Some b) = grid_base E grid (Some c)
           else if kind = SK_VEC3_GRID then
             grid_base3 E grid (Some b) = grid_base3 E grid (Some c)
           else True)
      | _ \<Rightarrow> False)"

lemma get_put_angle:
  assumes "wire_ok W" "angle_ok W" "kind = SK_ANGLE16_STEP \<or> kind = SK_ANGLE8_STEP"
    and "base_agrees W E kind grid sb cb"
  shows "get_slot W E kind grid cb now (reader_of (put_slot W E kind grid quant v sb now @ bs)) =
         (slot_view W E kind grid quant v, reader_of bs)"
proof -
  define a where "a = narrow (to_double E v)"
  have rng: "0 \<le> angle_quanta W a bits" "angle_quanta W a bits < 2 ^ bits"
    "widen (angle_view W bits a) = angle_value W bits (angle_quanta W a bits)"
    if "bits = 16 \<or> bits = 8" for bits
    using assms(2) that by (auto simp: angle_ok_def)
  have bits: "angle_bits kind = 16 \<or> angle_bits kind = 8"
    by (simp add: angle_bits_def)
  then have le: "angle_bits kind \<le> 32" by auto
  show ?thesis
  proof (cases sb)
    case None
    then have "cb = None" using assms(4) by (cases cb) (simp_all add: base_agrees_def)
    then show ?thesis
      using None assms(1,3) rng(3)
      by (auto simp: get_slot_def put_slot_def slot_view_def wire_simps payload_ok_def
          tag_opaque_def payload_view_def angle_bits_def a_def)
  next
    case (Some b)
    then obtain c where cb: "cb = Some c" using assms(4) by (cases cb) (simp_all add: base_agrees_def)
    define f where "f = angle_quanta W (narrow (to_double E b)) (angle_bits kind)"
    have f: "angle_quanta W (narrow (to_double E c)) (angle_bits kind) = f"
      using assms(3,4) Some cb by (auto simp: base_agrees_def f_def)
    have "(f + sint (word_of_int (angle_step (angle_quanta W a (angle_bits kind)) f (angle_bits kind)) :: u64))
        AND (2 ^ angle_bits kind - 1) = angle_quanta W a (angle_bits kind)"
      using rng(1,2) bits le by (intro angle_base_step) auto
    then show ?thesis
      using Some cb assms(1,3) f
      by (auto simp: get_slot_def put_slot_def slot_view_def wire_simps Let_def a_def f_def)
  qed
qed

lemma get_put_slot [wire_simps]:
  assumes "wire_ok W" "angle_ok W" "slot_ok E kind quant v" "base_agrees W E kind grid sb cb"
  shows "get_slot W E kind grid cb now (reader_of (put_slot W E kind grid quant v sb now @ bs)) =
         (slot_view W E kind grid quant v, reader_of bs)"
proof -
  consider (step) "kind = SK_INT_STEP" | (angle) "kind = SK_ANGLE16_STEP \<or> kind = SK_ANGLE8_STEP"
    | (fgrid) "kind = SK_FLOAT_GRID" | (vgrid) "kind = SK_VEC3_GRID" | (tagged) "kind = SK_TAGGED"
    | (whole) "kind \<noteq> SK_INT_STEP" "kind \<noteq> SK_ANGLE16_STEP" "kind \<noteq> SK_ANGLE8_STEP"
      "kind \<noteq> SK_FLOAT_GRID" "kind \<noteq> SK_VEC3_GRID" "kind \<noteq> SK_TAGGED"
    by blast
  then show ?thesis
  proof cases
    case step
    with assms show ?thesis
      by (cases sb; cases cb)
        (simp_all add: get_slot_def put_slot_def slot_view_def base_agrees_def wire_simps)
  next
    case angle
    with assms show ?thesis by (intro get_put_angle) auto
  next
    case fgrid
    then have "grid_base E grid sb = grid_base E grid cb"
      using assms(4) by (cases sb; cases cb) (simp_all add: base_agrees_def)
    with fgrid assms(1) show ?thesis
      by (simp add: get_slot_def put_slot_def slot_view_def wire_simps)
  next
    case vgrid
    then have "grid_base3 E grid sb = grid_base3 E grid cb"
      using assms(4) by (cases sb; cases cb) (simp_all add: base_agrees_def)
    with vgrid assms(1) show ?thesis
      by (simp add: get_slot_def put_slot_def slot_view_def wire_simps split: prod.splits)
  next
    case tagged
    with assms(1,3) show ?thesis
      by (simp add: get_slot_def put_slot_def slot_view_def slot_ok_def slot_kind_stepped_def wire_simps)
  next
    case whole
    then have "\<not> slot_kind_stepped kind" by (auto dest: stepped_cases)
    with whole assms(1,3) show ?thesis
      by (simp add: get_slot_def put_slot_def slot_view_def slot_ok_def wire_simps)
  qed
qed

interpretation slot: codec "wire_ok W \<and> angle_ok W \<and> base_agrees W E kind grid sb cb"
    "\<lambda>v. put_slot W E kind grid quant v sb now" "get_slot W E kind grid cb now"
    "slot_view W E kind grid quant" "slot_ok E kind quant"
  for W E kind grid quant sb cb now
  by unfold_locales (simp add: get_put_slot)

subsection \<open>Properties\<close>

text \<open>C25: an angle's step goes the short way round: it lands on the target modulo a turn, it is at
  most half a turn, and no other step that lands there is shorter.\<close>

theorem angle_step_shortest:
  "(from + angle_step to from bits) mod 2 ^ bits = to mod 2 ^ bits \<and>
   - (2 ^ bits div 2) \<le> angle_step to from bits \<and> angle_step to from bits \<le> 2 ^ bits div 2 \<and>
   ((from + d) mod 2 ^ bits = to mod 2 ^ bits \<longrightarrow> \<bar>angle_step to from bits\<bar> \<le> \<bar>d\<bar>)"
proof -
  define s where "s = angle_step to from bits"
  define f where "f = (2 :: int) ^ bits"
  have f: "0 < f" by (simp add: f_def)
  have rng: "- (f div 2) \<le> s" "s < f - f div 2"
    using angle_step_range [of bits "to" "from"] by (simp_all add: s_def f_def)
  have land: "(from + s) mod f = to mod f"
    using angle_step_lands by (simp add: s_def f_def)
  have half: "s \<le> f div 2" using rng(2) by linarith
  have "\<bar>s\<bar> \<le> \<bar>d\<bar>" if "(from + d) mod f = to mod f"
  proof -
    have "f dvd (from + d) - (from + s)"
      using that land by (simp only: mod_eq_dvd_iff [symmetric])
    then obtain k where "d - s = f * k" by (auto elim: dvdE)
    then have d: "d = s + f * k" by simp
    consider "k = 0" | "1 \<le> k" | "k \<le> -1" by linarith
    then show ?thesis
    proof cases
      case 2
      then have "f * 1 \<le> f * k" using f by (intro mult_left_mono) simp_all
      then show ?thesis using d rng by linarith
    next
      case 3
      then have "f * k \<le> f * (-1)" using f by (intro mult_left_mono) simp_all
      then show ?thesis using d rng by linarith
    qed (simp add: d)
  qed
  then show ?thesis
    using land rng half by (simp add: s_def f_def)
qed

lemma angle_step_shortest_witness:
  "(65530 + angle_step 4 65530 16) mod 2 ^ 16 = 4 \<and> \<bar>angle_step 4 65530 16\<bar> \<le> 65526"
  using angle_step_shortest [of 65530 4 16 "-65526"] by simp

text \<open>C6: one slot end to end: whatever the kind, the client that holds a baseline with the server's
  quantum (or none, as the server has none) reads back the slot's view of the value and leaves the
  rest of the packet: an int exactly, an angle at its step, a grid value at its quantum, and any other
  slot as its tagged value.\<close>

theorem slot_reads_back:
  assumes "wire_ok W" "angle_ok W" "slot_ok E kind quant v" "base_agrees W E kind grid sb cb"
  shows "get_slot W E kind grid cb now (reader_of (put_slot W E kind grid quant v sb now @ bs)) =
         (slot_view W E kind grid quant v, reader_of bs)"
  using assms by (rule get_put_slot)

lemma slot_reads_back_witness:
  "get_slot demo_wire demo_engine SK_ANGLE16_STEP 0 (Some (VFloat 0x4000000000000000)) 5
     (reader_of (put_slot demo_wire demo_engine SK_ANGLE16_STEP 0 QUANT_AUTO
        (VFloat 0x3FF0000000000000) (Some (VFloat 0x4000000000000000)) 5 @ [9])) =
   (slot_view demo_wire demo_engine SK_ANGLE16_STEP 0 QUANT_AUTO (VFloat 0x3FF0000000000000),
    reader_of [9])"
  by (rule slot_reads_back [OF demo_wire_ok demo_angle_ok])
    (simp_all add: slot_ok_def slot_kind_stepped_def base_agrees_def)

end
