(* ===== verification/Slot_Plan.thy ===== *)
theory Slot_Plan
  imports Slots
begin

section \<open>A synchronizer's slots, their plan and their coding\<close>

text \<open>
  From \<open>goldnet_multiplayer.cpp\<close>: \<open>is_replicated_slot\<close>, \<open>_should_intercept\<close>, \<open>get_sync_slots\<close>,
  \<open>resolve_property\<close>, \<open>cache_slot_plan\<close>, \<open>slot_leaf\<close>, \<open>leaf_meta\<close>, \<open>_read_quant\<close>, \<open>_read_push\<close> and
  \<open>_make_slot_coding\<close>. The engine's answers about the scene are the record \<open>scene\<close>: the node a path
  names, the \<open>NodePath\<close> a string parses to, whether an ObjectID is alive, and its property list with
  declared types. A Dictionary or Array treats a \<open>String\<close> and a \<open>StringName\<close> of one text as the same
  key, so \<open>dict_get\<close> and \<open>array_has\<close> do. \<open>MAX_SLOTS\<close> is goldnet's and an argument.

  The lemmas show that the slot order is the configuration's, that the cached type table changes
  nothing, that a declared type fixes what a slot decodes to, that both ends make the same coding, and
  what the one-byte check can and cannot tell.
\<close>

subsection \<open>The engine's side\<close>

record node_path =
  np_names :: "string list"
  np_subs :: "string list"

record scene =
  sc_node :: "objid \<Rightarrow> node_path \<Rightarrow> objid option"
  sc_path_of :: "string \<Rightarrow> node_path"
  sc_alive :: "objid \<Rightarrow> bool"
  sc_props :: "objid \<Rightarrow> (string \<times> variant_type) list"

type_synonym repl_config = "(node_path \<times> bool \<times> bool) list"

record synchronizer =
  sy_config :: "repl_config option"
  sy_root :: "objid option"
  sy_meta :: "(string \<times> variant) list"

text \<open>\<open>NodePath(":a:b")\<close> has no names and the subnames \<open>a\<close> and \<open>b\<close>.\<close>

definition subpath_string :: "string list \<Rightarrow> string" where
  "subpath_string subs = concat (map (\<lambda>s. '':'' @ s) subs)"

definition scene_ok :: "scene \<Rightarrow> bool" where
  "scene_ok S =
     (\<forall>subs. (\<forall>s \<in> set subs. s \<noteq> [] \<and> CHR '':'' \<notin> set s \<and> CHR ''/'' \<notin> set s) \<longrightarrow>
        sc_path_of S (subpath_string subs) = \<lparr>np_names = [], np_subs = subs\<rparr>)"

definition text_of :: "variant \<Rightarrow> string option" where
  "text_of v = (case v of VString s \<Rightarrow> Some s | VStringName s \<Rightarrow> Some s | _ \<Rightarrow> None)"

definition dict_get :: "(variant \<times> variant) list \<Rightarrow> string \<Rightarrow> variant option" where
  "dict_get d k = map_option snd (find (\<lambda>(key, _). text_of key = Some k) d)"

definition array_has :: "variant list \<Rightarrow> string \<Rightarrow> bool" where
  "array_has xs s = list_ex (\<lambda>v. text_of v = Some s) xs"

subsection \<open>Slots\<close>

definition is_replicated_slot :: "repl_config \<Rightarrow> node_path \<Rightarrow> bool" where
  "is_replicated_slot cfg p =
     (case map_of cfg p of Some (sync, watch) \<Rightarrow> sync \<or> watch | None \<Rightarrow> False)"

definition get_properties :: "repl_config \<Rightarrow> node_path list" where
  "get_properties cfg = map fst cfg"

definition should_intercept :: "synchronizer \<Rightarrow> bool" where
  "should_intercept sy =
     (case sy_config sy of
        None \<Rightarrow> False
      | Some cfg \<Rightarrow> list_ex (is_replicated_slot cfg) (get_properties cfg))"

text \<open>The loop over the properties, which stops once \<open>r_paths\<close> has \<open>MAX_SLOTS\<close>.\<close>

fun sync_slots_loop :: "nat \<Rightarrow> repl_config \<Rightarrow> node_path list \<Rightarrow> node_path list \<Rightarrow> node_path list" where
  "sync_slots_loop cap cfg [] acc = acc"
| "sync_slots_loop cap cfg (p # ps) acc =
     (if length acc < cap
      then sync_slots_loop cap cfg ps (if is_replicated_slot cfg p then acc @ [p] else acc)
      else acc)"

definition get_sync_slots :: "nat \<Rightarrow> synchronizer \<Rightarrow> node_path list" where
  "get_sync_slots cap sy =
     (case sy_config sy of None \<Rightarrow> [] | Some cfg \<Rightarrow> sync_slots_loop cap cfg (get_properties cfg) [])"

subsection \<open>Where a slot lives\<close>

fun join_names :: "string list \<Rightarrow> string \<Rightarrow> string" where
  "join_names [] acc = acc"
| "join_names (n # ns) acc =
     join_names ns (if n = ''.'' then acc else acc @ (if acc = [] then [] else ''/'') @ n)"

definition resolve_property :: "scene \<Rightarrow> objid \<Rightarrow> node_path \<Rightarrow> (objid \<times> node_path) option" where
  "resolve_property S rt cfg_path =
     (let path = join_names (np_names cfg_path) [];
          target = (if path = [] then Some rt else sc_node S rt (sc_path_of S path))
      in case target of
           None \<Rightarrow> None
         | Some t \<Rightarrow> Some (t, sc_path_of S (subpath_string (np_subs cfg_path))))"

definition no_path :: node_path where
  "no_path = \<lparr>np_names = [], np_subs = []\<rparr>"

text \<open>A hole, for a slot whose node isn't there, has target 0 and the empty path.\<close>

definition cache_slot_plan :: "nat \<Rightarrow> scene \<Rightarrow> synchronizer \<Rightarrow> (objid \<times> node_path) list" where
  "cache_slot_plan cap S sy =
     map (\<lambda>p.
        case sy_root sy of
          None \<Rightarrow> (0, no_path)
        | Some rt \<Rightarrow>
            (case resolve_property S rt p of Some (t, prop) \<Rightarrow> (t, prop) | None \<Rightarrow> (0, no_path)))
       (get_sync_slots cap sy)"

subsection \<open>The \<open>gn_*\<close> metas\<close>

definition slot_leaf :: "node_path \<Rightarrow> string" where
  "slot_leaf p = (if np_subs p = [] then [] else last (np_subs p))"

definition leaf_meta :: "synchronizer \<Rightarrow> string \<Rightarrow> (variant \<times> variant) list" where
  "leaf_meta sy key = (case map_of (sy_meta sy) key of Some (VDict d) \<Rightarrow> d | _ \<Rightarrow> [])"

definition read_quant :: "nat \<Rightarrow> engine \<Rightarrow> synchronizer \<Rightarrow> u8 list" where
  "read_quant cap E sy =
     (let hints = leaf_meta sy ''gn_quant'' in
      if hints = [] then []
      else
        let q = map (\<lambda>p. case dict_get hints (slot_leaf p) of
                          Some v \<Rightarrow> gn_quant_from_name (to_str E v)
                        | None \<Rightarrow> QUANT_AUTO) (get_sync_slots cap sy)
        in if list_ex (\<lambda>code. code \<noteq> QUANT_AUTO) q then q else [])"

definition read_push :: "nat \<Rightarrow> synchronizer \<Rightarrow> u8 list" where
  "read_push cap sy =
     (case map_of (sy_meta sy) ''gn_push'' of
        Some (VArray names) \<Rightarrow>
          (let q = map (\<lambda>p. let leaf = slot_leaf p
                            in if leaf \<noteq> [] \<and> array_has names leaf then 1 else 0)
                     (get_sync_slots cap sy)
           in if list_ex (\<lambda>b. b \<noteq> 0) q then q else [])
      | _ \<Rightarrow> [])"

subsection \<open>A slot's kind\<close>

record slot_coding =
  kinds :: "u8 list"
  grids :: "f64 list"
  quant :: "u8 list"
  check :: u8

definition slot_kind :: "variant_type \<Rightarrow> u8 \<Rightarrow> f64 \<Rightarrow> u8" where
  "slot_kind type q grid =
     (case type of
        T_INT \<Rightarrow> if q = TAG_TIME_DELTA then TAG_TIME_DELTA else SK_INT_STEP
      | T_BOOL \<Rightarrow> TAG_BOOL
      | T_FLOAT \<Rightarrow>
          if f64_pos grid then SK_FLOAT_GRID
          else if q = TAG_ANGLE16 then SK_ANGLE16_STEP
          else if q = TAG_ANGLE8 then SK_ANGLE8_STEP
          else if q = TAG_HALF then TAG_HALF else TAG_FLOAT
      | T_VECTOR3 \<Rightarrow>
          if f64_pos grid then SK_VEC3_GRID
          else if q = TAG_VEC3_HALF then TAG_VEC3_HALF else TAG_VEC3
      | _ \<Rightarrow> SK_TAGGED)"

definition fnv_mix :: "u32 \<Rightarrow> u8 \<Rightarrow> u32" where
  "fnv_mix h b = (h XOR ucast b) * 16777619"

definition grid_bytes :: "f64 \<Rightarrow> bytes" where
  "grid_bytes grid = map (\<lambda>b. ucast (drop_bit (8 * b) (narrow grid))) [0, 1, 2, 3]"

definition mix_slot :: "u32 \<Rightarrow> u8 \<Rightarrow> f64 \<Rightarrow> u32" where
  "mix_slot h kind grid =
     (let h1 = fnv_mix h kind in
      if kind = SK_FLOAT_GRID \<or> kind = SK_VEC3_GRID then foldl fnv_mix h1 (grid_bytes grid) else h1)"

definition fold_check :: "u32 \<Rightarrow> u8" where
  "fold_check h = ucast (h XOR drop_bit 8 h XOR drop_bit 16 h XOR drop_bit 24 h)"

definition read_types :: "scene \<Rightarrow> objid \<Rightarrow> (string, variant_type) hash_map" where
  "read_types S obj = fold (\<lambda>(name, type) m. hm_put name type m) (sc_props S obj) []"

text \<open>The loop's state: whose types are cached, the types, and the hash. One step codes one slot from
  its path, its plan entry and its hint.\<close>

record coding_state =
  types_of :: objid
  types :: "(string, variant_type) hash_map"
  fnv :: u32

definition code_slot ::
  "scene \<Rightarrow> engine \<Rightarrow> (variant \<times> variant) list \<Rightarrow> node_path \<Rightarrow> objid \<Rightarrow> node_path \<Rightarrow> u8 \<Rightarrow> coding_state \<Rightarrow>
   (u8 \<times> f64 \<times> u8) \<times> coding_state" where
  "code_slot S E gridsd slot target_id prop q st =
     (let grid = (case dict_get gridsd (slot_leaf slot) of Some v \<Rightarrow> to_double E v | None \<Rightarrow> 0);
          target = target_id \<noteq> 0 \<and> sc_alive S target_id;
          st1 = (if target \<and> target_id \<noteq> types_of st
                 then st\<lparr>types_of := target_id, types := read_types S target_id\<rparr> else st);
          type = (if target \<and> length (np_subs prop) = 1
                  then (case hm_get (types st1) (np_subs prop ! 0) of Some t \<Rightarrow> t | None \<Rightarrow> T_NIL)
                  else T_NIL);
          kind = slot_kind type q grid
      in ((kind, grid, q), st1\<lparr>fnv := mix_slot (fnv st1) kind grid\<rparr>))"

fun code_slots ::
  "scene \<Rightarrow> engine \<Rightarrow> (variant \<times> variant) list \<Rightarrow> (node_path \<times> (objid \<times> node_path) \<times> u8) list \<Rightarrow>
   coding_state \<Rightarrow> (u8 \<times> f64 \<times> u8) list \<times> coding_state" where
  "code_slots S E gridsd [] st = ([], st)"
| "code_slots S E gridsd ((slot, (target_id, prop), q) # rest) st =
     (let (c, st1) = code_slot S E gridsd slot target_id prop q st;
          (cs, st2) = code_slots S E gridsd rest st1
      in (c # cs, st2))"

text \<open>\<open>quant\<close> is empty or as long as the slots: a slot past its end is \<open>QUANT_AUTO\<close>.\<close>

definition quant_at :: "u8 list \<Rightarrow> nat \<Rightarrow> u8" where
  "quant_at q s = (if s < length q then q ! s else QUANT_AUTO)"

definition make_slot_coding ::
  "nat \<Rightarrow> scene \<Rightarrow> engine \<Rightarrow> synchronizer \<Rightarrow> (objid \<times> node_path) list \<Rightarrow> slot_coding" where
  "make_slot_coding cap S E sy plan =
     (let slots = get_sync_slots cap sy;
          q = read_quant cap E sy;
          n = min (length slots) (length plan);
          items = map (\<lambda>s. (slots ! s, plan ! s, quant_at q s)) [0..<n];
          (cs, st) = code_slots S E (leaf_meta sy ''gn_grid'') items
            \<lparr>types_of = 0, types = [], fnv = 2166136261\<rparr>
      in \<lparr>kinds = map fst cs, grids = map (fst \<circ> snd) cs, quant = map (snd \<circ> snd) cs,
          check = fold_check (fnv st)\<rparr>)"

subsection \<open>The slots are the configuration's, in its order\<close>

lemma sync_slots_loop_eq:
  "sync_slots_loop cap cfg ps acc =
     acc @ take (cap - length acc) (filter (is_replicated_slot cfg) ps)"
proof (induction ps arbitrary: acc)
  case (Cons p ps)
  have "Suc (cap - Suc n) = cap - n" if "n < cap" for n
    using that by simp
  then show ?case
    using Cons by (auto simp: take_Cons' le_diff_conv)
qed simp

lemma get_sync_slots_eq:
  "sy_config sy = Some cfg \<Longrightarrow>
     get_sync_slots cap sy = take cap (filter (is_replicated_slot cfg) (get_properties cfg))"
  by (simp add: get_sync_slots_def sync_slots_loop_eq)

lemma length_cache_slot_plan [simp]: "length (cache_slot_plan cap S sy) = length (get_sync_slots cap sy)"
  by (simp add: cache_slot_plan_def)

lemma read_quant_length: "read_quant cap E sy = [] \<or> length (read_quant cap E sy) = length (get_sync_slots cap sy)"
  by (simp add: read_quant_def Let_def)

lemma read_push_length: "read_push cap sy = [] \<or> length (read_push cap sy) = length (get_sync_slots cap sy)"
  by (simp add: read_push_def Let_def split: option.split variant.split)

subsection \<open>The type cache\<close>

text \<open>A slot's declared type, read with no cache.\<close>

definition declared_type :: "scene \<Rightarrow> objid \<times> node_path \<Rightarrow> variant_type" where
  "declared_type S e =
     (if fst e \<noteq> 0 \<and> sc_alive S (fst e) \<and> length (np_subs (snd e)) = 1
      then (case map_of (rev (sc_props S (fst e))) (np_subs (snd e) ! 0) of Some t \<Rightarrow> t | None \<Rightarrow> T_NIL)
      else T_NIL)"

lemma read_types_get: "hm_get (read_types S obj) name = map_of (rev (sc_props S obj)) name"
proof -
  have "hm_get (fold (\<lambda>(name, type) m. hm_put name type m) ps m) name =
      (case map_of (rev ps) name of Some t \<Rightarrow> Some t | None \<Rightarrow> hm_get m name)" for ps m
    by (induction ps arbitrary: m) (auto simp: hm_get_put map_add_def split: option.splits)
  from this [of "sc_props S obj" "[]"] show ?thesis
    by (simp add: read_types_def split: option.splits)
qed

definition cache_valid :: "scene \<Rightarrow> coding_state \<Rightarrow> bool" where
  "cache_valid S st = (types_of st \<noteq> 0 \<longrightarrow> types st = read_types S (types_of st))"

definition slot_grid :: "engine \<Rightarrow> (variant \<times> variant) list \<Rightarrow> node_path \<Rightarrow> f64" where
  "slot_grid E gridsd slot =
     (case dict_get gridsd (slot_leaf slot) of Some v \<Rightarrow> to_double E v | None \<Rightarrow> 0)"

lemma code_slot_uncached:
  assumes "cache_valid S st"
  shows "\<exists>st1. code_slot S E g slot target prop q st =
     ((slot_kind (declared_type S (target, prop)) q (slot_grid E g slot), slot_grid E g slot, q), st1) \<and>
     cache_valid S st1 \<and>
     fnv st1 = mix_slot (fnv st) (slot_kind (declared_type S (target, prop)) q (slot_grid E g slot)) (slot_grid E g slot)"
  using assms
  by (auto simp: code_slot_def Let_def cache_valid_def declared_type_def slot_grid_def [symmetric]
      read_types_get split: option.splits)

definition coded :: "scene \<Rightarrow> engine \<Rightarrow> (variant \<times> variant) list \<Rightarrow>
    node_path \<times> (objid \<times> node_path) \<times> u8 \<Rightarrow> u8 \<times> f64 \<times> u8" where
  "coded S E g item =
     (case item of (slot, e, q) \<Rightarrow>
        (slot_kind (declared_type S e) q (slot_grid E g slot), slot_grid E g slot, q))"

lemma code_slots_uncached:
  "cache_valid S st \<Longrightarrow>
     fst (code_slots S E g items st) = map (coded S E g) items \<and>
     fnv (snd (code_slots S E g items st)) =
       foldl (\<lambda>h (kind, grid, q). mix_slot h kind grid) (fnv st) (map (coded S E g) items)"
proof (induction items arbitrary: st)
  case (Cons item items)
  obtain slot tg pr q where item: "item = (slot, (tg, pr), q)" by (cases item) auto
  from code_slot_uncached [OF Cons.prems, of E g slot tg pr q]
  obtain st1 where *: "code_slot S E g slot tg pr q st = (coded S E g item, st1)"
      "cache_valid S st1"
      "fnv st1 = (case coded S E g item of (kind, grid, q) \<Rightarrow> mix_slot (fnv st) kind grid)"
    by (auto simp: coded_def item)
  then show ?case
    using Cons.IH [OF *(2)] by (simp add: item split_beta)
qed simp

definition slot_items :: "nat \<Rightarrow> engine \<Rightarrow> synchronizer \<Rightarrow> (objid \<times> node_path) list \<Rightarrow>
    (node_path \<times> (objid \<times> node_path) \<times> u8) list" where
  "slot_items cap E sy plan =
     map (\<lambda>s. (get_sync_slots cap sy ! s, plan ! s, quant_at (read_quant cap E sy) s))
       [0..<min (length (get_sync_slots cap sy)) (length plan)]"

lemma make_slot_coding_uncached:
  "make_slot_coding cap S E sy plan =
     (let cs = map (coded S E (leaf_meta sy ''gn_grid'')) (slot_items cap E sy plan)
      in \<lparr>kinds = map fst cs, grids = map (fst \<circ> snd) cs, quant = map (snd \<circ> snd) cs,
          check = fold_check (foldl (\<lambda>h (kind, grid, q). mix_slot h kind grid) 2166136261 cs)\<rparr>)"
  using code_slots_uncached [of S "\<lparr>types_of = 0, types = [], fnv = 2166136261\<rparr>" E
      "leaf_meta sy ''gn_grid''" "slot_items cap E sy plan"]
  by (simp add: make_slot_coding_def slot_items_def Let_def split_beta cache_valid_def)

subsection \<open>The hash\<close>

lemma fnv_mul_inj: "(a :: u32) * 16777619 = b * 16777619 \<Longrightarrow> a = b"
proof -
  have inv: "(16777619 :: u32) * 899433627 = 1" by simp
  assume "a * 16777619 = b * 16777619"
  then have "a * (16777619 * 899433627) = b * (16777619 * 899433627)"
    unfolding mult.assoc [symmetric] by (rule arg_cong)
  then show "a = b" unfolding inv by simp
qed

lemma xor_cancel_left: "(h :: 'a::len word) XOR x = h XOR y \<Longrightarrow> x = y"
proof -
  assume "h XOR x = h XOR y"
  then have "h XOR (h XOR x) = h XOR (h XOR y)" by simp
  then show "x = y" by (simp add: xor.assoc [symmetric])
qed

lemma fnv_mix_inj: "fnv_mix h b = fnv_mix h' b \<Longrightarrow> h = h'"
  unfolding fnv_mix_def by (drule fnv_mul_inj, rule xor_cancel_left [of "ucast b"], simp add: xor.commute)

lemma ucast_u8_inj: "(ucast (b :: u8) :: u32) = ucast b' \<Longrightarrow> b = b'"
proof -
  have "(ucast (ucast x :: u32) :: u8) = x" for x
    by (rule bit_word_eqI) (simp add: bit_simps)
  moreover assume "(ucast b :: u32) = ucast b'"
  ultimately show "b = b'" by metis
qed

lemma fnv_mix_inj2: "fnv_mix h b = fnv_mix h b' \<Longrightarrow> b = b'"
  unfolding fnv_mix_def by (drule fnv_mul_inj, drule xor_cancel_left, rule ucast_u8_inj)

subsection \<open>What a kind decodes to\<close>

lemma view_type:
  "get_type (slot_view W E SK_INT_STEP grid q v) = T_INT"
  "get_type (slot_view W E TAG_TIME_DELTA grid q v) = T_INT"
  "get_type (slot_view W E TAG_BOOL grid q v) = T_BOOL"
  "get_type (slot_view W E SK_FLOAT_GRID grid q v) = T_FLOAT"
  "get_type (slot_view W E SK_ANGLE16_STEP grid q v) = T_FLOAT"
  "get_type (slot_view W E SK_ANGLE8_STEP grid q v) = T_FLOAT"
  "get_type (slot_view W E TAG_HALF grid q v) = T_FLOAT"
  "get_type (slot_view W E TAG_FLOAT grid q v) = T_FLOAT"
  "get_type (slot_view W E SK_VEC3_GRID grid q v) = T_VECTOR3"
  "get_type (slot_view W E TAG_VEC3_HALF grid q v) = T_VECTOR3"
  "get_type (slot_view W E TAG_VEC3 grid q v) = T_VECTOR3"
  by (simp_all only: slot_view_def payload_view_def split: prod.split) simp_all

lemma plain_kind_ok:
  "k \<in> {TAG_FLOAT, TAG_BOOL, TAG_VEC3, TAG_HALF, TAG_VEC3_HALF, TAG_TIME_DELTA, SK_INT_STEP,
     SK_ANGLE16_STEP, SK_ANGLE8_STEP, SK_FLOAT_GRID, SK_VEC3_GRID} \<Longrightarrow> slot_ok E k q v"
  by (auto simp: slot_ok_def slot_kind_stepped_def payload_ok_def tag_opaque_def)

text \<open>The coding depends on the configuration, the metas and the declared types alone.\<close>

lemma both_ends_coding:
  assumes "sy_config sy = sy_config sy'" "sy_meta sy = sy_meta sy'"
    and "map (declared_type S) plan = map (declared_type S') plan'"
  shows "make_slot_coding cap S E sy plan = make_slot_coding cap S' E sy' plan'"
proof -
  have slots: "get_sync_slots cap sy = get_sync_slots cap sy'"
    and meta: "leaf_meta sy k = leaf_meta sy' k" for k
    using assms(1,2) by (simp_all add: get_sync_slots_def leaf_meta_def)
  then have q: "read_quant cap E sy = read_quant cap E sy'"
    by (simp add: read_quant_def Let_def)
  have len: "length plan = length plan'"
    using assms(3) by (rule map_eq_imp_length_eq)
  have "declared_type S (plan ! i) = declared_type S' (plan' ! i)" if "i < length plan" for i
    using arg_cong [OF assms(3), of "\<lambda>xs. xs ! i"] that len by simp
  then have "map (coded S E g) (slot_items cap E sy plan) = map (coded S' E g) (slot_items cap E sy' plan')" for g
    using slots q len by (simp add: slot_items_def coded_def)
  then show ?thesis
    by (simp add: make_slot_coding_uncached meta)
qed

subsection \<open>A concrete synchronizer\<close>

definition demo_prop :: "string \<Rightarrow> node_path" where
  "demo_prop s = \<lparr>np_names = [''.''], np_subs = [s]\<rparr>"

definition demo_sync :: synchronizer where
  "demo_sync =
     \<lparr>sy_config = Some [(demo_prop ''a'', True, False), (demo_prop ''n'', False, False), (demo_prop ''b'', False, True)],
      sy_root = Some 7, sy_meta = []\<rparr>"

definition demo_scene :: "objid \<Rightarrow> variant_type \<Rightarrow> variant_type \<Rightarrow> scene" where
  "demo_scene obj ta tb =
     \<lparr>sc_node = (\<lambda>rt p. None),
      sc_path_of = (\<lambda>s. \<lparr>np_names = [], np_subs = (if s = [] then [] else [tl s])\<rparr>),
      sc_alive = (\<lambda>i. i = obj), sc_props = (\<lambda>i. [(''a'', ta), (''b'', tb)])\<rparr>"

lemma demo_slots: "get_sync_slots 32 demo_sync = [demo_prop ''a'', demo_prop ''b'']"
  by (simp add: get_sync_slots_def demo_sync_def get_properties_def is_replicated_slot_def demo_prop_def)

lemma demo_plan:
  "cache_slot_plan 32 (demo_scene obj ta tb) demo_sync =
     [(7, \<lparr>np_names = [], np_subs = [''a'']\<rparr>), (7, \<lparr>np_names = [], np_subs = [''b'']\<rparr>)]"
  unfolding cache_slot_plan_def demo_slots
  by (simp add: resolve_property_def demo_prop_def demo_sync_def demo_scene_def subpath_string_def)

subsection \<open>Properties\<close>

text \<open>Goldnet claims a synchronizer exactly when it has a slot for it: \<open>_should_intercept\<close> and
  \<open>get_sync_slots\<close> agree on which properties are replicated, so a claimed one is never left with
  nothing to send nor an unclaimed one silently half replicated; and the slots are the replicated
  properties in configuration order, cut at \<open>MAX_SLOTS\<close>.\<close>

theorem claimed_iff_has_slots:
  assumes "0 < cap"
  shows "should_intercept sy = (get_sync_slots cap sy \<noteq> []) \<and>
     get_sync_slots cap sy =
       (case sy_config sy of None \<Rightarrow> []
        | Some cfg \<Rightarrow> take cap (filter (is_replicated_slot cfg) (get_properties cfg)))"
proof (cases "sy_config sy")
  case None
  then show ?thesis by (simp add: should_intercept_def get_sync_slots_def)
next
  case (Some cfg)
  then show ?thesis
    using assms get_sync_slots_eq [OF Some, of cap]
    by (auto simp: should_intercept_def filter_empty_conv list_ex_iff)
qed

lemma claimed_iff_has_slots_witness:
  "should_intercept demo_sync = (get_sync_slots 32 demo_sync \<noteq> []) \<and>
   get_sync_slots 32 demo_sync =
     (case sy_config demo_sync of None \<Rightarrow> []
      | Some cfg \<Rightarrow> take 32 (filter (is_replicated_slot cfg) (get_properties cfg)))"
  by (rule claimed_iff_has_slots) simp

text \<open>C31: the loop that reads each target's types once, reusing them while the target stays the same,
  codes every slot as it would with no cache: by its own declared type, hint and grid, in slot
  order, whatever the targets' order and whichever of them are gone.\<close>

theorem coding_is_per_slot:
  assumes "i < min (length (get_sync_slots cap sy)) (length plan)"
  shows "kinds (make_slot_coding cap S E sy plan) ! i =
       slot_kind (declared_type S (plan ! i)) (quant_at (read_quant cap E sy) i)
         (slot_grid E (leaf_meta sy ''gn_grid'') (get_sync_slots cap sy ! i)) \<and>
     grids (make_slot_coding cap S E sy plan) ! i =
       slot_grid E (leaf_meta sy ''gn_grid'') (get_sync_slots cap sy ! i) \<and>
     quant (make_slot_coding cap S E sy plan) ! i = quant_at (read_quant cap E sy) i"
  using assms by (simp add: make_slot_coding_uncached Let_def slot_items_def coded_def)

lemma coding_is_per_slot_witness:
  "kinds (make_slot_coding 32 (demo_scene 7 T_INT T_BOOL) demo_engine demo_sync
      (cache_slot_plan 32 (demo_scene 7 T_INT T_BOOL) demo_sync)) ! 1 = TAG_BOOL"
  using coding_is_per_slot [of 1 32 demo_sync "cache_slot_plan 32 (demo_scene 7 T_INT T_BOOL) demo_sync"
      "demo_scene 7 T_INT T_BOOL" demo_engine]
  by (simp add: demo_slots demo_plan declared_type_def) (simp add: demo_scene_def slot_kind_def)

text \<open>The two ends make the same coding, check byte included, from their own scenes: their
  ObjectIDs, their targets' identity and what else those declare do not matter, only that each slot's
  property is declared with one type at both.\<close>

theorem both_ends_same_coding:
  assumes "sy_config sy = sy_config sy'" "sy_meta sy = sy_meta sy'"
    and "map (declared_type S) plan = map (declared_type S') plan'"
  shows "make_slot_coding cap S E sy plan = make_slot_coding cap S' E sy' plan'"
  using assms by (rule both_ends_coding)

lemma both_ends_same_coding_witness:
  "make_slot_coding 32 (demo_scene 7 T_INT T_BOOL) demo_engine demo_sync
     (cache_slot_plan 32 (demo_scene 7 T_INT T_BOOL) demo_sync) =
   make_slot_coding 32 (demo_scene 9 T_INT T_BOOL) demo_engine (demo_sync\<lparr>sy_root := Some 9\<rparr>)
     [(9, demo_prop ''a''), (9, demo_prop ''b'')]"
  by (rule both_ends_same_coding)
    (simp_all add: demo_plan declared_type_def, simp_all add: demo_scene_def demo_prop_def demo_sync_def)

text \<open>C32: when a slot comes back as its declared type. A value of the property's declared type, written with the
  kind chosen for the type, hint and grid and read back at the other end, is read whole and is of that
  type exactly when the type is one with kinds of its own (an int, bool, float or vector, whatever the
  hint) or the hint is none of the angle and half ones. So those four hints on a string or any other type
  give the client's property a value of another type, and no other hint or grid does.\<close>

theorem declared_type_kept:
  assumes "wire_ok W" "angle_ok W" "get_type v = type" "base_agrees W E (slot_kind type q grid) grid sb cb"
    and "type \<notin> {T_INT, T_BOOL, T_FLOAT, T_VECTOR3} \<and> q \<notin> {TAG_ANGLE16, TAG_ANGLE8, TAG_HALF, TAG_VEC3_HALF} \<Longrightarrow>
      opaque_ok E v"
  shows "\<exists>v'. get_slot W E (slot_kind type q grid) grid cb now
      (reader_of (put_slot W E (slot_kind type q grid) grid q v sb now @ bs)) = (v', reader_of bs) \<and>
    (get_type v' = type \<longleftrightarrow>
       type \<in> {T_INT, T_BOOL, T_FLOAT, T_VECTOR3} \<or> q \<notin> {TAG_ANGLE16, TAG_ANGLE8, TAG_HALF, TAG_VEC3_HALF})"
proof (cases "type \<in> {T_INT, T_BOOL, T_FLOAT, T_VECTOR3}")
  case True
  then have "slot_ok E (slot_kind type q grid) q v" "get_type (slot_view W E (slot_kind type q grid) grid q v) = type"
    by (auto simp: slot_kind_def plain_kind_ok view_type)
  with True show ?thesis using get_put_slot [OF assms(1,2) _ assms(4)] by metis
next
  case False
  then have k: "slot_kind type q grid = SK_TAGGED" by (cases type) (simp_all add: slot_kind_def)
  have tag: "gn_tag_for v q = (if q \<in> {TAG_ANGLE16, TAG_ANGLE8, TAG_HALF, TAG_VEC3_HALF} then q else TAG_OPAQUE)"
    using False assms(3) by (cases v) (auto simp: gn_tag_for_def)
  have ok: "slot_ok E SK_TAGGED q v"
    using assms(5) False by (auto simp: slot_ok_def value_ok_def payload_ok_def tag tag_opaque_def)
  have "get_type (value_view W E v q) = type \<longleftrightarrow> q \<notin> {TAG_ANGLE16, TAG_ANGLE8, TAG_HALF, TAG_VEC3_HALF}"
    using False assms(3) by (auto simp: value_view_def tag payload_view_def split: prod.split)
  then show ?thesis
    using get_put_slot [OF assms(1,2) ok assms(4) [unfolded k]] False unfolding k by (auto simp: slot_view_def)
qed

lemma declared_type_kept_witness:
  "(\<exists>v'. get_slot demo_wire demo_engine (slot_kind T_FLOAT TAG_HALF 0) 0 None 5
      (reader_of (put_slot demo_wire demo_engine (slot_kind T_FLOAT TAG_HALF 0) 0 TAG_HALF (VFloat 5) None 5 @ [9])) =
        (v', reader_of [9]) \<and> get_type v' = T_FLOAT) \<and>
   (\<exists>v'. get_slot demo_wire demo_engine (slot_kind T_STRING TAG_HALF 0) 0 None 5
      (reader_of (put_slot demo_wire demo_engine (slot_kind T_STRING TAG_HALF 0) 0 TAG_HALF (VString ''hi'') None 5 @ [9])) =
        (v', reader_of [9]) \<and> get_type v' \<noteq> T_STRING)"
  using declared_type_kept [OF demo_wire_ok demo_angle_ok, of "VFloat 5" T_FLOAT demo_engine TAG_HALF 0 None None 5 "[9]"]
    declared_type_kept [OF demo_wire_ok demo_angle_ok, of "VString ''hi''" T_STRING demo_engine TAG_HALF 0 None None 5 "[9]"]
  by (simp add: base_agrees_def)

text \<open>Where the property has no declared type the hint rules whatever the value is: a hint of
  \<open>half\<close> on a string sends it as a float, so a client is given a number for a text. (The comment on
  \<open>gn_tag_for\<close> says a hint that can't apply gives way to the value's type; only \<open>time_delta\<close>'s does.)\<close>

theorem hint_overrides_type:
  assumes "wire_ok W"
  shows "\<exists>x. gn_get_value W E (reader_of (gn_put_value W E (VString s) TAG_HALF now @ bs)) now =
     (VFloat x, reader_of bs)"
  using get_put_value [OF assms, of E "VString s" TAG_HALF now bs]
  by (simp add: value_ok_def payload_ok_def tag_opaque_def value_view_def payload_view_def gn_tag_for_def)

lemma hint_overrides_type_witness:
  "\<exists>x. gn_get_value demo_wire demo_engine
     (reader_of (gn_put_value demo_wire demo_engine (VString ''hi'') TAG_HALF 1 @ [2])) 1 = (VFloat x, reader_of [2])"
  by (rule hint_overrides_type [OF demo_wire_ok])

text \<open>Before it is folded to a byte, the coding's hash tells any two codings apart that differ in
  one byte of what is mixed (a slot's kind, or a byte of its grid), whatever came before and after.\<close>

theorem hash_tells_one_byte:
  "foldl fnv_mix h (xs @ b # ys) = foldl fnv_mix h (xs @ b' # ys) \<longleftrightarrow> b = b'"
proof -
  have "foldl fnv_mix h ys = foldl fnv_mix h' ys \<Longrightarrow> h = h'" for h h'
    by (induction ys arbitrary: h h') (auto dest: fnv_mix_inj)
  then show ?thesis by (auto dest: fnv_mix_inj2)
qed

text \<open>The folded one-byte check does not tell every two codings apart: a server whose two slots
  are a bool and an int and a client whose same slots are a float and a bool make codings of different
  kinds with the same check, so the client does not refuse the entity and misreads it.\<close>

theorem check_can_miss:
  "let server = make_slot_coding 32 (demo_scene 7 T_BOOL T_INT) demo_engine demo_sync
                  (cache_slot_plan 32 (demo_scene 7 T_BOOL T_INT) demo_sync);
       client = make_slot_coding 32 (demo_scene 7 T_FLOAT T_BOOL) demo_engine demo_sync
                  (cache_slot_plan 32 (demo_scene 7 T_FLOAT T_BOOL) demo_sync)
   in check server = check client \<and> kinds server = [TAG_BOOL, SK_INT_STEP] \<and> kinds client = [TAG_FLOAT, TAG_BOOL]"
proof -
  have meta: "leaf_meta demo_sync k = []" for k
    by (simp add: leaf_meta_def demo_sync_def)
  have d: "declared_type (demo_scene 7 ta tb) (7, \<lparr>np_names = [], np_subs = [''a'']\<rparr>) = ta"
    "declared_type (demo_scene 7 ta tb) (7, \<lparr>np_names = [], np_subs = [''b'']\<rparr>) = tb" for ta tb
    by (simp_all add: declared_type_def demo_scene_def)
  have pos: "\<not> f64_pos 0" by (simp add: f64_pos_def f64_val_def fp_unpack_def)
  have "fold_check (mix_slot (mix_slot 2166136261 TAG_BOOL 0) SK_INT_STEP 0) =
      fold_check (mix_slot (mix_slot 2166136261 TAG_FLOAT 0) TAG_BOOL 0)"
    by (simp add: mix_slot_def fnv_mix_def fold_check_def)
  then show ?thesis
    by (simp add: make_slot_coding_uncached slot_items_def demo_slots demo_plan read_quant_def meta
        coded_def slot_grid_def dict_get_def quant_at_def d slot_kind_def pos Let_def upt_rec)
qed

end
