(* ===== verification/Args.thy ===== *)
theory Args
  imports Values
begin

section \<open>RPC arguments\<close>

text \<open>
  \<open>put_arg\<close> and \<open>get_arg\<close> of \<open>goldnet_multiplayer.cpp\<close>, the encoding of an RPC's arguments in a
  message and of a command's free-form fields: the snapshot's value tags where they carry the
  value exactly, and the binding's own tags elsewhere. Unlike a slot, an argument comes back bit
  for bit (\<open>get_put_arg\<close>): a \<open>double\<close> that an \<open>f32\<close> would change travels as its 64 bits.
\<close>

abbreviation ARG_NIL :: u8 where "ARG_NIL \<equiv> 64"
abbreviation ARG_STRING :: u8 where "ARG_STRING \<equiv> 65"
abbreviation ARG_STRING_NAME :: u8 where "ARG_STRING_NAME \<equiv> 66"
abbreviation ARG_BYTES :: u8 where "ARG_BYTES \<equiv> 67"
abbreviation ARG_DOUBLE :: u8 where "ARG_DOUBLE \<equiv> 68"

fun put_arg :: "wire \<Rightarrow> engine \<Rightarrow> variant \<Rightarrow> bytes" where
  "put_arg W E VNil = w_u8 W ARG_NIL"
| "put_arg W E (VString s) = w_u8 W ARG_STRING @ put_str W E s"
| "put_arg W E (VStringName s) = w_u8 W ARG_STRING_NAME @ put_str W E s"
| "put_arg W E (VBytes b) = w_u8 W ARG_BYTES @ w_uvarint W (of_nat (length b)) @ b"
| "put_arg W E (VFloat d) =
     (if f64_eq (widen (narrow d)) d then gn_put_value W E (VFloat d) QUANT_AUTO 0
      else w_u8 W ARG_DOUBLE @ w_u32 W (ucast d) @ w_u32 W (ucast (drop_bit 32 d)))"
| "put_arg W E v = gn_put_value W E v QUANT_AUTO 0"

definition get_arg :: "wire \<Rightarrow> engine \<Rightarrow> reader \<Rightarrow> variant \<times> reader" where
  "get_arg W E r =
     (let (t, r1) = r_u8 W r in
      if t = ARG_NIL then (VNil, r1)
      else if t = ARG_STRING then (let (s, r2) = get_str W E r1 in (VString s, r2))
      else if t = ARG_STRING_NAME then (let (s, r2) = get_str W E r1 in (VStringName s, r2))
      else if t = ARG_BYTES then
        (let (n, r2) = r_uvarint W r1; (p, r3) = r_data W (unat n) r2
         in (VBytes (case p of Some b \<Rightarrow> b | None \<Rightarrow> []), r3))
      else if t = ARG_DOUBLE then
        (let (lo, r2) = r_u32 W r1; (hi, r3) = r_u32 W r2
         in (VFloat (ucast lo OR push_bit 32 (ucast hi)), r3))
      else gn_get_tagged W E t r1 0)"

subsection \<open>Reading an argument back\<close>

lemma join_halves: "ucast (ucast d :: u32) OR push_bit 32 (ucast (ucast (drop_bit 32 d) :: u32)) = (d :: u64)"
  by (rule bit_word_eqI) (auto simp: bit_simps)

lemma zero_through_float: "widen (narrow 0) = 0" "widen (narrow 0x8000000000000000) = 0x8000000000000000"
  by (simp_all add: widen_def narrow_def f64_of_def f32_of_def f32_val_def f64_val_def fp_unpack_def
      fp_round_rat_def fp_sign_bit_def Let_def)

text \<open>\<open>(double)(float)d == d\<close> holds only where the bits are equal too: the one pair of equal
  doubles with different bits is the two zeros, and a float keeps a zero's sign.\<close>

lemma f64_eq_through_float: "f64_eq (widen (narrow d)) d \<Longrightarrow> widen (narrow d) = d"
  by (auto simp: f64_eq_def f64_zero_def zero_through_float)

fun arg_ok :: "engine \<Rightarrow> variant \<Rightarrow> bool" where
  "arg_ok E (VString s) = str_ok E s"
| "arg_ok E (VStringName s) = str_ok E s"
| "arg_ok E (VBytes b) = (length b < 2 ^ 32)"
| "arg_ok E (VDict d) = opaque_ok E (VDict d)"
| "arg_ok E (VArray xs) = opaque_ok E (VArray xs)"
| "arg_ok E (VOther n b) = opaque_ok E (VOther n b)"
| "arg_ok E v = True"

lemmas arg_defs = get_arg_def gn_put_value_def gn_tag_for_def gn_put_payload_def gn_get_tagged_def

lemma get_put_arg [wire_simps]:
  assumes "wire_ok W" "engine_ok E" "arg_ok E v"
  shows "get_arg W E (reader_of (put_arg W E v @ bs)) = (v, reader_of bs)"
proof (cases v)
  case (VFloat d)
  then show ?thesis
    using assms f64_eq_through_float [of d]
    by (auto simp: arg_defs wire_simps join_halves)
next
  case (VBytes b)
  then show ?thesis
    using assms by (simp add: get_arg_def wire_simps unat_of_nat_u32)
next
  case (VString s)
  then show ?thesis using assms by (simp add: get_arg_def wire_simps)
next
  case (VStringName s)
  then show ?thesis using assms by (simp add: get_arg_def wire_simps)
next
  case (VBool b)
  then show ?thesis using assms by (simp add: arg_defs wire_simps)
qed (use assms in \<open>simp_all add: arg_defs wire_simps Let_def opaque_ok_def unat_of_nat_u32\<close>)

interpretation arg: codec "wire_ok W \<and> engine_ok E" "put_arg W E" "get_arg W E" "\<lambda>v. v" "arg_ok E"
  for W E
  by unfold_locales (simp add: get_put_arg)

text \<open>A counted list of arguments: \<open>put_uvarint(n)\<close> and each argument, read by a loop that stops
  at the first failure.\<close>

definition put_args :: "wire \<Rightarrow> engine \<Rightarrow> variant list \<Rightarrow> bytes" where
  "put_args W E args = w_uvarint W (of_nat (length args)) @ concat (map (put_arg W E) args)"

definition get_args :: "wire \<Rightarrow> engine \<Rightarrow> reader \<Rightarrow> variant list \<times> reader" where
  "get_args W E r = (let (argc, r1) = r_uvarint W r in get_many (get_arg W E) (unat argc) r1)"

definition args_ok :: "engine \<Rightarrow> variant list \<Rightarrow> bool" where
  "args_ok E args = (list_all (arg_ok E) args \<and> length args < 2 ^ 32)"

lemma get_put_args [wire_simps]:
  "wire_ok W \<Longrightarrow> engine_ok E \<Longrightarrow> args_ok E args \<Longrightarrow>
     get_args W E (reader_of (put_args W E args @ bs)) = (args, reader_of bs)"
  using arg.many_reads_back [of W E args bs]
  by (simp add: get_args_def put_args_def args_ok_def wire_simps unat_of_nat_u32)

subsection \<open>Properties\<close>

text \<open>C7: a call's arguments arrive bit for bit: a counted list of any arguments (nil, strings,
  names, bytes, every double with its NaN payload and zero sign, and what the engine's serialisation
  restores) reads back as the same list, and the reader stands at what follows.\<close>

theorem call_arguments_exact:
  assumes "wire_ok W" "engine_ok E" "args_ok E args"
  shows "get_args W E (reader_of (put_args W E args @ bs)) = (args, reader_of bs)"
  using assms by (rule get_put_args)

lemma call_arguments_exact_witness:
  "get_args demo_wire demo_engine (reader_of (put_args demo_wire demo_engine
     [VNil, VFloat 0x3FB999999999999A, VFloat 0x7FF8000000000001, VString ''hi'', VBytes [1, 2], VInt 7,
      VOther 9 [3]] @ [5])) =
     ([VNil, VFloat 0x3FB999999999999A, VFloat 0x7FF8000000000001, VString ''hi'', VBytes [1, 2], VInt 7,
      VOther 9 [3]], reader_of [5])"
  by (rule call_arguments_exact [OF demo_wire_ok demo_engine_ok])
    (simp add: args_ok_def demo_str_ok demo_opaque_ok)

end
