(* ===== verification/Net_Ids.thy ===== *)
theory Net_Ids
  imports Prelude
begin

section \<open>NetIds: which node each net_id names\<close>

text \<open>
  \<open>goldnet_net_ids.h\<close>: the two hash maps of the class and its next id, one definition per method.
  The lemmas show that the two maps stay each other's inverse under every operation, that a server
  never hands out an id twice in a session, and what a client's end of session keeps. The id counter
  is the class's \<open>uint32_t\<close>, so freshness is stated while it has not wrapped.
\<close>

record id_entry =
  e_obj :: objid
  e_learned :: bool

record net_ids =
  by_id :: "(net_id, id_entry) hash_map"
  by_obj :: "(objid, net_id) hash_map"
  next_id :: net_id

definition net_ids0 :: net_ids where
  "net_ids0 = \<lparr>by_id = [], by_obj = [], next_id = 1\<rparr>"

subsection \<open>The operations\<close>

definition ids_put :: "net_id \<Rightarrow> objid \<Rightarrow> bool \<Rightarrow> net_ids \<Rightarrow> net_ids" where
  "ids_put i obj learned s =
     s\<lparr>by_id := hm_put i \<lparr>e_obj = obj, e_learned = learned\<rparr> (by_id s),
       by_obj := hm_put obj i (by_obj s)\<rparr>"

definition ids_id :: "net_ids \<Rightarrow> objid \<Rightarrow> net_id" where
  "ids_id s obj = (case hm_get (by_obj s) obj of Some i \<Rightarrow> i | None \<Rightarrow> 0)"

definition ids_object :: "net_ids \<Rightarrow> net_id \<Rightarrow> objid" where
  "ids_object s i = (case hm_get (by_id s) i of Some e \<Rightarrow> e_obj e | None \<Rightarrow> 0)"

definition ids_drop :: "net_id \<Rightarrow> net_ids \<Rightarrow> net_ids" where
  "ids_drop i s =
     (case hm_get (by_id s) i of
        Some e \<Rightarrow> s\<lparr>by_obj := hm_erase (e_obj e) (by_obj s), by_id := hm_erase i (by_id s)\<rparr>
      | None \<Rightarrow> s)"

definition ids_release :: "objid \<Rightarrow> net_ids \<Rightarrow> net_id \<times> net_ids" where
  "ids_release obj s = (let i = ids_id s obj in (i, ids_drop i s))"

definition ids_assign :: "objid \<Rightarrow> net_ids \<Rightarrow> net_id \<times> net_ids" where
  "ids_assign obj s =
     (case hm_get (by_obj s) obj of
        Some i \<Rightarrow> (i, s)
      | None \<Rightarrow> (let i = next_id s in (i, ids_put i obj False (s\<lparr>next_id := next_id s + 1\<rparr>))))"

definition ids_bind :: "net_id \<Rightarrow> objid \<Rightarrow> net_ids \<Rightarrow> net_ids" where
  "ids_bind i obj s = ids_put i obj True (snd (ids_release obj (ids_drop i s)))"

definition learned_ids :: "net_ids \<Rightarrow> net_id list" where
  "learned_ids s = map fst (filter (\<lambda>(i, e). e_learned e) (by_id s))"

definition ids_forget_learned :: "net_ids \<Rightarrow> net_ids" where
  "ids_forget_learned s = fold ids_drop (learned_ids s) s"

subsection \<open>Its operations as events\<close>

datatype ids_op =
    Assign objid
  | Bind net_id objid
  | Release objid
  | Drop_Id net_id
  | Forget_Learned

fun ids_step :: "net_ids \<Rightarrow> ids_op \<Rightarrow> net_ids" where
  "ids_step s (Assign obj) = snd (ids_assign obj s)"
| "ids_step s (Bind i obj) = ids_bind i obj s"
| "ids_step s (Release obj) = snd (ids_release obj s)"
| "ids_step s (Drop_Id i) = ids_drop i s"
| "ids_step s Forget_Learned = ids_forget_learned s"

text \<open>What an \<open>Assign\<close> relies on: the next id names nothing yet. A server never binds, so there it
  follows from the counter (\<open>server_ids\<close>); the other operations rely on nothing.\<close>

fun ids_op_ok :: "net_ids \<Rightarrow> ids_op \<Rightarrow> bool" where
  "ids_op_ok s (Assign obj) = (hm_get (by_obj s) obj \<noteq> None \<or> hm_get (by_id s) (next_id s) = None)"
| "ids_op_ok s _ = True"

subsection \<open>The two maps are inverse\<close>

definition ids_inv :: "net_ids \<Rightarrow> bool" where
  "ids_inv s =
     (hm_wf (by_id s) \<and> hm_wf (by_obj s) \<and>
      (\<forall>i obj. hm_get (by_obj s) obj = Some i \<longleftrightarrow>
                (\<exists>e. hm_get (by_id s) i = Some e \<and> e_obj e = obj)))"

lemma ids_inv_wf: "ids_inv s \<Longrightarrow> hm_wf (by_id s)" "ids_inv s \<Longrightarrow> hm_wf (by_obj s)"
  by (simp_all add: ids_inv_def)

lemma ids_inv_iff:
  "ids_inv s \<Longrightarrow> hm_get (by_obj s) obj = Some i \<longleftrightarrow>
     (\<exists>e. hm_get (by_id s) i = Some e \<and> e_obj e = obj)"
  by (simp add: ids_inv_def)

lemma ids_inv_fwd: "ids_inv s \<Longrightarrow> hm_get (by_id s) i = Some e \<Longrightarrow> hm_get (by_obj s) (e_obj e) = Some i"
  by (simp add: ids_inv_iff)

lemma ids_inv_inj:
  "ids_inv s \<Longrightarrow> hm_get (by_id s) i = Some e \<Longrightarrow> hm_get (by_id s) j = Some d \<Longrightarrow> e_obj e = e_obj d \<Longrightarrow> i = j"
  using ids_inv_fwd [of s i e] ids_inv_fwd [of s j d] by simp

lemma ids_inv0: "ids_inv net_ids0"
  by (simp add: ids_inv_def net_ids0_def)

lemma ids_drop_by_id: "hm_get (by_id (ids_drop i s)) j = (if j = i then None else hm_get (by_id s) j)"
  by (simp add: ids_drop_def hm_get_erase split: option.splits)

lemma ids_drop_next [simp]: "next_id (ids_drop i s) = next_id s"
  by (simp add: ids_drop_def split: option.splits)

lemma ids_drop_by_obj:
  "ids_inv s \<Longrightarrow> hm_get (by_obj (ids_drop i s)) obj =
     (if hm_get (by_obj s) obj = Some i then None else hm_get (by_obj s) obj)"
  by (auto simp: ids_drop_def hm_get_erase ids_inv_iff split: option.splits)

lemma ids_inv_drop: "ids_inv s \<Longrightarrow> ids_inv (ids_drop i s)"
  unfolding ids_inv_def [of "ids_drop i s"] ids_drop_by_id ids_drop_by_obj
  by (auto simp: ids_drop_def ids_inv_wf ids_inv_iff dest: ids_inv_inj split: option.splits)

lemma ids_release_eq: "ids_release obj s = (ids_id s obj, ids_drop (ids_id s obj) s)"
  by (simp add: ids_release_def Let_def)

text \<open>\<open>release\<close> drops id 0 when the object has none: with 0 naming nothing that changes nothing.\<close>

lemma ids_release_by_obj:
  "ids_inv s \<Longrightarrow> hm_get (by_obj (ids_drop (ids_id s obj) s)) obj = None"
  by (simp add: ids_drop_by_obj ids_id_def split: option.splits)

lemma ids_inv_put:
  assumes "ids_inv s" "hm_get (by_id s) i = None" "hm_get (by_obj s) obj = None"
  shows "ids_inv (ids_put i obj learned s)"
proof -
  have "\<And>j e. hm_get (by_id s) j = Some e \<Longrightarrow> e_obj e \<noteq> obj"
    using ids_inv_fwd [OF assms(1)] assms(3) by auto
  moreover have "\<And>ob. hm_get (by_obj s) ob \<noteq> Some i"
    using assms(1,2) by (simp add: ids_inv_iff)
  ultimately show ?thesis
    unfolding ids_inv_def [of "ids_put i obj learned s"]
    using assms(1) by (auto simp: ids_put_def hm_get_put ids_inv_wf ids_inv_iff)
qed

lemma ids_inv_next [simp]: "ids_inv (s\<lparr>next_id := n\<rparr>) = ids_inv s"
  by (simp add: ids_inv_def)

lemma ids_inv_assign:
  "ids_inv s \<Longrightarrow> ids_op_ok s (Assign obj) \<Longrightarrow> ids_inv (snd (ids_assign obj s))"
  by (auto simp: ids_assign_def Let_def intro!: ids_inv_put split: option.splits)

lemma ids_inv_bind: "ids_inv s \<Longrightarrow> ids_inv (ids_bind i obj s)"
  unfolding ids_bind_def ids_release_eq snd_conv
  by (intro ids_inv_put ids_inv_drop)
    (simp_all add: ids_drop_by_id ids_release_by_obj ids_inv_drop)

lemma ids_inv_drops: "ids_inv s \<Longrightarrow> ids_inv (fold ids_drop is s)"
  by (induction "is" arbitrary: s) (simp_all add: ids_inv_drop)

lemma ids_inv_step: "ids_inv s \<Longrightarrow> ids_op_ok s op \<Longrightarrow> ids_inv (ids_step s op)"
  by (cases op)
    (simp_all add: ids_inv_assign [simplified] ids_inv_bind ids_release_eq ids_inv_drop
      ids_forget_learned_def ids_inv_drops)

interpretation ids: machine ids_step ids_op_ok ids_inv
  by unfold_locales (rule ids_inv_step)

lemma ids_object_id:
  "ids_inv s \<Longrightarrow> hm_get (by_obj s) obj = Some i \<Longrightarrow> ids_object s i = obj"
  by (auto simp: ids_object_def ids_inv_iff)

lemma ids_id_object:
  "ids_inv s \<Longrightarrow> hm_get (by_id s) i = Some e \<Longrightarrow> ids_id s (e_obj e) = i"
  using ids_inv_iff [of s "e_obj e" i] by (simp add: ids_id_def)

subsection \<open>What binding and forgetting change\<close>

lemma ids_bind_by_id:
  assumes "ids_inv s"
  shows "hm_get (by_id (ids_bind i obj s)) j =
     (if j = i then Some \<lparr>e_obj = obj, e_learned = True\<rparr>
      else if j = ids_id (ids_drop i s) obj then None else hm_get (by_id s) j)"
  by (simp add: ids_bind_def ids_release_eq ids_put_def hm_get_put ids_drop_by_id)

lemma ids_bind_names:
  "ids_inv s \<Longrightarrow> ids_object (ids_bind i obj s) i = obj \<and> ids_id (ids_bind i obj s) obj = i"
  by (simp add: ids_bind_by_id ids_object_def) (simp add: ids_bind_def ids_put_def ids_id_def)

lemma drops_by_id:
  "hm_get (by_id (fold ids_drop is s)) j = (if j \<in> set is then None else hm_get (by_id s) j)"
  by (induction "is" arbitrary: s) (auto simp: ids_drop_by_id)

lemma learned_ids_iff:
  "hm_wf (by_id s) \<Longrightarrow> i \<in> set (learned_ids s) \<longleftrightarrow>
     (\<exists>e. hm_get (by_id s) i = Some e \<and> e_learned e)"
  by (force simp: learned_ids_def hm_get_iff_mem)

lemma forget_by_id:
  "ids_inv s \<Longrightarrow> hm_get (by_id (ids_forget_learned s)) i =
     (case hm_get (by_id s) i of
        Some e \<Rightarrow> if e_learned e then None else Some e
      | None \<Rightarrow> None)"
  by (auto simp: ids_forget_learned_def drops_by_id learned_ids_iff ids_inv_wf split: option.splits)

subsection \<open>A server's ids\<close>

text \<open>The ids a run newly hands out, in order: the counter's value at each \<open>Assign\<close> of an object
  that has none.\<close>

fun handed_out :: "net_ids \<Rightarrow> ids_op list \<Rightarrow> net_id list" where
  "handed_out s [] = []"
| "handed_out s (op # ops) =
     (case op of
        Assign obj \<Rightarrow> if hm_get (by_obj s) obj = None then [fst (ids_assign obj s)] else []
      | _ \<Rightarrow> []) @ handed_out (ids_step s op) ops"

fun server_op :: "ids_op \<Rightarrow> bool" where
  "server_op (Bind _ _) = False"
| "server_op _ = True"

definition server_ids :: "net_ids \<Rightarrow> bool" where
  "server_ids s =
     (ids_inv s \<and> (\<forall>i. hm_get (by_id s) i \<noteq> None \<longrightarrow> 0 < i \<and> i < next_id s) \<and> 0 < next_id s)"

lemma server_ids0: "server_ids net_ids0"
  using ids_inv0 by (simp add: server_ids_def net_ids0_def)

lemma server_assign_ok: "server_ids s \<Longrightarrow> ids_op_ok s (Assign obj)"
  by (auto simp: server_ids_def)

lemma u32_succ_less: "unat (n :: u32) + 1 < 2 ^ 32 \<Longrightarrow> unat (n + 1) = unat n + 1"
  by (simp add: unat_word_ariths take_bit_nat_eq_self)

lemma fold_drop_next [simp]: "next_id (fold ids_drop is s) = next_id s"
  by (induction "is" arbitrary: s) simp_all

lemma server_ids_drops: "server_ids s \<Longrightarrow> server_ids (fold ids_drop is s)"
  by (auto simp: server_ids_def ids_inv_drops drops_by_id split: if_splits)

lemma server_ids_drop: "server_ids s \<Longrightarrow> server_ids (ids_drop i s)"
  using server_ids_drops [of s "[i]"] by simp

lemma server_ids_assign:
  assumes "server_ids s" "unat (next_id s) + 1 < 2 ^ 32"
  shows "server_ids (snd (ids_assign obj s))"
proof -
  have "next_id s < next_id s + 1"
    using u32_succ_less [OF assms(2)] by (simp add: word_less_nat_alt)
  moreover from this have "i < next_id s + 1" if "i < next_id s" for i
    using that by (rule order.strict_trans [rotated])
  moreover have "0 < next_id s + 1"
    using assms(1) \<open>next_id s < next_id s + 1\<close> by (metis server_ids_def order.strict_trans)
  ultimately show ?thesis
    using assms(1) ids_inv_assign [OF _ server_assign_ok [OF assms(1)], of obj]
    by (auto simp: server_ids_def ids_assign_def Let_def ids_put_def hm_get_put split: option.splits)
qed

text \<open>Every id of \<open>handed_out\<close> is at or above the counter, and the list is strictly increasing.\<close>

lemma handed_out_sorted:
  assumes "server_ids s" "list_all server_op ops" "unat (next_id s) + length ops < 2 ^ 32"
  shows "sorted_wrt (<) (handed_out s ops) \<and> list_all (\<lambda>i. next_id s \<le> i) (handed_out s ops)"
  using assms
proof (induction ops arbitrary: s)
  case Nil
  then show ?case by simp
next
  case (Cons op ops)
  show ?case
  proof (cases "\<exists>obj. op = Assign obj \<and> hm_get (by_obj s) obj = None")
    case True
    then obtain obj where op: "op = Assign obj" and new: "hm_get (by_obj s) obj = None" by blast
    let ?s = "snd (ids_assign obj s)"
    have nx: "next_id ?s = next_id s + 1" and id: "fst (ids_assign obj s) = next_id s"
      using new by (simp_all add: ids_assign_def Let_def ids_put_def)
    have u: "unat (next_id s + 1) = unat (next_id s) + 1"
      using Cons.prems(3) by (intro u32_succ_less) simp
    have "server_ids ?s"
      using Cons.prems by (intro server_ids_assign) simp_all
    then have IH: "sorted_wrt (<) (handed_out ?s ops) \<and> list_all (\<lambda>i. next_id s + 1 \<le> i) (handed_out ?s ops)"
      using Cons.IH [of ?s] Cons.prems nx u by simp
    have lt: "next_id s < i" if "next_id s + 1 \<le> i" for i
      using that u by (simp add: word_less_nat_alt word_le_nat_alt)
    have gt: "next_id s < i" if "i \<in> set (handed_out ?s ops)" for i
      using IH that lt by (simp add: list_all_iff)
    have "list_all (\<lambda>i. next_id s \<le> i) (handed_out ?s ops)"
      using gt by (auto simp: list_all_iff intro: less_imp_le)
    then show ?thesis
      using IH gt by (simp add: op new id)
  next
    case False
    have "server_ids (ids_step s op)" and "next_id (ids_step s op) = next_id s"
      using Cons.prems False
      by (cases op; auto simp: ids_release_eq server_ids_drop server_ids_drops ids_forget_learned_def
          ids_assign_def split: option.splits)+
    moreover have "handed_out s (op # ops) = handed_out (ids_step s op) ops"
      using False by (cases op) auto
    ultimately show ?thesis
      using Cons.IH [of "ids_step s op"] Cons.prems by simp
  qed
qed

subsection \<open>Properties\<close>

text \<open>C5: under every sequence of operations in which an assignment finds the next id free (as a server's always
  does; \<open>unforgotten_id_collides\<close> shows what becomes of them otherwise), the two maps are each other's
  inverse: an object has an id exactly when that id names it, so two ids never name one object and two
  objects never share an id.\<close>

theorem ids_maps_inverse:
  assumes "run_ok ids_step ids_op_ok net_ids0 ops"
  shows "hm_get (by_obj (run ids_step net_ids0 ops)) obj = Some i \<longleftrightarrow>
     (\<exists>e. hm_get (by_id (run ids_step net_ids0 ops)) i = Some e \<and> e_obj e = obj)"
  by (rule ids_inv_iff [OF ids.inv_run [OF ids_inv0 assms]])

lemma ids_maps_inverse_witness:
  "hm_get (by_obj (run ids_step net_ids0 [Assign 70, Bind 9 71, Assign 72, Release 70, Bind 9 72])) 72
     = Some 9 \<longleftrightarrow>
   (\<exists>e. hm_get (by_id (run ids_step net_ids0 [Assign 70, Bind 9 71, Assign 72, Release 70, Bind 9 72])) 9
     = Some e \<and> e_obj e = 72)"
  by (rule ids_maps_inverse)
    (simp add: net_ids0_def ids_assign_def ids_bind_def ids_release_def ids_drop_def ids_id_def
      ids_put_def hm_get_def hm_put_def hm_erase_def)

text \<open>C23: a server counts its ids up from 1 and never hands one out twice in a session, released and
  dropped ones included: the ids it newly assigns over any history are strictly increasing (fewer
  than \<open>2 ^ 32 - 1\<close> operations, so the counter has not wrapped) and none of them is 0.\<close>

theorem server_never_reuses_id:
  assumes "list_all server_op ops" and "length ops < 2 ^ 32 - 1"
  shows "sorted_wrt (<) (handed_out net_ids0 ops) \<and> 0 \<notin> set (handed_out net_ids0 ops)"
  using handed_out_sorted [OF server_ids0 assms(1)] assms(2)
  by (auto simp: net_ids0_def list_all_iff)

lemma server_never_reuses_id_witness:
  "sorted_wrt (<) (handed_out net_ids0 [Assign 5, Release 5, Assign 6, Drop_Id 2, Assign 5]) \<and>
   0 \<notin> set (handed_out net_ids0 [Assign 5, Release 5, Assign 6, Drop_Id 2, Assign 5])"
  by (rule server_never_reuses_id) simp_all

text \<open>After a bind the id names the object and the object has that id; every other id keeps what
  it named, but for the one the object had before, which names nothing.\<close>

theorem bind_replaces_exactly:
  assumes "ids_inv s" and "hm_get (by_id s) 0 = None"
  shows "ids_object (ids_bind i obj s) i = obj \<and> ids_id (ids_bind i obj s) obj = i \<and>
     (\<forall>j. j = i \<or> hm_get (by_id (ids_bind i obj s)) j =
        (case hm_get (by_id s) j of
           Some e \<Rightarrow> if e_obj e = obj then None else Some e
         | None \<Rightarrow> None))"
proof (intro conjI allI)
  fix j
  have "hm_get (by_id s) (ids_id (ids_drop i s) obj) = None" if "hm_get (by_obj (ids_drop i s)) obj = None"
    using that assms(2) by (simp add: ids_id_def)
  moreover have "hm_get (by_id (ids_drop i s)) k = Some e \<Longrightarrow> e_obj e = obj \<Longrightarrow> ids_id (ids_drop i s) obj = k" for k e
    using ids_id_object [OF ids_inv_drop [OF assms(1)]] by blast
  moreover have "hm_get (by_obj (ids_drop i s)) obj = Some k \<Longrightarrow>
      \<exists>e. hm_get (by_id (ids_drop i s)) k = Some e \<and> e_obj e = obj" for k
    using ids_inv_iff [OF ids_inv_drop [OF assms(1)]] by blast
  ultimately show "j = i \<or> hm_get (by_id (ids_bind i obj s)) j =
      (case hm_get (by_id s) j of Some e \<Rightarrow> if e_obj e = obj then None else Some e | None \<Rightarrow> None)"
    unfolding ids_bind_by_id [OF assms(1)] ids_drop_by_id
    by (cases "hm_get (by_obj (ids_drop i s)) obj"; cases "hm_get (by_id s) j")
      (fastforce simp: ids_id_def ids_drop_by_id split: if_splits)+
qed (simp_all add: ids_bind_names assms(1))

lemma bind_replaces_exactly_witness:
  "ids_object (ids_bind 4 30 (run ids_step net_ids0 [Bind 4 31, Bind 5 30])) 4 = 30 \<and>
   ids_id (ids_bind 4 30 (run ids_step net_ids0 [Bind 4 31, Bind 5 30])) 30 = 4 \<and>
   (\<forall>j. j = 4 \<or> hm_get (by_id (ids_bind 4 30 (run ids_step net_ids0 [Bind 4 31, Bind 5 30]))) j =
        (case hm_get (by_id (run ids_step net_ids0 [Bind 4 31, Bind 5 30])) j of
           Some e \<Rightarrow> if e_obj e = 30 then None else Some e
         | None \<Rightarrow> None))"
  by (rule bind_replaces_exactly [OF ids.inv_run [OF ids_inv0]])
    (simp_all add: net_ids0_def ids_bind_def ids_release_def ids_drop_def ids_id_def
      ids_put_def hm_get_def hm_put_def hm_erase_def)

text \<open>A new session forgets exactly the ids a server's records taught this end: a host's own
  assignments stay, what it forgets names nothing and is named by nothing, and the counter does not
  go back.\<close>

theorem forget_learned_exact:
  assumes "ids_inv s"
  shows "ids_inv (ids_forget_learned s) \<and> next_id (ids_forget_learned s) = next_id s \<and>
     hm_get (by_id (ids_forget_learned s)) i =
       (case hm_get (by_id s) i of
          Some e \<Rightarrow> if e_learned e then None else Some e
        | None \<Rightarrow> None)"
  using assms by (simp add: forget_by_id) (simp add: ids_forget_learned_def ids_inv_drops)

lemma forget_learned_exact_witness:
  "ids_inv (ids_forget_learned (run ids_step net_ids0 [Assign 8, Bind 7 9])) \<and>
   next_id (ids_forget_learned (run ids_step net_ids0 [Assign 8, Bind 7 9])) =
     next_id (run ids_step net_ids0 [Assign 8, Bind 7 9]) \<and>
   hm_get (by_id (ids_forget_learned (run ids_step net_ids0 [Assign 8, Bind 7 9]))) 7 =
     (case hm_get (by_id (run ids_step net_ids0 [Assign 8, Bind 7 9])) 7 of
        Some e \<Rightarrow> if e_learned e then None else Some e
      | None \<Rightarrow> None)"
  by (rule forget_learned_exact [OF ids.inv_run [OF ids_inv0]])
    (simp_all add: net_ids0_def hm_get_def)

text \<open>C27: an end that learned ids as a client and then hosts without forgetting them hands out an id a
  server had given it: the first object it assigns shares id 1 with the object the old server named
  by it, and the two maps disagree from then on. (\<open>_set_multiplayer_peer\<close> swaps a client's peer for a
  hosting one this way: it ends the server session but forgets no learned id.)\<close>

theorem unforgotten_id_collides:
  assumes "a \<noteq> b"
  shows "let s = run ids_step net_ids0 [Bind 1 a, Assign b]
     in ids_id s a = 1 \<and> ids_id s b = 1 \<and> ids_object s 1 = b \<and> \<not> ids_inv s"
proof -
  let ?s = "run ids_step net_ids0 [Bind 1 a, Assign b]"
  have *: "by_obj ?s = [(a, 1), (b, 1)]" "hm_get (by_id ?s) 1 = Some \<lparr>e_obj = b, e_learned = False\<rparr>"
    using assms by (simp_all add: net_ids0_def ids_bind_def ids_release_def ids_drop_def ids_id_def
      ids_put_def ids_assign_def hm_get_def hm_put_def hm_erase_def)
  then have "\<not> ids_inv ?s"
    using ids_inv_iff [of ?s a 1] assms by (auto simp: hm_get_def)
  then show ?thesis
    using * assms by (simp add: Let_def ids_id_def ids_object_def hm_get_def)
qed

lemma unforgotten_id_collides_witness:
  "let s = run ids_step net_ids0 [Bind 1 41, Assign 42]
   in ids_id s 41 = 1 \<and> ids_id s 42 = 1 \<and> ids_object s 1 = 42 \<and> \<not> ids_inv s"
  by (rule unforgotten_id_collides) simp

end
