(* ===== verification/Rpc.thy ===== *)
theory Rpc
  imports Slot_Plan
begin

section \<open>A method's @rpc configuration, and an RPC's size\<close>

text \<open>
  \<open>rpc_method_config\<close>, \<open>_rpc_is_unreliable\<close> and \<open>rpc_wire_bytes\<close> of \<open>goldnet_multiplayer.cpp\<close>, and
  the permission rule both delivery paths share. An object is what these ask of it: its node-level
  configuration (\<open>None\<close> when it is no node) and its script's (\<open>None\<close> without a script), each a
  \<open>Variant\<close>. The engine's enumerations are their numbers.
\<close>

record rpc_object =
  ro_id :: objid
  ro_node_cfg :: "variant option"
  ro_script_cfg :: "variant option"
  ro_authority :: peer

abbreviation RPC_MODE_DISABLED :: u32 where "RPC_MODE_DISABLED \<equiv> 0"
abbreviation RPC_MODE_ANY_PEER :: u32 where "RPC_MODE_ANY_PEER \<equiv> 1"
abbreviation RPC_MODE_AUTHORITY :: u32 where "RPC_MODE_AUTHORITY \<equiv> 2"
abbreviation MODE_UNRELIABLE :: u32 where "MODE_UNRELIABLE \<equiv> 0"
abbreviation MODE_UNRELIABLE_ORDERED :: u32 where "MODE_UNRELIABLE_ORDERED \<equiv> 1"
abbreviation MODE_RELIABLE :: u32 where "MODE_RELIABLE \<equiv> 2"

definition as_dict :: "variant \<Rightarrow> (variant \<times> variant) list" where
  "as_dict v = (case v of VDict d \<Rightarrow> d | _ \<Rightarrow> [])"

definition has_method :: "variant option \<Rightarrow> string \<Rightarrow> bool" where
  "has_method cfg m = (case cfg of Some (VDict d) \<Rightarrow> dict_get d m \<noteq> None | _ \<Rightarrow> False)"

definition rpc_method_config :: "rpc_object \<Rightarrow> string \<Rightarrow> (variant \<times> variant) list option" where
  "rpc_method_config ob m =
     (let cfg = (if has_method (ro_node_cfg ob) m then ro_node_cfg ob else ro_script_cfg ob)
      in if \<not> has_method cfg m then None
         else case cfg of
                Some (VDict d) \<Rightarrow> map_option as_dict (dict_get d m)
              | _ \<Rightarrow> None)"

text \<open>\<open>(int)cfg.get(key, dflt)\<close>.\<close>

definition cfg_int :: "engine \<Rightarrow> (variant \<times> variant) list \<Rightarrow> string \<Rightarrow> u32 \<Rightarrow> u32" where
  "cfg_int E cfg key dflt = (case dict_get cfg key of Some v \<Rightarrow> ucast (to_int E v) | None \<Rightarrow> dflt)"

definition cfg_bool :: "engine \<Rightarrow> (variant \<times> variant) list \<Rightarrow> string \<Rightarrow> bool \<Rightarrow> bool" where
  "cfg_bool E cfg key dflt = (case dict_get cfg key of Some v \<Rightarrow> to_bool E v | None \<Rightarrow> dflt)"

text \<open>Whether a call from a peer may be made: the rule \<open>_deliver_command\<close> and \<open>_deliver_message\<close>
  apply after the configuration is found.\<close>

definition rpc_permitted :: "engine \<Rightarrow> (variant \<times> variant) list \<Rightarrow> peer \<Rightarrow> peer \<Rightarrow> bool" where
  "rpc_permitted E cfg authority peer =
     (let mode = cfg_int E cfg ''rpc_mode'' RPC_MODE_AUTHORITY
      in \<not> (mode = RPC_MODE_DISABLED \<or> (mode = RPC_MODE_AUTHORITY \<and> authority \<noteq> peer)))"

subsection \<open>Reliability, memoised\<close>

type_synonym unreliable_cache = "(objid, (string, bool) hash_map) hash_map"

definition rpc_is_unreliable_now :: "engine \<Rightarrow> rpc_object \<Rightarrow> string \<Rightarrow> bool" where
  "rpc_is_unreliable_now E ob m =
     (case rpc_method_config ob m of
        None \<Rightarrow> False
      | Some mc \<Rightarrow>
          (let tm = cfg_int E mc ''transfer_mode'' MODE_RELIABLE
           in tm = MODE_UNRELIABLE \<or> tm = MODE_UNRELIABLE_ORDERED))"

definition cache_find :: "(objid, (string, 'v) hash_map) hash_map \<Rightarrow> objid \<Rightarrow> string \<Rightarrow> 'v option" where
  "cache_find c oid m = (case hm_get c oid of Some ms \<Rightarrow> hm_get ms m | None \<Rightarrow> None)"

definition cache_store ::
  "(objid, (string, 'v) hash_map) hash_map \<Rightarrow> objid \<Rightarrow> string \<Rightarrow> 'v \<Rightarrow> (objid, (string, 'v) hash_map) hash_map" where
  "cache_store c oid m v =
     hm_put oid (hm_put m v (case hm_get c oid of Some ms \<Rightarrow> ms | None \<Rightarrow> [])) c"

lemma cache_find_store:
  "cache_find (cache_store c oid m v) oid' m' =
     (if oid' = oid \<and> m' = m then Some v else cache_find c oid' m')"
  by (auto simp: cache_find_def cache_store_def hm_get_put split: option.splits)

definition rpc_is_unreliable ::
  "engine \<Rightarrow> rpc_object \<Rightarrow> string \<Rightarrow> unreliable_cache \<Rightarrow> bool \<times> unreliable_cache" where
  "rpc_is_unreliable E ob m c =
     (case cache_find c (ro_id ob) m of
        Some b \<Rightarrow> (b, c)
      | None \<Rightarrow>
          (let b = rpc_is_unreliable_now E ob m in (b, cache_store c (ro_id ob) m b)))"

subsection \<open>Memoisation, once for every cache\<close>

text \<open>A cache keyed by object and method, filled on first use, holds only what computing afresh would
  give, as long as the objects do not change.\<close>

locale method_cache =
  fixes key :: "'o \<Rightarrow> objid"
    and fresh :: "'o \<Rightarrow> string \<Rightarrow> 'v"
    and ask :: "'o \<Rightarrow> string \<Rightarrow> (objid, (string, 'v) hash_map) hash_map \<Rightarrow> 'v \<times> (objid, (string, 'v) hash_map) hash_map"
  assumes ask_hit: "cache_find c (key ob) m = Some v \<Longrightarrow> ask ob m c = (v, c)"
    and ask_miss: "cache_find c (key ob) m = None \<Longrightarrow>
      fst (ask ob m c) = fresh ob m \<and>
      (\<forall>oid m'. cache_find (snd (ask ob m c)) oid m' =
         (if oid = key ob \<and> m' = m then Some (fresh ob m) else cache_find c oid m'))"
begin

definition sound :: "(objid \<Rightarrow> 'o) \<Rightarrow> (objid, (string, 'v) hash_map) hash_map \<Rightarrow> bool" where
  "sound obj c = (\<forall>oid m v. cache_find c oid m = Some v \<longrightarrow> v = fresh (obj oid) m)"

lemma sound_empty: "sound obj []"
  by (simp add: sound_def cache_find_def)

lemma ask_sound:
  "sound obj c \<Longrightarrow> obj (key ob) = ob \<Longrightarrow> fst (ask ob m c) = fresh ob m \<and> sound obj (snd (ask ob m c))"
  by (cases "cache_find c (key ob) m")
    (use ask_miss [of c ob m] in \<open>fastforce simp: sound_def ask_hit split: if_splits\<close>)+

fun answers :: "(objid, (string, 'v) hash_map) hash_map \<Rightarrow> ('o \<times> string) list \<Rightarrow> 'v list" where
  "answers c [] = []"
| "answers c ((ob, m) # qs) = fst (ask ob m c) # answers (snd (ask ob m c)) qs"

lemma answers_fresh:
  "sound obj c \<Longrightarrow> list_all (\<lambda>(ob, m). obj (key ob) = ob) qs \<Longrightarrow>
     answers c qs = map (\<lambda>(ob, m). fresh ob m) qs"
  by (induction qs arbitrary: c) (auto simp: ask_sound)

end

interpretation unreliable: method_cache ro_id "rpc_is_unreliable_now E" "rpc_is_unreliable E" for E
  by unfold_locales (auto simp: rpc_is_unreliable_def cache_find_store Let_def)

subsection \<open>An RPC's size\<close>

definition rpc_arg_bytes :: "engine \<Rightarrow> variant \<Rightarrow> int" where
  "rpc_arg_bytes E v =
     (case v of
        VNil \<Rightarrow> 1
      | VBool b \<Rightarrow> 1
      | VInt x \<Rightarrow>
          1 + (if - 128 \<le> sint x \<and> sint x \<le> 127 then 1
               else if - 32768 \<le> sint x \<and> sint x \<le> 32767 then 2
               else if - (2 ^ 31) \<le> sint x \<and> sint x \<le> 2 ^ 31 - 1 then 4 else 8)
      | VBytes b \<Rightarrow> 8 + int (length b)
      | _ \<Rightarrow> int (length (var_to_bytes E v)))"

definition rpc_wire_bytes :: "engine \<Rightarrow> variant list \<Rightarrow> int" where
  "rpc_wire_bytes E args = foldl (\<lambda>n v. n + rpc_arg_bytes E v) 4 args"

subsection \<open>Properties\<close>

text \<open>The reliability cache changes no answer: over any sequence of asks about objects whose
  configuration stays the same, each gets what reading the configuration afresh gives.\<close>

theorem unreliable_cache_transparent:
  assumes "list_all (\<lambda>(ob, m). obj (ro_id ob) = ob) qs"
  shows "fst (foldl (\<lambda>(out, c) (ob, m). let (b, c1) = rpc_is_unreliable E ob m c in (out @ [b], c1)) ([], []) qs) =
     map (\<lambda>(ob, m). rpc_is_unreliable_now E ob m) qs"
proof -
  have "fst (foldl (\<lambda>(out, c) (ob, m). let (b, c1) = rpc_is_unreliable E ob m c in (out @ [b], c1)) (out, c) qs) =
      out @ unreliable.answers E c qs" for out c
    by (induction qs arbitrary: out c) (auto simp: Let_def split_beta)
  then show ?thesis
    using unreliable.answers_fresh [OF unreliable.sound_empty assms] by simp
qed

lemma unreliable_cache_transparent_witness:
  "fst (foldl (\<lambda>(out, c) (ob, m). let (b, c1) = rpc_is_unreliable demo_engine ob m c in (out @ [b], c1)) ([], [])
     [(\<lparr>ro_id = 3, ro_node_cfg = None, ro_script_cfg = None, ro_authority = 1\<rparr>, ''f''),
      (\<lparr>ro_id = 3, ro_node_cfg = None, ro_script_cfg = None, ro_authority = 1\<rparr>, ''f'')]) = [False, False]"
  using unreliable_cache_transparent
    [of "\<lambda>_. \<lparr>ro_id = 3, ro_node_cfg = None, ro_script_cfg = None, ro_authority = 1\<rparr>"
      "[(\<lparr>ro_id = 3, ro_node_cfg = None, ro_script_cfg = None, ro_authority = 1\<rparr>, ''f''),
        (\<lparr>ro_id = 3, ro_node_cfg = None, ro_script_cfg = None, ro_authority = 1\<rparr>, ''f'')]" demo_engine]
  by (simp add: rpc_is_unreliable_now_def rpc_method_config_def has_method_def)

end
