(* ===== verification/Commands.thy ===== *)
theory Commands
  imports Rpc Args
begin

section \<open>Command streams\<close>

text \<open>
  A method a node lists in its \<open>gn_commands\<close> meta is a command stream: a client's call of it rides the
  uplink as a goldnet \<open>Command\<close>, a list of fields typed by the method's signature, and the server calls
  the method the stream's id stands for. From \<open>goldnet_multiplayer.cpp\<close>: \<open>command_arg_form\<close>,
  \<open>command_signature\<close>, \<open>command_field_kind\<close>, \<open>make_command_signature\<close>, \<open>_command_stream\<close>,
  \<open>command_from_args\<close>, \<open>_scan_command_targets\<close>, \<open>_command_target\<close> and \<open>_deliver_command\<close>.

  Godot's \<open>String::hash\<close> is the argument \<open>hash\<close>, \<open>MAX_COMMAND_FIELDS\<close> the argument \<open>cap\<close>, and what the core
  does to a field between the two ends is \<open>carry\<close>, with \<open>carry_ok\<close>: a field arrives with what its kind
  carries. A method call the binding makes is a \<open>call\<close>: the object, the method, its arguments and the
  peer \<open>get_remote_sender_id()\<close> answers meanwhile.
\<close>

subsection \<open>Forms, kinds and signatures\<close>

abbreviation TYPE_NIL :: u32 where "TYPE_NIL \<equiv> 0"
abbreviation TYPE_BOOL :: u32 where "TYPE_BOOL \<equiv> 1"
abbreviation TYPE_INT :: u32 where "TYPE_INT \<equiv> 2"
abbreviation TYPE_FLOAT :: u32 where "TYPE_FLOAT \<equiv> 3"
abbreviation TYPE_PACKED_BYTE_ARRAY :: u32 where "TYPE_PACKED_BYTE_ARRAY \<equiv> 29"

datatype cmd_form = CMD_ARG_INT | CMD_ARG_FLOAT | CMD_ARG_BOOL | CMD_ARG_BYTES | CMD_ARG_VARIANT

datatype field_kind = FIELD_INT | FIELD_FLOAT | FIELD_BOOL | FIELD_BYTES

record field =
  fd_i :: u64
  fd_f :: f32
  fd_bytes :: bytes

definition field0 :: field where
  "field0 = \<lparr>fd_i = 0, fd_f = 0, fd_bytes = []\<rparr>"

record command_node = rpc_object +
  cn_is_node :: bool
  cn_path :: string
  cn_meta :: "(string \<times> variant) list"
  cn_methods :: "(string \<times> (string \<times> u32) list) list"

record command_sig =
  cs_id :: u32
  cs_kinds :: "field_kind list"
  cs_forms :: "cmd_form list"
  cs_names :: "string list"
  cs_table :: bool

definition no_sig :: command_sig where
  "no_sig = \<lparr>cs_id = 0, cs_kinds = [], cs_forms = [], cs_names = [], cs_table = False\<rparr>"

definition command_arg_form :: "u32 \<Rightarrow> cmd_form" where
  "command_arg_form type =
     (if type = TYPE_INT then CMD_ARG_INT
      else if type = TYPE_FLOAT then CMD_ARG_FLOAT
      else if type = TYPE_BOOL then CMD_ARG_BOOL
      else if type = TYPE_PACKED_BYTE_ARRAY then CMD_ARG_BYTES
      else CMD_ARG_VARIANT)"

definition command_signature ::
  "engine \<Rightarrow> nat \<Rightarrow> command_node \<Rightarrow> string \<Rightarrow> (cmd_form list \<times> string list \<times> bool) option" where
  "command_signature E cap ob m =
     (let declared = (case (cn_is_node ob, map_of (cn_meta ob) ''gn_command_fields'') of
                        (True, Some mv) \<Rightarrow> as_dict mv | _ \<Rightarrow> [])
      in case dict_get declared m of
           Some tv \<Rightarrow>
             (let table = as_dict tv
              in if cap < length table then None
                 else Some (map (\<lambda>(k, opts). command_arg_form (cfg_int E (as_dict opts) ''type'' TYPE_NIL)) table,
                            map (\<lambda>(k, opts). to_str E k) table, True))
         | None \<Rightarrow>
             (case map_of (cn_methods ob) m of
                None \<Rightarrow> None
              | Some args \<Rightarrow>
                  if cap < length args then None
                  else Some (map (command_arg_form \<circ> snd) args, map fst args, False)))"

fun command_field_kind :: "cmd_form \<Rightarrow> field_kind" where
  "command_field_kind CMD_ARG_INT = FIELD_INT"
| "command_field_kind CMD_ARG_FLOAT = FIELD_FLOAT"
| "command_field_kind CMD_ARG_BOOL = FIELD_BOOL"
| "command_field_kind _ = FIELD_BYTES"

fun form_letter :: "cmd_form \<Rightarrow> char" where
  "form_letter CMD_ARG_INT = CHR ''a''"
| "form_letter CMD_ARG_FLOAT = CHR ''b''"
| "form_letter CMD_ARG_BOOL = CHR ''c''"
| "form_letter CMD_ARG_BYTES = CHR ''d''"
| "form_letter CMD_ARG_VARIANT = CHR ''e''"

definition sig_string :: "command_node \<Rightarrow> string \<Rightarrow> cmd_form list \<Rightarrow> string list \<Rightarrow> bool \<Rightarrow> string" where
  "sig_string ob m forms names table =
     cn_path ob @ ''::'' @ m @ (if table then ''{'' else ''('') @
     concat (map (\<lambda>(n, f). n @ '':'' @ [form_letter f] @ '','') (zip names forms))"

definition make_command_signature ::
  "engine \<Rightarrow> nat \<Rightarrow> (string \<Rightarrow> u32) \<Rightarrow> command_node \<Rightarrow> string \<Rightarrow> command_sig" where
  "make_command_signature E cap hash ob m =
     (case command_signature E cap ob m of
        None \<Rightarrow> no_sig
      | Some (forms, names, table) \<Rightarrow>
          (let h = hash (sig_string ob m forms names table)
           in \<lparr>cs_id = (if h = 0 then 1 else h), cs_kinds = map command_field_kind forms,
               cs_forms = forms, cs_names = names, cs_table = table\<rparr>))"

subsection \<open>The client's cache of signatures\<close>

definition command_stream_now ::
  "engine \<Rightarrow> nat \<Rightarrow> (string \<Rightarrow> u32) \<Rightarrow> command_node \<Rightarrow> string \<Rightarrow> command_sig" where
  "command_stream_now E cap hash ob m =
     (case (cn_is_node ob, map_of (cn_meta ob) ''gn_commands'') of
        (True, Some (VArray ms)) \<Rightarrow>
          if array_has ms m \<and> rpc_method_config (rpc_object.truncate ob) m \<noteq> None
          then make_command_signature E cap hash ob m else no_sig
      | _ \<Rightarrow> no_sig)"

type_synonym sig_cache = "(objid, (string, command_sig) hash_map) hash_map"

text \<open>\<open>None\<close> where \<open>_command_stream\<close> gives null: an ordinary RPC.\<close>

definition ask_stream ::
  "engine \<Rightarrow> nat \<Rightarrow> (string \<Rightarrow> u32) \<Rightarrow> command_node \<Rightarrow> string \<Rightarrow> sig_cache \<Rightarrow> command_sig \<times> sig_cache" where
  "ask_stream E cap hash ob m c =
     (case cache_find c (ro_id ob) m of
        Some sig \<Rightarrow> (sig, c)
      | None \<Rightarrow>
          (let sig = command_stream_now E cap hash ob m in (sig, cache_store c (ro_id ob) m sig)))"

definition command_stream ::
  "engine \<Rightarrow> nat \<Rightarrow> (string \<Rightarrow> u32) \<Rightarrow> command_node \<Rightarrow> string \<Rightarrow> sig_cache \<Rightarrow> command_sig option \<times> sig_cache" where
  "command_stream E cap hash ob m c =
     (let (sig, c1) = ask_stream E cap hash ob m c in (if cs_id sig \<noteq> 0 then Some sig else None, c1))"

interpretation streams: method_cache ro_id "command_stream_now E cap hash" "ask_stream E cap hash"
  for E cap hash
  by unfold_locales (auto simp: ask_stream_def cache_find_store Let_def)

subsection \<open>A call's arguments as fields\<close>

datatype cmd_error =
    Needs_One_Dictionary
  | Missing_Field string
  | Undeclared_Field
  | Wrong_Argument_Count
  | Wrong_Type nat variant_type

definition is_number :: "variant \<Rightarrow> bool" where
  "is_number v = (get_type v = T_INT \<or> get_type v = T_FLOAT \<or> get_type v = T_BOOL)"

fun arg_field :: "wire \<Rightarrow> engine \<Rightarrow> cmd_form \<Rightarrow> variant \<Rightarrow> field option" where
  "arg_field W E CMD_ARG_INT v =
     (if is_number v then Some (field0\<lparr>fd_i := to_int E v\<rparr>) else None)"
| "arg_field W E CMD_ARG_FLOAT v =
     (if is_number v then Some (field0\<lparr>fd_f := narrow (to_double E v)\<rparr>) else None)"
| "arg_field W E CMD_ARG_BOOL v =
     (if is_number v then Some (field0\<lparr>fd_i := (if to_bool E v then 1 else 0)\<rparr>) else None)"
| "arg_field W E CMD_ARG_BYTES v =
     (case v of VBytes b \<Rightarrow> Some (field0\<lparr>fd_bytes := b\<rparr>) | _ \<Rightarrow> None)"
| "arg_field W E CMD_ARG_VARIANT v = Some (field0\<lparr>fd_bytes := put_arg W E v\<rparr>)"

fun fields_from ::
  "wire \<Rightarrow> engine \<Rightarrow> nat \<Rightarrow> cmd_form list \<Rightarrow> variant list \<Rightarrow> cmd_error + field list" where
  "fields_from W E k (f # fs) (v # vs) =
     (case arg_field W E f v of
        None \<Rightarrow> Inl (Wrong_Type k (get_type v))
      | Some x \<Rightarrow>
          (case fields_from W E (Suc k) fs vs of Inl e \<Rightarrow> Inl e | Inr xs \<Rightarrow> Inr (x # xs)))"
| "fields_from W E k _ _ = Inr []"

fun table_args :: "(variant \<times> variant) list \<Rightarrow> string list \<Rightarrow> cmd_error + variant list" where
  "table_args d [] = Inr []"
| "table_args d (n # ns) =
     (case dict_get d n of
        None \<Rightarrow> Inl (Missing_Field n)
      | Some v \<Rightarrow> (case table_args d ns of Inl e \<Rightarrow> Inl e | Inr vs \<Rightarrow> Inr (v # vs)))"

definition command_from_args ::
  "wire \<Rightarrow> engine \<Rightarrow> command_sig \<Rightarrow> variant list \<Rightarrow> cmd_error + field list" where
  "command_from_args W E sig call_args =
     (if cs_table sig then
        (case call_args of
           [VDict d] \<Rightarrow>
             (case table_args d (cs_names sig) of
                Inl e \<Rightarrow> Inl e
              | Inr args \<Rightarrow>
                  if length d \<noteq> length (cs_names sig) then Inl Undeclared_Field
                  else fields_from W E 0 (cs_forms sig) args)
         | _ \<Rightarrow> Inl Needs_One_Dictionary)
      else if length call_args \<noteq> length (cs_forms sig) then Inl Wrong_Argument_Count
      else fields_from W E 0 (cs_forms sig) call_args)"

subsection \<open>The server's targets\<close>

datatype scene_tree = Tree command_node "scene_tree list"

record cmd_target =
  ct_object :: objid
  ct_method :: string
  ct_sig :: command_sig

type_synonym targets = "(u32, cmd_target) hash_map"

definition add_target ::
  "engine \<Rightarrow> nat \<Rightarrow> (string \<Rightarrow> u32) \<Rightarrow> command_node \<Rightarrow> string \<Rightarrow> targets \<Rightarrow> targets" where
  "add_target E cap hash n m ts =
     (let sig = make_command_signature E cap hash n m
      in if cs_id sig \<noteq> 0
         then hm_put (cs_id sig) \<lparr>ct_object = ro_id n, ct_method = m, ct_sig = sig\<rparr> ts else ts)"

definition gn_commands :: "engine \<Rightarrow> command_node \<Rightarrow> string list" where
  "gn_commands E n =
     (case map_of (cn_meta n) ''gn_commands'' of Some (VArray ms) \<Rightarrow> map (to_str E) ms | _ \<Rightarrow> [])"

fun scan_command_targets :: "engine \<Rightarrow> nat \<Rightarrow> (string \<Rightarrow> u32) \<Rightarrow> scene_tree \<Rightarrow> targets \<Rightarrow> targets"
  and scan_children :: "engine \<Rightarrow> nat \<Rightarrow> (string \<Rightarrow> u32) \<Rightarrow> scene_tree list \<Rightarrow> targets \<Rightarrow> targets" where
  "scan_command_targets E cap hash (Tree n kids) ts =
     scan_children E cap hash kids (fold (add_target E cap hash n) (gn_commands E n) ts)"
| "scan_children E cap hash [] ts = ts"
| "scan_children E cap hash (t # kids) ts =
     scan_children E cap hash kids (scan_command_targets E cap hash t ts)"

record target_state =
  ts_targets :: targets
  ts_scan_ms :: u64

definition live_target :: "(objid \<Rightarrow> command_node option) \<Rightarrow> targets \<Rightarrow> u32 \<Rightarrow> cmd_target option" where
  "live_target inst ts stream =
     (case hm_get ts stream of
        Some t \<Rightarrow> if inst (ct_object t) \<noteq> None then Some t else None
      | None \<Rightarrow> None)"

text \<open>\<open>tree\<close> is the scene tree's root, if there is one.\<close>

definition command_target ::
  "engine \<Rightarrow> nat \<Rightarrow> (string \<Rightarrow> u32) \<Rightarrow> (objid \<Rightarrow> command_node option) \<Rightarrow> scene_tree option \<Rightarrow> u64 \<Rightarrow> u32 \<Rightarrow>
   target_state \<Rightarrow> cmd_target option \<times> target_state" where
  "command_target E cap hash inst tree now stream st =
     (case live_target inst (ts_targets st) stream of
        Some t \<Rightarrow> (Some t, st)
      | None \<Rightarrow>
          if ts_scan_ms st \<noteq> 0 \<and> now - ts_scan_ms st < 1000 then (None, st)
          else
            let ts = (case tree of Some rt \<Rightarrow> scan_command_targets E cap hash rt [] | None \<Rightarrow> [])
            in (live_target inst ts stream, \<lparr>ts_targets = ts, ts_scan_ms = now\<rparr>))"

subsection \<open>Delivering\<close>

record call =
  c_object :: objid
  c_method :: string
  c_args :: "variant list"
  c_sender :: peer

fun field_arg :: "wire \<Rightarrow> engine \<Rightarrow> cmd_form \<Rightarrow> field \<Rightarrow> variant option" where
  "field_arg W E CMD_ARG_INT f = Some (VInt (fd_i f))"
| "field_arg W E CMD_ARG_FLOAT f = Some (VFloat (widen (fd_f f)))"
| "field_arg W E CMD_ARG_BOOL f = Some (VBool (fd_i f \<noteq> 0))"
| "field_arg W E CMD_ARG_BYTES f = Some (VBytes (fd_bytes f))"
| "field_arg W E CMD_ARG_VARIANT f =
     (let (v, r) = get_arg W E (reader_of (fd_bytes f)) in if rd_failed r then None else Some v)"

fun field_args :: "wire \<Rightarrow> engine \<Rightarrow> cmd_form list \<Rightarrow> field list \<Rightarrow> variant list option" where
  "field_args W E (f # fs) (x # xs) =
     (case field_arg W E f x of
        None \<Rightarrow> None
      | Some v \<Rightarrow> map_option (\<lambda>vs. v # vs) (field_args W E fs xs))"
| "field_args W E _ _ = Some []"

definition dict_set :: "(variant \<times> variant) list \<Rightarrow> string \<Rightarrow> variant \<Rightarrow> (variant \<times> variant) list" where
  "dict_set d k v =
     (if dict_get d k = None then d @ [(VStringName k, v)]
      else map (\<lambda>(key, old). (key, if text_of key = Some k then v else old)) d)"

definition fields_dict :: "string list \<Rightarrow> variant list \<Rightarrow> (variant \<times> variant) list" where
  "fields_dict names args = foldl (\<lambda>d (n, v). dict_set d n v) [] (zip names args)"

text \<open>\<open>_deliver_command\<close> past its lookup: \<open>t\<close> is what \<open>_command_target\<close> gave.\<close>

definition deliver_command ::
  "wire \<Rightarrow> engine \<Rightarrow> (objid \<Rightarrow> command_node option) \<Rightarrow> peer \<Rightarrow> cmd_target option \<Rightarrow> field list \<Rightarrow> call option" where
  "deliver_command W E inst peer target cmd =
     (case target of
        None \<Rightarrow> None
      | Some t \<Rightarrow>
          if length cmd \<noteq> length (cs_forms (ct_sig t)) then None
          else case field_args W E (cs_forms (ct_sig t)) cmd of
                 None \<Rightarrow> None
               | Some args \<Rightarrow>
                   (case inst (ct_object t) of
                      None \<Rightarrow> None
                    | Some n \<Rightarrow>
                        if \<not> cn_is_node n then None
                        else case rpc_method_config (rpc_object.truncate n) (ct_method t) of
                               None \<Rightarrow> None
                             | Some cfg \<Rightarrow>
                                 if rpc_permitted E cfg (ro_authority n) peer
                                 then Some \<lparr>c_object = ct_object t, c_method = ct_method t,
                                            c_args = (if cs_table (ct_sig t)
                                                      then [VDict (fields_dict (cs_names (ct_sig t)) args)]
                                                      else args),
                                            c_sender = peer\<rparr>
                                 else None))"

text \<open>\<open>_get_remote_sender_id\<close>, while a call with that sender runs (0: none is running).\<close>

definition get_remote_sender_id :: "peer \<Rightarrow> peer \<Rightarrow> peer" where
  "get_remote_sender_id command_sender inner_sender =
     (if command_sender \<noteq> 0 then command_sender else inner_sender)"

subsection \<open>A field between the two ends\<close>

definition carry_ok :: "(field_kind \<Rightarrow> field \<Rightarrow> field) \<Rightarrow> bool" where
  "carry_ok carry =
     (\<forall>f. fd_i (carry FIELD_INT f) = fd_i f \<and> fd_f (carry FIELD_FLOAT f) = fd_f f \<and>
          (fd_i (carry FIELD_BOOL f) \<noteq> 0 \<longleftrightarrow> fd_i f \<noteq> 0) \<and> fd_bytes (carry FIELD_BYTES f) = fd_bytes f)"

lemma carry_okD:
  assumes "carry_ok carry"
  shows "fd_i (carry FIELD_INT f) = fd_i f" and "fd_f (carry FIELD_FLOAT f) = fd_f f"
    and "fd_i (carry FIELD_BOOL f) = 0 \<longleftrightarrow> fd_i f = 0" and "fd_bytes (carry FIELD_BYTES f) = fd_bytes f"
  using assms by (auto simp: carry_ok_def)

definition carried :: "(field_kind \<Rightarrow> field \<Rightarrow> field) \<Rightarrow> field_kind list \<Rightarrow> field list \<Rightarrow> field list" where
  "carried carry ks cmd = map2 carry ks cmd"

text \<open>What the method is given for an argument of a form.\<close>

fun arg_view :: "engine \<Rightarrow> cmd_form \<Rightarrow> variant \<Rightarrow> variant" where
  "arg_view E CMD_ARG_INT v = VInt (to_int E v)"
| "arg_view E CMD_ARG_FLOAT v = VFloat (widen (narrow (to_double E v)))"
| "arg_view E CMD_ARG_BOOL v = VBool (to_bool E v)"
| "arg_view E CMD_ARG_BYTES v = v"
| "arg_view E CMD_ARG_VARIANT v = v"

fun form_takes :: "cmd_form \<Rightarrow> variant \<Rightarrow> bool" where
  "form_takes CMD_ARG_BYTES v = (get_type v = T_PACKED_BYTE_ARRAY)"
| "form_takes CMD_ARG_VARIANT v = True"
| "form_takes _ v = is_number v"

definition free_args_ok :: "engine \<Rightarrow> cmd_form list \<Rightarrow> variant list \<Rightarrow> bool" where
  "free_args_ok E forms args = list_all2 (\<lambda>f v. f = CMD_ARG_VARIANT \<longrightarrow> arg_ok E v) forms args"

lemma arg_field_takes: "(\<exists>x. arg_field W E f v = Some x) = form_takes f v"
  by (cases f; cases v) (simp_all add: is_number_def)

lemma field_arg_carry:
  assumes "wire_ok W" "engine_ok E" "carry_ok carry" "f = CMD_ARG_VARIANT \<longrightarrow> arg_ok E v"
    and "arg_field W E f v = Some x"
  shows "field_arg W E f (carry (command_field_kind f) x) = Some (arg_view E f v)"
proof (cases f)
  case CMD_ARG_VARIANT
  have "x = field0\<lparr>fd_bytes := put_arg W E v\<rparr>" using CMD_ARG_VARIANT assms(5) by simp
  moreover have "get_arg W E (reader_of (put_arg W E v)) = (v, reader_of [])"
    using CMD_ARG_VARIANT assms(1,2,4) by (intro arg.reads_back_end) simp_all
  ultimately show ?thesis
    using CMD_ARG_VARIANT carry_okD(4) [OF assms(3), of x] by simp
next
  case CMD_ARG_BYTES
  then show ?thesis using assms(5) carry_okD(4) [OF assms(3), of x] by (cases v) auto
next
  case CMD_ARG_BOOL
  then show ?thesis using assms(5) carry_okD(3) [OF assms(3), of x] by (auto split: if_splits)
next
  case CMD_ARG_FLOAT
  then show ?thesis using assms(5) carry_okD(2) [OF assms(3), of x] by (auto split: if_splits)
next
  case CMD_ARG_INT
  then show ?thesis using assms(5) carry_okD(1) [OF assms(3), of x] by (auto split: if_splits)
qed

lemma fields_from_ok:
  "length forms = length args \<Longrightarrow>
     (\<exists>xs. fields_from W E k forms args = Inr xs) = list_all2 form_takes forms args"
proof (induction W E k forms args rule: fields_from.induct)
  case (1 W E k f fs v vs)
  then show ?case
    using arg_field_takes [of W E f v]
    by (cases "arg_field W E f v"; cases "fields_from W E (Suc k) fs vs") auto
qed auto

lemma fields_from_arrive:
  assumes "wire_ok W" "engine_ok E" "carry_ok carry"
  shows "length forms = length args \<Longrightarrow> free_args_ok E forms args \<Longrightarrow>
     fields_from W E k forms args = Inr xs \<Longrightarrow>
     length xs = length forms \<and>
     field_args W E forms (carried carry (map command_field_kind forms) xs) =
       Some (map2 (arg_view E) forms args)"
proof (induction forms args arbitrary: k xs rule: list_induct2)
  case (Cons f fs v vs)
  from Cons.prems(2) obtain x ys where x: "arg_field W E f v = Some x"
    and ys: "fields_from W E (Suc k) fs vs = Inr ys" and xs: "xs = x # ys"
    by (auto split: option.splits sum.splits)
  have "field_arg W E f (carry (command_field_kind f) x) = Some (arg_view E f v)"
    by (rule field_arg_carry [OF assms]) (use Cons.prems(1) x in \<open>simp_all add: free_args_ok_def\<close>)
  then show ?case
    using Cons.IH [OF _ ys] Cons.prems(1) by (simp add: xs carried_def free_args_ok_def)
qed (simp add: carried_def)

subsection \<open>What a scan finds\<close>

text \<open>The pairs a scan adds, in its order.\<close>

fun tree_pairs :: "engine \<Rightarrow> scene_tree \<Rightarrow> (command_node \<times> string) list"
  and kids_pairs :: "engine \<Rightarrow> scene_tree list \<Rightarrow> (command_node \<times> string) list" where
  "tree_pairs E (Tree n kids) = map (\<lambda>m. (n, m)) (gn_commands E n) @ kids_pairs E kids"
| "kids_pairs E [] = []"
| "kids_pairs E (t # kids) = tree_pairs E t @ kids_pairs E kids"

definition add_pairs where
  "add_pairs E cap hash ps ts = fold (\<lambda>(n, m). add_target E cap hash n m) ps ts"

lemma scan_is_pairs:
  "scan_command_targets E cap hash t ts = add_pairs E cap hash (tree_pairs E t) ts"
  "scan_children E cap hash kids ts = add_pairs E cap hash (kids_pairs E kids) ts"
  by (induction E cap hash t ts and E cap hash kids ts rule: scan_command_targets_scan_children.induct)
    (simp_all add: add_pairs_def fold_map comp_def)

definition targets_ok :: "targets \<Rightarrow> bool" where
  "targets_ok ts = (\<forall>i t. hm_get ts i = Some t \<longrightarrow> cs_id (ct_sig t) = i \<and> i \<noteq> 0)"

lemma targets_ok_empty [simp]: "targets_ok []"
  by (simp add: targets_ok_def)

lemma targets_ok_add: "targets_ok ts \<Longrightarrow> targets_ok (add_target E cap hash n m ts)"
  by (auto simp: targets_ok_def add_target_def Let_def hm_get_put)

lemma targets_ok_pairs: "targets_ok ts \<Longrightarrow> targets_ok (add_pairs E cap hash ps ts)"
  unfolding add_pairs_def by (induction ps arbitrary: ts) (auto simp: targets_ok_add)

lemma targets_ok_scan: "targets_ok (scan_command_targets E cap hash t [])"
  unfolding scan_is_pairs by (rule targets_ok_pairs) simp

lemma add_pairs_get:
  assumes "cs_id (make_command_signature E cap hash n m) = i" "i \<noteq> 0"
    and "\<forall>(n', m') \<in> set ps. cs_id (make_command_signature E cap hash n' m') = i \<longrightarrow> n' = n \<and> m' = m"
  shows "(n, m) \<in> set ps \<or> hm_get ts i = Some \<lparr>ct_object = ro_id n, ct_method = m,
           ct_sig = make_command_signature E cap hash n m\<rparr> \<Longrightarrow>
    hm_get (add_pairs E cap hash ps ts) i =
      Some \<lparr>ct_object = ro_id n, ct_method = m, ct_sig = make_command_signature E cap hash n m\<rparr>"
  using assms(3)
proof (induction ps arbitrary: ts)
  case Nil
  then show ?case by (simp add: add_pairs_def)
next
  case (Cons p ps)
  obtain n' m' where p: "p = (n', m')" by (cases p)
  have "hm_get (add_target E cap hash n' m' ts) i =
      (if cs_id (make_command_signature E cap hash n' m') = i
       then Some \<lparr>ct_object = ro_id n, ct_method = m, ct_sig = make_command_signature E cap hash n m\<rparr>
       else hm_get ts i)"
    using Cons.prems(2) assms(1,2) by (auto simp: p add_target_def Let_def hm_get_put)
  then show ?case
    using Cons.IH [of "add_target E cap hash n' m' ts"] Cons.prems assms(1) by (auto simp: p add_pairs_def)
qed

definition target_query where
  "target_query E cap hash inst tree st q =
     snd (command_target E cap hash inst tree (fst q) (snd q) st)"

lemma live_targetD: "live_target inst ts i = Some t \<Longrightarrow> hm_get ts i = Some t \<and> inst (ct_object t) \<noteq> None"
  by (simp add: live_target_def split: option.splits if_splits)

lemma target_query_ok:
  "targets_ok (ts_targets st) \<Longrightarrow> targets_ok (ts_targets (target_query E cap hash inst tree st q))"
  by (auto simp: target_query_def command_target_def Let_def targets_ok_scan split: option.splits)

interpretation queries: machine "target_query E cap hash inst tree" "\<lambda>_ _. True" "\<lambda>st. targets_ok (ts_targets st)"
  for E cap hash inst tree
  by unfold_locales (rule target_query_ok)

definition target_state0 :: target_state where
  "target_state0 = \<lparr>ts_targets = [], ts_scan_ms = 0\<rparr>"

text \<open>The times at which a run of queries scanned the tree.\<close>

fun scan_times :: "engine \<Rightarrow> nat \<Rightarrow> (string \<Rightarrow> u32) \<Rightarrow> (objid \<Rightarrow> command_node option) \<Rightarrow> scene_tree option \<Rightarrow>
    target_state \<Rightarrow> (u64 \<times> u32) list \<Rightarrow> u64 list" where
  "scan_times E cap hash inst tree st [] = []"
| "scan_times E cap hash inst tree st ((now, i) # qs) =
     (if live_target inst (ts_targets st) i = None \<and> \<not> (ts_scan_ms st \<noteq> 0 \<and> now - ts_scan_ms st < 1000)
      then [now] else []) @ scan_times E cap hash inst tree (target_query E cap hash inst tree st (now, i)) qs"

lemma scan_times_spaced:
  assumes "sorted_wrt (\<lambda>p q. fst p \<le> fst q) qs" "\<forall>q \<in> set qs. ts_scan_ms st \<le> fst q \<and> 0 < fst q"
  shows "(\<forall>t \<in> set (scan_times E cap hash inst tree st qs).
             ts_scan_ms st \<noteq> 0 \<longrightarrow> unat (ts_scan_ms st) + 1000 \<le> unat t) \<and>
         sorted_wrt (\<lambda>a b. unat a + 1000 \<le> unat b) (scan_times E cap hash inst tree st qs)"
  using assms
proof (induction qs arbitrary: st)
  case (Cons q qs)
  obtain now i where q: "q = (now, i)" by (cases q)
  let ?st = "target_query E cap hash inst tree st q"
  let ?scan = "live_target inst (ts_targets st) i = None \<and> \<not> (ts_scan_ms st \<noteq> 0 \<and> now - ts_scan_ms st < 1000)"
  have le: "ts_scan_ms st \<le> now" "0 < now" using Cons.prems by (auto simp: q)
  have st: "ts_scan_ms ?st = (if ?scan then now else ts_scan_ms st)"
    by (auto simp: q target_query_def command_target_def Let_def split: option.split)
  have far: "unat (ts_scan_ms st) + 1000 \<le> unat now" if "?scan" "ts_scan_ms st \<noteq> 0"
    using that le unat_sub [OF le(1)] by (auto simp: word_less_nat_alt not_less)
  have IH: "(\<forall>t \<in> set (scan_times E cap hash inst tree ?st qs).
             ts_scan_ms ?st \<noteq> 0 \<longrightarrow> unat (ts_scan_ms ?st) + 1000 \<le> unat t) \<and>
         sorted_wrt (\<lambda>a b. unat a + 1000 \<le> unat b) (scan_times E cap hash inst tree ?st qs)"
  proof (rule Cons.IH)
    show "sorted_wrt (\<lambda>p q. fst p \<le> fst q) qs" using Cons.prems(1) by simp
    show "\<forall>p \<in> set qs. ts_scan_ms ?st \<le> fst p \<and> 0 < fst p"
      unfolding st using Cons.prems by (auto simp: q)
  qed
  show ?case
  proof (cases "?scan")
    case True
    then have "scan_times E cap hash inst tree st (q # qs) = now # scan_times E cap hash inst tree ?st qs"
      by (simp add: q)
    then show ?thesis using IH far [OF True] True le st by force
  next
    case False
    then have "scan_times E cap hash inst tree st (q # qs) = scan_times E cap hash inst tree ?st qs"
      by (auto simp: q)
    moreover have "ts_scan_ms ?st = ts_scan_ms st"
      using st False by (simp only: if_False)
    ultimately show ?thesis using IH by simp
  qed
qed simp

subsection \<open>A table's fields\<close>

lemma table_args_ok:
  "(\<exists>vs. table_args d ns = Inr vs) = list_all (\<lambda>n. dict_get d n \<noteq> None) ns"
  by (induction ns) (auto split: option.splits sum.splits)

lemma table_args_get: "table_args d ns = Inr vs \<Longrightarrow> map Some vs = map (dict_get d) ns"
  by (induction ns arbitrary: vs) (auto split: option.splits sum.splits)

lemma dict_get_append: "dict_get (d @ e) k = (case dict_get d k of Some v \<Rightarrow> Some v | None \<Rightarrow> dict_get e k)"
  by (induction d) (auto simp: dict_get_def)

lemma fields_dict_from:
  "length ns = length vs \<Longrightarrow> distinct ns \<Longrightarrow> \<forall>n \<in> set ns. dict_get d n = None \<Longrightarrow>
     foldl (\<lambda>d (n, v). dict_set d n v) d (zip ns vs) = d @ zip (map VStringName ns) vs"
proof (induction ns vs arbitrary: d rule: list_induct2)
  case (Cons n ns v vs)
  have "dict_get [(VStringName n, v)] k = None" if "k \<in> set ns" for k
    using that Cons.prems(1) by (auto simp: dict_get_def text_of_def)
  then show ?case
    using Cons.IH [of "d @ [(VStringName n, v)]"] Cons.prems
    by (simp add: dict_set_def dict_get_append)
qed simp

lemma fields_dict_zip:
  "length ns = length vs \<Longrightarrow> distinct ns \<Longrightarrow> fields_dict ns vs = zip (map VStringName ns) vs"
  unfolding fields_dict_def by (subst fields_dict_from) (simp_all add: dict_get_def)

text \<open>The arguments a command method is given for the call's.\<close>

definition delivered_args :: "engine \<Rightarrow> command_sig \<Rightarrow> variant list \<Rightarrow> variant list" where
  "delivered_args E sig call_args =
     (if cs_table sig then
        (case call_args of
           [VDict d] \<Rightarrow>
             [VDict (zip (map VStringName (cs_names sig))
                (map2 (arg_view E) (cs_forms sig) (map (\<lambda>n. the (dict_get d n)) (cs_names sig))))]
         | _ \<Rightarrow> [])
      else map2 (arg_view E) (cs_forms sig) call_args)"

definition call_values :: "command_sig \<Rightarrow> variant list \<Rightarrow> variant list" where
  "call_values sig call_args =
     (if cs_table sig then
        (case call_args of [VDict d] \<Rightarrow> map (\<lambda>n. the (dict_get d n)) (cs_names sig) | _ \<Rightarrow> [])
      else call_args)"

definition sig_wf :: "command_sig \<Rightarrow> bool" where
  "sig_wf sig =
     (length (cs_names sig) = length (cs_forms sig) \<and> cs_kinds sig = map command_field_kind (cs_forms sig) \<and>
      (cs_table sig \<longrightarrow> distinct (cs_names sig)))"

lemma command_from_args_values:
  assumes "command_from_args W E sig call_args = Inr cmd"
  shows "fields_from W E 0 (cs_forms sig) (call_values sig call_args) = Inr cmd \<and>
    (length (cs_names sig) = length (cs_forms sig) \<longrightarrow>
      length (call_values sig call_args) = length (cs_forms sig))"
proof (cases "cs_table sig")
  case True
  with assms obtain d args where d: "call_args = [VDict d]" "table_args d (cs_names sig) = Inr args"
      "fields_from W E 0 (cs_forms sig) args = Inr cmd"
    by (auto simp: command_from_args_def split: list.splits variant.splits sum.splits if_splits)
  have args: "map Some args = map (dict_get d) (cs_names sig)"
    using d(2) by (rule table_args_get)
  have "args = map the (map Some args)"
    by (simp add: comp_def)
  then have "args = map (\<lambda>n. the (dict_get d n)) (cs_names sig)"
    unfolding args by (simp add: comp_def)
  then show ?thesis
    using True d by (simp add: call_values_def)
next
  case False
  with assms show ?thesis
    by (simp add: command_from_args_def call_values_def split: if_splits)
qed

lemma command_arrives_at:
  assumes "wire_ok W" "engine_ok E" "carry_ok carry" "sig_wf sig"
    and "free_args_ok E (cs_forms sig) (call_values sig call_args)"
    and "command_from_args W E sig call_args = Inr cmd"
    and "inst (ro_id n) = Some n" "cn_is_node n"
    and "rpc_method_config (rpc_object.truncate n) m = Some cfg" "rpc_permitted E cfg (ro_authority n) peer"
  shows "deliver_command W E inst peer (Some \<lparr>ct_object = ro_id n, ct_method = m, ct_sig = sig\<rparr>)
      (carried carry (cs_kinds sig) cmd) =
    Some \<lparr>c_object = ro_id n, c_method = m, c_args = delivered_args E sig call_args, c_sender = peer\<rparr>"
proof -
  let ?vs = "call_values sig call_args"
  have wf: "length (cs_names sig) = length (cs_forms sig)" "cs_kinds sig = map command_field_kind (cs_forms sig)"
    using assms(4) by (simp_all add: sig_wf_def)
  have f: "fields_from W E 0 (cs_forms sig) ?vs = Inr cmd" and len: "length ?vs = length (cs_forms sig)"
    using command_from_args_values [OF assms(6)] wf(1) by simp_all
  have *: "length cmd = length (cs_forms sig)"
    "field_args W E (cs_forms sig) (carried carry (cs_kinds sig) cmd) = Some (map2 (arg_view E) (cs_forms sig) ?vs)"
    using fields_from_arrive [OF assms(1-3) len [symmetric] assms(5) f] wf(2) by simp_all
  have "(if cs_table sig then [VDict (fields_dict (cs_names sig) (map2 (arg_view E) (cs_forms sig) ?vs))]
      else map2 (arg_view E) (cs_forms sig) ?vs) = delivered_args E sig call_args"
  proof (cases "cs_table sig")
    case True
    with assms(6) obtain d where "call_args = [VDict d]"
      by (auto simp: command_from_args_def split: list.splits variant.splits)
    then show ?thesis
      using True assms(4) len wf(1)
      by (simp add: delivered_args_def call_values_def fields_dict_zip sig_wf_def)
  qed (simp add: delivered_args_def call_values_def)
  then show ?thesis
    using * assms(7-10) wf(2) by (cases "cs_table sig") (simp_all add: deliver_command_def carried_def)
qed

lemma make_sig_cases:
  "cs_id (make_command_signature E cap hash ob m) \<noteq> 0 \<Longrightarrow>
     length (cs_names (make_command_signature E cap hash ob m)) = length (cs_forms (make_command_signature E cap hash ob m)) \<and>
     cs_kinds (make_command_signature E cap hash ob m) =
       map command_field_kind (cs_forms (make_command_signature E cap hash ob m))"
  by (auto simp: make_command_signature_def command_signature_def Let_def no_sig_def
      split: option.splits if_splits)

subsection \<open>A concrete command stream\<close>

definition demo_node :: command_node where
  "demo_node =
     \<lparr>ro_id = 7, ro_node_cfg = None,
      ro_script_cfg = Some (VDict [(VStringName ''go'', VDict [(VString ''rpc_mode'', VInt 1)])]),
      ro_authority = 1, cn_is_node = True, cn_path = ''/root/p'',
      cn_meta = [(''gn_commands'', VArray [VStringName ''go''])],
      cn_methods = [(''go'', [(''x'', TYPE_INT), (''data'', TYPE_PACKED_BYTE_ARRAY), (''any'', TYPE_NIL)])]\<rparr>"

definition demo_sig :: command_sig where
  "demo_sig =
     \<lparr>cs_id = 5, cs_kinds = [FIELD_INT, FIELD_BYTES, FIELD_BYTES],
      cs_forms = [CMD_ARG_INT, CMD_ARG_BYTES, CMD_ARG_VARIANT], cs_names = [''x'', ''data'', ''any''],
      cs_table = False\<rparr>"

definition demo_inst :: "objid \<Rightarrow> command_node option" where
  "demo_inst i = (if i = 7 then Some demo_node else None)"

lemma demo_signature: "make_command_signature demo_engine 16 (\<lambda>s. 5) demo_node ''go'' = demo_sig"
  by (simp add: make_command_signature_def command_signature_def demo_node_def demo_sig_def
      command_arg_form_def dict_get_def Let_def)

lemma demo_pairs: "tree_pairs demo_engine (Tree demo_node []) = [(demo_node, ''go'')]"
  by (simp add: gn_commands_def demo_node_def demo_engine_def)

lemma demo_config:
  "rpc_method_config (rpc_object.truncate demo_node) ''go'' = Some [(VString ''rpc_mode'', VInt 1)]"
  "rpc_permitted demo_engine [(VString ''rpc_mode'', VInt 1)] a p"
  by (simp_all add: rpc_method_config_def has_method_def rpc_object.truncate_def demo_node_def dict_get_def
      text_of_def as_dict_def rpc_permitted_def cfg_int_def engine_okD [OF demo_engine_ok])

lemma demo_call:
  "command_from_args demo_wire demo_engine demo_sig [VInt 3, VBytes [1, 2], VNil] =
     Inr [field0\<lparr>fd_i := 3\<rparr>, field0\<lparr>fd_bytes := [1, 2]\<rparr>, field0\<lparr>fd_bytes := put_arg demo_wire demo_engine VNil\<rparr>]"
  by (simp add: command_from_args_def demo_sig_def is_number_def engine_okD [OF demo_engine_ok])

subsection \<open>Properties\<close>

text \<open>C33: a command reaches its method, or is dropped for a lookup too soon. A call a client makes of a
  command stream, packed into fields by its own signature, carried by the core and looked up by the server,
  whatever its table and the time of its last scan, calls that method of that object, with the sender as the
  remote sender id and the arguments as the wire delivers them (each as its form gives it: a float narrowed to 32 bits,
  a number of another type converted, the fields of a table as one Dictionary), unless the table
  has no live object for the stream and was scanned less than a second ago, and then nothing is called.
  That is as long as the server's node is in its tree with the signature the client's has, no other
  command of the tree has that id, nor another live object the table has kept, and the call is permitted.\<close>

theorem command_reaches_method:
  assumes "wire_ok W" "engine_ok E" "carry_ok carry"
    and "make_command_signature E cap hash n m = sig" "cs_id sig \<noteq> 0" "cs_table sig \<longrightarrow> distinct (cs_names sig)"
    and "(n, m) \<in> set (tree_pairs E rt)"
    and "\<forall>(n', m') \<in> set (tree_pairs E rt).
           cs_id (make_command_signature E cap hash n' m') = cs_id sig \<longrightarrow> n' = n \<and> m' = m"
    and "\<forall>t. live_target inst (ts_targets st) (cs_id sig) = Some t \<longrightarrow>
           t = \<lparr>ct_object = ro_id n, ct_method = m, ct_sig = sig\<rparr>"
    and "inst (ro_id n) = Some n" "cn_is_node n"
    and "rpc_method_config (rpc_object.truncate n) m = Some cfg" "rpc_permitted E cfg (ro_authority n) peer"
    and "command_from_args W E sig call_args = Inr cmd"
    and "free_args_ok E (cs_forms sig) (call_values sig call_args)"
  shows "deliver_command W E inst peer
      (fst (command_target E cap hash inst (Some rt) now (cs_id sig) st))
      (carried carry (cs_kinds sig) cmd) =
    (if live_target inst (ts_targets st) (cs_id sig) = None \<and> ts_scan_ms st \<noteq> 0 \<and> now - ts_scan_ms st < 1000 then None
     else Some \<lparr>c_object = ro_id n, c_method = m, c_args = delivered_args E sig call_args, c_sender = peer\<rparr>)"
proof (cases "live_target inst (ts_targets st) (cs_id sig) = None \<and> ts_scan_ms st \<noteq> 0 \<and> now - ts_scan_ms st < 1000")
  case True
  then show ?thesis by (simp add: command_target_def deliver_command_def)
next
  case False
  have wf: "sig_wf sig"
    using make_sig_cases [of E cap hash n m] assms(4-6) by (simp add: sig_wf_def)
  have "hm_get (scan_command_targets E cap hash rt []) (cs_id sig) =
      Some \<lparr>ct_object = ro_id n, ct_method = m, ct_sig = sig\<rparr>"
    using add_pairs_get [of E cap hash n m "cs_id sig" "tree_pairs E rt" "[]"] assms(4,5,7,8)
    by (simp add: scan_is_pairs)
  then have scan: "live_target inst (scan_command_targets E cap hash rt []) (cs_id sig) =
      Some \<lparr>ct_object = ro_id n, ct_method = m, ct_sig = sig\<rparr>"
    using assms(10) by (simp add: live_target_def)
  have "fst (command_target E cap hash inst (Some rt) now (cs_id sig) st) =
      Some \<lparr>ct_object = ro_id n, ct_method = m, ct_sig = sig\<rparr>"
  proof (cases "live_target inst (ts_targets st) (cs_id sig)")
    case None
    then show ?thesis using False scan by (simp add: command_target_def Let_def)
  next
    case (Some t)
    then show ?thesis using assms(9) by (simp add: command_target_def)
  qed
  then show ?thesis
    using command_arrives_at [where inst = inst and n = n, OF assms(1-3) wf assms(15,14,10-13)] False by (simp only: if_False)
qed

text \<open>Half a second after a scan: the stream is called where that scan found it, and dropped where it did not.\<close>

lemma command_reaches_method_witness:
  "deliver_command demo_wire demo_engine demo_inst 3
      (fst (command_target demo_engine 16 (\<lambda>s. 5) demo_inst (Some (Tree demo_node [])) 500 5
        \<lparr>ts_targets = [(5, \<lparr>ct_object = 7, ct_method = ''go'', ct_sig = demo_sig\<rparr>)], ts_scan_ms = 8\<rparr>))
      (carried (\<lambda>k f. f) (cs_kinds demo_sig)
        [field0\<lparr>fd_i := 3\<rparr>, field0\<lparr>fd_bytes := [1, 2]\<rparr>, field0\<lparr>fd_bytes := put_arg demo_wire demo_engine VNil\<rparr>]) =
     Some \<lparr>c_object = 7, c_method = ''go'', c_args = [VInt 3, VBytes [1, 2], VNil], c_sender = 3\<rparr> \<and>
   deliver_command demo_wire demo_engine demo_inst 3
      (fst (command_target demo_engine 16 (\<lambda>s. 5) demo_inst (Some (Tree demo_node [])) 500 5
        \<lparr>ts_targets = [], ts_scan_ms = 8\<rparr>))
      (carried (\<lambda>k f. f) (cs_kinds demo_sig)
        [field0\<lparr>fd_i := 3\<rparr>, field0\<lparr>fd_bytes := [1, 2]\<rparr>, field0\<lparr>fd_bytes := put_arg demo_wire demo_engine VNil\<rparr>]) = None"
proof -
  have id: "ro_id demo_node = 7" "cs_id demo_sig = 5" "cn_is_node demo_node" "\<not> cs_table demo_sig"
    by (simp_all add: demo_node_def demo_sig_def)
  have args: "delivered_args demo_engine demo_sig [VInt 3, VBytes [1, 2], VNil] = [VInt 3, VBytes [1, 2], VNil]"
    by (simp add: delivered_args_def demo_sig_def engine_okD [OF demo_engine_ok])
  have free: "free_args_ok demo_engine (cs_forms demo_sig) (call_values demo_sig [VInt 3, VBytes [1, 2], VNil])"
    by (simp add: free_args_ok_def call_values_def demo_sig_def)
  have inst: "demo_inst 7 = Some demo_node" by (simp add: demo_inst_def)
  note call = command_reaches_method [OF demo_wire_ok demo_engine_ok _ demo_signature _ _ _ _ _ _ _ demo_config(1) _ demo_call free,
      of "\<lambda>k f. f" "Tree demo_node []" demo_inst _ 3 500, unfolded id args]
  show ?thesis
  proof (intro conjI, goal_cases)
    case 1
    show ?case
      using call [of "\<lparr>ts_targets = [(5, \<lparr>ct_object = 7, ct_method = ''go'', ct_sig = demo_sig\<rparr>)], ts_scan_ms = 8\<rparr>"]
      by (simp add: id demo_pairs carry_ok_def inst demo_config(2) live_target_def hm_get_def del: tree_pairs.simps)
  next
    case 2
    show ?case
      using call [of "\<lparr>ts_targets = [], ts_scan_ms = 8\<rparr>"]
      by (simp add: id demo_pairs carry_ok_def inst demo_config(2) live_target_def hm_get_def del: tree_pairs.simps)
  qed
qed

text \<open>C34: a call is taken exactly when it fits its signature, and rejected whole otherwise: with a table,
  one Dictionary with the table's fields and no other, each of a type its form takes; without, as many
  arguments as the method has, each of a type its form takes. A number serves for any of the number
  forms, bytes only for bytes, anything for the rest.\<close>

theorem command_accepts_exactly:
  assumes "length (cs_names sig) = length (cs_forms sig)"
  shows "(\<exists>cmd. command_from_args W E sig call_args = Inr cmd) =
     (if cs_table sig then
        (\<exists>d. call_args = [VDict d] \<and> length d = length (cs_names sig) \<and>
             list_all (\<lambda>n. dict_get d n \<noteq> None) (cs_names sig) \<and>
             list_all2 form_takes (cs_forms sig) (call_values sig call_args))
      else length call_args = length (cs_forms sig) \<and> list_all2 form_takes (cs_forms sig) call_args)"
proof (cases "cs_table sig")
  case True
  show ?thesis
  proof (cases "\<exists>d. call_args = [VDict d]")
    case dict: True
    then obtain d where d: "call_args = [VDict d]" by blast
    have len: "length (call_values sig call_args) = length (cs_forms sig)"
      using True d assms by (simp add: call_values_def)
    show ?thesis
    proof (cases "table_args d (cs_names sig)")
      case (Inl e)
      then have "\<not> list_all (\<lambda>n. dict_get d n \<noteq> None) (cs_names sig)"
        unfolding table_args_ok [symmetric] by simp
      then show ?thesis using True d Inl by (simp add: command_from_args_def)
    next
      case (Inr args)
      then have "list_all (\<lambda>n. dict_get d n \<noteq> None) (cs_names sig)"
        unfolding table_args_ok [symmetric] by simp
      moreover have "map the (map Some args) = map the (map (dict_get d) (cs_names sig))"
        using table_args_get [OF Inr] by simp
      then have "args = call_values sig call_args"
        using True d by (simp add: call_values_def comp_def)
      ultimately show ?thesis
        using True d Inr fields_from_ok [OF len [symmetric], of W E 0]
        by (simp add: command_from_args_def)
    qed
  next
    case False
    then have "command_from_args W E sig call_args = Inl Needs_One_Dictionary"
      using True by (auto simp: command_from_args_def split: list.split variant.split)
    then show ?thesis using True False by simp
  qed
next
  case False
  then show ?thesis
    using fields_from_ok [of "cs_forms sig" call_args W E 0] by (simp add: command_from_args_def)
qed

lemma command_accepts_exactly_witness:
  "\<not> (\<exists>cmd. command_from_args demo_wire demo_engine demo_sig [VInt 3, VString ''x'', VNil] = Inr cmd)"
  using command_accepts_exactly [of demo_sig demo_wire demo_engine "[VInt 3, VString ''x'', VNil]"]
  by (simp add: demo_sig_def)

text \<open>C35: a command calls only what its sender may call: whenever a delivery makes a call, the object is
  alive, the method is an \<open>@rpc\<close> there, it is not disabled, and if it is for the authority alone the
  sender is the object's; and the sender the method sees is the peer the command came from.\<close>

theorem command_calls_permitted:
  assumes "deliver_command W E inst peer target cmd = Some c"
  shows "c_sender c = peer \<and>
     (\<exists>n cfg. inst (c_object c) = Some n \<and>
        rpc_method_config (rpc_object.truncate n) (c_method c) = Some cfg \<and>
        cfg_int E cfg ''rpc_mode'' RPC_MODE_AUTHORITY \<noteq> RPC_MODE_DISABLED \<and>
        (cfg_int E cfg ''rpc_mode'' RPC_MODE_AUTHORITY \<noteq> RPC_MODE_AUTHORITY \<or> ro_authority n = peer))"
  using assms
  by (auto simp: deliver_command_def rpc_permitted_def Let_def split: option.splits if_splits)

lemma command_calls_permitted_witness:
  "c_sender \<lparr>c_object = 7, c_method = ''go'', c_args = [VInt 3, VBytes [], VNil], c_sender = 3\<rparr> = 3 \<and>
   (\<exists>n cfg. demo_inst 7 = Some n \<and> rpc_method_config (rpc_object.truncate n) ''go'' = Some cfg \<and>
      cfg_int demo_engine cfg ''rpc_mode'' RPC_MODE_AUTHORITY \<noteq> RPC_MODE_DISABLED \<and>
      (cfg_int demo_engine cfg ''rpc_mode'' RPC_MODE_AUTHORITY \<noteq> RPC_MODE_AUTHORITY \<or> ro_authority n = 3))"
proof -
  have "get_arg demo_wire demo_engine (reader_of (put_arg demo_wire demo_engine VNil)) = (VNil, reader_of [])"
    by (rule arg.reads_back_end) (simp_all add: demo_wire_ok demo_engine_ok)
  then have d: "deliver_command demo_wire demo_engine demo_inst 3
      (Some \<lparr>ct_object = 7, ct_method = ''go'', ct_sig = demo_sig\<rparr>)
      [field0\<lparr>fd_i := 3\<rparr>, field0, field0\<lparr>fd_bytes := put_arg demo_wire demo_engine VNil\<rparr>] =
     Some \<lparr>c_object = 7, c_method = ''go'', c_args = [VInt 3, VBytes [], VNil], c_sender = 3\<rparr>"
    using demo_config demo_config(2) [of "ro_authority demo_node" 3]
    by (simp add: deliver_command_def demo_sig_def demo_inst_def field0_def)
      (simp add: demo_node_def)
  show ?thesis
    using command_calls_permitted [OF d] by simp
qed

text \<open>A client cannot make the server walk its tree: whatever stream ids arrive, at whatever
  (non-decreasing, non-zero) times, two scans of the tree are at least a second apart.\<close>

theorem scans_a_second_apart:
  assumes "sorted_wrt (\<lambda>p q. fst p \<le> fst q) qs" "\<forall>q \<in> set qs. 0 < fst q"
  shows "sorted_wrt (\<lambda>a b. unat a + 1000 \<le> unat b) (scan_times E cap hash inst tree target_state0 qs)"
  using scan_times_spaced [OF assms(1), of target_state0 E cap hash inst tree] assms(2)
  by (simp add: target_state0_def)

lemma scans_a_second_apart_witness:
  "sorted_wrt (\<lambda>a b. unat a + 1000 \<le> unat b)
     (scan_times demo_engine 16 (\<lambda>s. 5) demo_inst None target_state0 [(1, 5), (700, 6), (1001, 5)])"
  by (rule scans_a_second_apart) simp_all

text \<open>What a lookup finds is what was asked for: after any run of queries, the target a stream id
  gives has that id as its signature's, and its object is alive.\<close>

theorem target_matches_stream:
  assumes "fst (command_target E cap hash inst tree now stream
      (run (target_query E cap hash inst tree) target_state0 qs)) = Some t"
  shows "cs_id (ct_sig t) = stream \<and> stream \<noteq> 0 \<and> inst (ct_object t) \<noteq> None"
proof -
  have "targets_ok (ts_targets (run (target_query E cap hash inst tree) target_state0 qs))"
    using queries.inv_run [of target_state0 E cap hash inst tree qs]
    by (simp add: run_ok_all target_state0_def)
  then show ?thesis
    using assms targets_ok_scan
    by (auto simp: command_target_def Let_def targets_ok_def split: option.splits if_splits
        dest!: live_targetD) blast+
qed

lemma target_matches_stream_witness:
  "cs_id (ct_sig \<lparr>ct_object = 7, ct_method = ''go'', ct_sig = demo_sig\<rparr>) = 5 \<and> (5 :: u32) \<noteq> 0 \<and>
   demo_inst (ct_object \<lparr>ct_object = 7, ct_method = ''go'', ct_sig = demo_sig\<rparr>) \<noteq> None"
proof (rule target_matches_stream)
  show "fst (command_target demo_engine 16 (\<lambda>s. 5) demo_inst (Some (Tree demo_node [])) 9 5
      (run (target_query demo_engine 16 (\<lambda>s. 5) demo_inst (Some (Tree demo_node []))) target_state0 [])) =
    Some \<lparr>ct_object = 7, ct_method = ''go'', ct_sig = demo_sig\<rparr>"
    by (simp add: command_target_def target_state0_def live_target_def scan_is_pairs demo_pairs
        add_pairs_def add_target_def demo_signature del: scan_command_targets.simps tree_pairs.simps)
      (simp add: demo_sig_def demo_inst_def demo_node_def)
qed

end
