(* ===== verification/Messages.thy ===== *)
theory Messages
  imports Commands
begin

section \<open>Messages: RPCs on the netchan\<close>

text \<open>
  \<open>_send_message\<close> and \<open>_deliver_message\<close> of \<open>goldnet_multiplayer.cpp\<close>: a message names its target (a
  node path and a method) by a small id, which the sending end registers with the receiving one in the
  reliable stream the first time it uses it with that peer. Until the peer is known to have that, an
  unreliable call carries the registration in front of it.

  The two functions are modelled on the bytes they write and read. What the core does with a queued
  message is its own: \<open>send_message\<close> takes the two counts it asks of the core (\<open>queued\<close>, \<open>delivered\<close>)
  and gives the messages it queues. \<open>netchan\<close> then puts two ends and the core's promises together: the
  reliable stream arrives in order, once; \<open>delivered\<close> counts no message the peer does not have; an
  unreliable one may arrive at any time, in any order, again, or never, and the scene is another at each
  arrival. Over that the invariant shows that the call \<open>deliver_message\<close> makes of each message is the one that
  was sent, on the node then at its path, if there is one and it permits it.
\<close>

abbreviation MAX_UNRELIABLE_MESSAGE :: int where "MAX_UNRELIABLE_MESSAGE \<equiv> 512"

record msg_target =
  mt_path :: string
  mt_method :: string
  mt_object :: objid
  mt_warned :: bool

record msg_end =
  msg_ids :: "(string, u32) hash_map"
  msg_next_id :: u32
  msg_registered :: "(peer, (u32, u64) hash_map) hash_map"
  msg_targets :: "(peer, (u32, msg_target) hash_map) hash_map"

definition msg_end0 :: msg_end where
  "msg_end0 = \<lparr>msg_ids = [], msg_next_id = 1, msg_registered = [], msg_targets = []\<rparr>"

text \<open>\<open>HashMap::operator[]\<close> on a map of maps: the entry, made empty where there is none.\<close>

definition hm_sub :: "('k, ('a, 'b) hash_map) hash_map \<Rightarrow> 'k \<Rightarrow> ('a, 'b) hash_map" where
  "hm_sub m k = (case hm_get m k of Some sub \<Rightarrow> sub | None \<Rightarrow> [])"

lemma hm_sub_put [simp]: "hm_sub (hm_put k v m) j = (if j = k then v else hm_sub m j)"
  by (simp add: hm_sub_def hm_get_put)

subsection \<open>Sending\<close>

datatype queued_message = Queue_Reliable bytes | Queue_Unreliable bytes

definition msg_key :: "string \<Rightarrow> string \<Rightarrow> string" where
  "msg_key path m = path @ ''::'' @ m"

definition msg_id_for :: "string \<Rightarrow> msg_end \<Rightarrow> u32 \<times> msg_end" where
  "msg_id_for key st =
     (case hm_get (msg_ids st) key of
        Some i \<Rightarrow> (i, st)
      | None \<Rightarrow>
          (msg_next_id st,
           st\<lparr>msg_next_id := msg_next_id st + 1, msg_ids := hm_put key (msg_next_id st) (msg_ids st)\<rparr>))"

definition reg_bytes :: "wire \<Rightarrow> engine \<Rightarrow> u32 \<Rightarrow> string \<Rightarrow> string \<Rightarrow> bytes" where
  "reg_bytes W E i path m =
     w_uvarint W 0 @ w_uvarint W i @ put_str W E path @ put_str W E m"

definition send_message ::
  "wire \<Rightarrow> engine \<Rightarrow> peer \<Rightarrow> string \<Rightarrow> string \<Rightarrow> variant list \<Rightarrow> bool \<Rightarrow> u64 \<Rightarrow> u64 \<Rightarrow> msg_end \<Rightarrow>
   bool \<times> queued_message list \<times> msg_end" where
  "send_message W E peer path m args reliable queued delivered st =
     (let (i, st1) = msg_id_for (msg_key path m) st;
          reg = reg_bytes W E i path m;
          registered = hm_sub (msg_registered st1) peer;
          st2 = st1\<lparr>msg_registered := hm_put peer registered (msg_registered st1)\<rparr>;
          reg_at = hm_get registered i;
          known = (case reg_at of Some k \<Rightarrow> k < delivered | None \<Rightarrow> False);
          call = (if reliable \<or> known then w_uvarint W i else reg) @ put_args W E args
      in if \<not> reliable \<and> MAX_UNRELIABLE_MESSAGE < int (length call) then (False, [], st2)
         else
           (True,
            (if reg_at = None then [Queue_Reliable reg] else []) @
            [if reliable then Queue_Reliable call else Queue_Unreliable call],
            if reg_at = None
            then st2\<lparr>msg_registered := hm_put peer (hm_put i queued registered) (msg_registered st2)\<rparr>
            else st2))"

subsection \<open>Delivering\<close>

text \<open>The first half of \<open>_deliver_message\<close>: the header, a registration, and the target a call names,
  with its id and the reader at the arguments. \<open>None\<close> where the function returns there.\<close>

definition open_message ::
  "wire \<Rightarrow> engine \<Rightarrow> peer \<Rightarrow> bytes \<Rightarrow> msg_end \<Rightarrow> (u32 \<times> msg_target \<times> reader) option \<times> msg_end" where
  "open_message W E sender bs st =
     (let (i, r) = r_uvarint W (reader_of bs);
          targets = hm_sub (msg_targets st) sender;
          st1 = st\<lparr>msg_targets := hm_put sender targets (msg_targets st)\<rparr>;
          find = (\<lambda>ts j rd s. case hm_get ts j of None \<Rightarrow> (None, s) | Some t \<Rightarrow> (Some (j, t, rd), s))
      in if i \<noteq> 0 then find targets i r st1
         else
           let (new_id, r1) = r_uvarint W r;
               (path, r2) = get_str W E r1;
               (m, r3) = get_str W E r2
           in if rd_failed r3 \<or> new_id = 0 then (None, st1)
              else
                let same = (case hm_get targets new_id of
                              Some t \<Rightarrow> mt_path t = path \<and> mt_method t = m | None \<Rightarrow> False);
                    targets1 = (if same then targets
                                else hm_put new_id \<lparr>mt_path = path, mt_method = m, mt_object = 0,
                                                    mt_warned = False\<rparr> targets);
                    st2 = st1\<lparr>msg_targets := hm_put sender targets1 (msg_targets st1)\<rparr>
                in if rd_bytes r3 = [] then (None, st2) else find targets1 new_id r3 st2)"

text \<open>\<open>in_tree\<close> is the node an ObjectID gives while it is alive and inside the tree, \<open>at_path\<close> the node
  at an absolute path.\<close>

definition deliver_message ::
  "wire \<Rightarrow> engine \<Rightarrow> (objid \<Rightarrow> rpc_object option) \<Rightarrow> (string \<Rightarrow> rpc_object option) \<Rightarrow> peer \<Rightarrow> bytes \<Rightarrow>
   msg_end \<Rightarrow> call option \<times> msg_end" where
  "deliver_message W E in_tree at_path sender bs st =
     (case open_message W E sender bs st of
        (None, st1) \<Rightarrow> (None, st1)
      | (Some (i, t, r), st1) \<Rightarrow>
          (let set_target = (\<lambda>t s. s\<lparr>msg_targets :=
                 hm_put sender (hm_put i t (hm_sub (msg_targets s) sender)) (msg_targets s)\<rparr>);
               known = (if mt_object t \<noteq> 0 then in_tree (mt_object t) else None);
               n = (case known of Some n \<Rightarrow> Some n | None \<Rightarrow> at_path (mt_path t));
               t1 = (case known of
                       Some _ \<Rightarrow> t
                     | None \<Rightarrow> t\<lparr>mt_object := (case n of Some n \<Rightarrow> ro_id n | None \<Rightarrow> 0)\<rparr>)
           in case n of
                None \<Rightarrow> (None, set_target (t1\<lparr>mt_warned := True\<rparr>) st1)
              | Some n \<Rightarrow>
                  (let (args, r1) = get_args W E r
                   in (if rd_failed r1 then None
                       else case rpc_method_config n (mt_method t1) of
                              None \<Rightarrow> None
                            | Some cfg \<Rightarrow>
                                if rpc_permitted E cfg (ro_authority n) sender
                                then Some \<lparr>c_object = ro_id n, c_method = mt_method t1, c_args = args,
                                           c_sender = sender\<rparr>
                                else None,
                       set_target t1 st1))))"

subsection \<open>What a message is\<close>

text \<open>The three messages a sender makes; a call by id names its target only to the reader of the
  model.\<close>

datatype message =
    Reg u32 string string
  | Call_By_Id u32 string string "variant list"
  | Reg_And_Call u32 string string "variant list"

fun encode :: "wire \<Rightarrow> engine \<Rightarrow> message \<Rightarrow> bytes" where
  "encode W E (Reg i path m) = reg_bytes W E i path m"
| "encode W E (Call_By_Id i path m args) = w_uvarint W i @ put_args W E args"
| "encode W E (Reg_And_Call i path m args) = reg_bytes W E i path m @ put_args W E args"

fun message_ok :: "engine \<Rightarrow> message \<Rightarrow> bool" where
  "message_ok E (Reg i path m) = (i \<noteq> 0 \<and> str_ok E path \<and> str_ok E m)"
| "message_ok E (Call_By_Id i path m args) = (i \<noteq> 0 \<and> args_ok E args)"
| "message_ok E (Reg_And_Call i path m args) = (i \<noteq> 0 \<and> str_ok E path \<and> str_ok E m \<and> args_ok E args)"

lemma uvarint_nonempty:
  assumes "wire_ok W"
  shows "w_uvarint W n \<noteq> []"
proof
  assume e: "w_uvarint W n = []"
  have "(n, reader_of (w_uvarint W (n + 1))) = (n + 1, reader_of [])"
    using wire_okD(3) [OF assms, of n "w_uvarint W (n + 1)"] wire_okD(3) [OF assms, of "n + 1" "[]"]
    by (simp add: e)
  then show False by simp
qed

definition names_target :: "(u32, msg_target) hash_map \<Rightarrow> u32 \<Rightarrow> string \<Rightarrow> string \<Rightarrow> bool" where
  "names_target ts i path m = (\<exists>t. hm_get ts i = Some t \<and> mt_path t = path \<and> mt_method t = m)"

text \<open>Opening each of the three: the targets it leaves, and the target it finds.\<close>

lemma open_reg:
  assumes "wire_ok W" "i \<noteq> 0" "str_ok E path" "str_ok E m"
  shows "fst (open_message W E s (reg_bytes W E i path m) st) = None"
    and "names_target (hm_sub (msg_targets (snd (open_message W E s (reg_bytes W E i path m) st))) s) i path m"
    and "j \<noteq> i \<Longrightarrow> hm_get (hm_sub (msg_targets (snd (open_message W E s (reg_bytes W E i path m) st))) s) j =
           hm_get (hm_sub (msg_targets st) s) j"
proof -
  have r: "r_uvarint W (reader_of (reg_bytes W E i path m)) =
      (0, reader_of (w_uvarint W i @ put_str W E path @ put_str W E m))"
    "get_str W E (reader_of (put_str W E m)) = (m, reader_of [])"
    using wire_okD(3) [OF assms(1)] str.reads_back_end [of W E m] assms by (simp_all add: reg_bytes_def)
  then show "fst (open_message W E s (reg_bytes W E i path m) st) = None"
    using assms by (simp add: open_message_def Let_def wire_simps)
  show "names_target (hm_sub (msg_targets (snd (open_message W E s (reg_bytes W E i path m) st))) s) i path m"
    using r assms by (auto simp: open_message_def Let_def wire_simps names_target_def split: option.split)
  show "hm_get (hm_sub (msg_targets (snd (open_message W E s (reg_bytes W E i path m) st))) s) j =
           hm_get (hm_sub (msg_targets st) s) j" if "j \<noteq> i"
    using r assms that by (simp add: open_message_def Let_def wire_simps)
qed

lemma open_call:
  assumes "wire_ok W" "i \<noteq> 0" "names_target (hm_sub (msg_targets st) s) i path m"
  shows "\<exists>t. open_message W E s (w_uvarint W i @ bs) st =
      (Some (i, t, reader_of bs), st\<lparr>msg_targets := hm_put s (hm_sub (msg_targets st) s) (msg_targets st)\<rparr>) \<and>
      mt_path t = path \<and> mt_method t = m"
  using assms by (auto simp: open_message_def Let_def wire_simps names_target_def)

lemma open_reg_call:
  assumes "wire_ok W" "i \<noteq> 0" "str_ok E path" "str_ok E m" "bs \<noteq> []"
  shows "\<exists>t st1. open_message W E s (reg_bytes W E i path m @ bs) st = (Some (i, t, reader_of bs), st1) \<and>
      mt_path t = path \<and> mt_method t = m \<and>
      names_target (hm_sub (msg_targets st1) s) i path m \<and>
      (\<forall>j. j \<noteq> i \<longrightarrow> hm_get (hm_sub (msg_targets st1) s) j = hm_get (hm_sub (msg_targets st) s) j)"
proof -
  have r: "r_uvarint W (reader_of (reg_bytes W E i path m @ bs)) =
      (0, reader_of (w_uvarint W i @ put_str W E path @ put_str W E m @ bs))"
    using wire_okD(3) [OF assms(1)] by (simp add: reg_bytes_def)
  show ?thesis
    using r assms by (auto simp: open_message_def Let_def wire_simps names_target_def split: option.split)
qed

subsection \<open>Ids name targets\<close>

definition colon_free :: "string \<Rightarrow> bool" where
  "colon_free m = (CHR '':'' \<notin> set m)"

lemma msg_key_inj:
  assumes "msg_key p m = msg_key p' m'" "colon_free m" "colon_free m'"
  shows "p = p' \<and> m = m'"
proof -
  have "takeWhile (\<lambda>c. c \<noteq> CHR '':'') (rev (msg_key p m)) = rev m" if "colon_free m" for p m
  proof -
    have "\<forall>c \<in> set (rev m). c \<noteq> CHR '':''" using that by (auto simp: colon_free_def)
    then show ?thesis by (auto simp: msg_key_def takeWhile_append)
  qed
  then have "m = m'" using assms by (metis rev_rev_ident)
  then show ?thesis using assms(1) by (simp add: msg_key_def)
qed

definition ids_ok :: "msg_end \<Rightarrow> bool" where
  "ids_ok a =
     ((\<forall>key i. hm_get (msg_ids a) key = Some i \<longrightarrow> i \<noteq> 0 \<and> i < msg_next_id a) \<and>
      (\<forall>key key' i. hm_get (msg_ids a) key = Some i \<longrightarrow> hm_get (msg_ids a) key' = Some i \<longrightarrow> key = key') \<and>
      msg_next_id a \<noteq> 0)"

lemma msg_id_for:
  assumes "ids_ok a" "unat (msg_next_id a) + 1 < 2 ^ 32"
  shows "ids_ok (snd (msg_id_for key a))"
    and "hm_get (msg_ids (snd (msg_id_for key a))) key = Some (fst (msg_id_for key a))"
    and "fst (msg_id_for key a) \<noteq> 0"
    and "hm_get (msg_ids a) key' = Some i \<Longrightarrow> hm_get (msg_ids (snd (msg_id_for key a))) key' = Some i"
    and "msg_registered (snd (msg_id_for key a)) = msg_registered a"
    and "unat (msg_next_id (snd (msg_id_for key a))) \<le> unat (msg_next_id a) + 1"
proof -
  have u: "unat (msg_next_id a + 1) = unat (msg_next_id a) + 1"
    using assms(2) by (simp add: unat_word_ariths take_bit_nat_eq_self)
  then have lt: "i < msg_next_id a \<Longrightarrow> i < msg_next_id a + 1" "msg_next_id a < msg_next_id a + 1"
      "msg_next_id a + 1 \<noteq> 0" for i
    by (simp_all add: word_less_nat_alt) (metis Suc_eq_plus1 nat.discI unat_0)
  show "ids_ok (snd (msg_id_for key a))"
    using assms(1) lt unfolding ids_ok_def msg_id_for_def
    by (auto simp: hm_get_put split: option.split if_splits)
  show "hm_get (msg_ids (snd (msg_id_for key a))) key = Some (fst (msg_id_for key a))"
    by (simp add: msg_id_for_def split: option.split)
  show "fst (msg_id_for key a) \<noteq> 0"
    using assms(1) by (auto simp: ids_ok_def msg_id_for_def split: option.split)
  show "hm_get (msg_ids (snd (msg_id_for key a))) key' = Some i" if "hm_get (msg_ids a) key' = Some i"
    using that by (auto simp: msg_id_for_def hm_get_put split: option.split)
  show "msg_registered (snd (msg_id_for key a)) = msg_registered a"
    by (simp add: msg_id_for_def split: option.split)
  show "unat (msg_next_id (snd (msg_id_for key a))) \<le> unat (msg_next_id a) + 1"
    by (simp add: msg_id_for_def u split: option.split)
qed

subsection \<open>Two ends and the core between them\<close>

type_synonym made_call = "string \<times> string \<times> variant list"

record netchan =
  nc_a :: msg_end
  nc_b :: msg_end
  nc_rel :: "bytes list"
  nc_unrel :: "bytes list"
  nc_got :: nat
  nc_acked :: nat
  nc_rel_sent :: "made_call option list"
  nc_unrel_sent :: "made_call list"
  nc_rel_log :: "(nat \<times> call option) list"
  nc_unrel_log :: "(nat \<times> nat \<times> call option) list"

definition netchan0 :: netchan where
  "netchan0 = \<lparr>nc_a = msg_end0, nc_b = msg_end0, nc_rel = [], nc_unrel = [], nc_got = 0, nc_acked = 0,
     nc_rel_sent = [], nc_unrel_sent = [], nc_rel_log = [], nc_unrel_log = []\<rparr>"

text \<open>An arrival happens at some moment of the receiver's, which has its own scene.\<close>

record tree_view =
  tr_in_tree :: "objid \<Rightarrow> rpc_object option"
  tr_at_path :: "string \<Rightarrow> rpc_object option"

datatype nc_event =
    Send peer string string "variant list" bool
  | Arrive_Reliable nat
  | Ack nat
  | Arrive_Unreliable nat nat

definition rel_of :: "queued_message list \<Rightarrow> bytes list" where
  "rel_of qs = concat (map (\<lambda>x. case x of Queue_Reliable b \<Rightarrow> [b] | _ \<Rightarrow> []) qs)"

definition unrel_of :: "queued_message list \<Rightarrow> bytes list" where
  "unrel_of qs = concat (map (\<lambda>x. case x of Queue_Unreliable b \<Rightarrow> [b] | _ \<Rightarrow> []) qs)"

text \<open>\<open>q\<close> is the peer the sender knows the receiver by, \<open>s\<close> the one the receiver knows the sender by. A
  send to another peer changes the sender's own state and puts nothing on this channel. The logs hold, beside
  each message of the channel, the call it was sent for (a registration, none), and for each arrival the
  moment it came at and the call \<open>deliver_message\<close> made of it.\<close>

fun nc_step ::
  "wire \<Rightarrow> engine \<Rightarrow> (nat \<Rightarrow> tree_view) \<Rightarrow> peer \<Rightarrow> peer \<Rightarrow> netchan \<Rightarrow> nc_event \<Rightarrow> netchan" where
  "nc_step W E scn q s c (Send peer path m args reliable) =
     (if peer = q then
        (case send_message W E peer path m args reliable (of_nat (length (nc_rel c))) (of_nat (nc_acked c)) (nc_a c) of
           (ok, qs, a) \<Rightarrow>
             let calls = (if ok \<and> reliable then [Some (path, m, args)] else [])
             in c\<lparr>nc_a := a, nc_rel := nc_rel c @ rel_of qs, nc_unrel := nc_unrel c @ unrel_of qs,
               nc_rel_sent := nc_rel_sent c @ replicate (length (rel_of qs) - length calls) None @ calls,
               nc_unrel_sent := nc_unrel_sent c @ (if ok \<and> \<not> reliable then [(path, m, args)] else [])\<rparr>)
      else c\<lparr>nc_a := snd (snd (send_message W E peer path m args reliable 0 0 (nc_a c)))\<rparr>)"
| "nc_step W E scn q s c (Arrive_Reliable now) =
     (if nc_got c < length (nc_rel c) then
        (case deliver_message W E (tr_in_tree (scn now)) (tr_at_path (scn now)) s (nc_rel c ! nc_got c) (nc_b c) of
           (made, b) \<Rightarrow> c\<lparr>nc_b := b, nc_got := Suc (nc_got c), nc_rel_log := nc_rel_log c @ [(now, made)]\<rparr>)
      else c)"
| "nc_step W E scn q s c (Ack n) =
     (if nc_acked c \<le> n \<and> n \<le> nc_got c then c\<lparr>nc_acked := n\<rparr> else c)"
| "nc_step W E scn q s c (Arrive_Unreliable j now) =
     (if j < length (nc_unrel c) then
        (case deliver_message W E (tr_in_tree (scn now)) (tr_at_path (scn now)) s (nc_unrel c ! j) (nc_b c) of
           (made, b) \<Rightarrow> c\<lparr>nc_b := b, nc_unrel_log := nc_unrel_log c @ [(j, now, made)]\<rparr>)
      else c)"

text \<open>The call a sent one is to make of a scene: on the node at its path, where there is one and its method is
  an RPC the sender may call.\<close>

definition call_due :: "engine \<Rightarrow> peer \<Rightarrow> tree_view \<Rightarrow> made_call \<Rightarrow> call option" where
  "call_due E s S x =
     (case x of (path, m, args) \<Rightarrow>
        Option.bind (tr_at_path S path) (\<lambda>n. Option.bind (rpc_method_config n m) (\<lambda>cfg.
          if rpc_permitted E cfg (ro_authority n) s
          then Some \<lparr>c_object = ro_id n, c_method = m, c_args = args, c_sender = s\<rparr> else None)))"

text \<open>Nodes come and go, but one that was at a path is at that path whenever it is in the tree.\<close>

definition nodes_stay :: "(nat \<Rightarrow> tree_view) \<Rightarrow> bool" where
  "nodes_stay scn =
     (\<forall>k k' path n n'. tr_at_path (scn k) path = Some n \<longrightarrow> tr_in_tree (scn k') (ro_id n) = Some n' \<longrightarrow>
        tr_at_path (scn k') path = Some n')"

text \<open>A target's cached object is one that was at its path.\<close>

definition cached_ok :: "(nat \<Rightarrow> tree_view) \<Rightarrow> peer \<Rightarrow> msg_end \<Rightarrow> bool" where
  "cached_ok scn s b =
     (\<forall>i t. hm_get (hm_sub (msg_targets b) s) i = Some t \<longrightarrow> mt_object t = 0 \<or>
        (\<exists>k n. tr_at_path (scn k) (mt_path t) = Some n \<and> ro_id n = mt_object t))"

text \<open>What a send relies on: strings the engine's UTF-8 restores, a method name with no colon (no
  GDScript name has one), arguments that can be carried, and counters that have not wrapped.\<close>

fun nc_ok :: "engine \<Rightarrow> netchan \<Rightarrow> nc_event \<Rightarrow> bool" where
  "nc_ok E c (Send peer path m args reliable) =
     (str_ok E path \<and> str_ok E m \<and> colon_free m \<and> args_ok E args \<and>
      unat (msg_next_id (nc_a c)) + 1 < 2 ^ 32 \<and> length (nc_rel c) + 2 < 2 ^ 64)"
| "nc_ok E c _ = True"

subsection \<open>The invariant\<close>

fun msg_call :: "message \<Rightarrow> made_call option" where
  "msg_call (Reg i path m) = None"
| "msg_call (Call_By_Id i path m args) = Some (path, m, args)"
| "msg_call (Reg_And_Call i path m args) = Some (path, m, args)"

fun msg_named :: "msg_end \<Rightarrow> message \<Rightarrow> bool" where
  "msg_named a (Reg i path m) = (hm_get (msg_ids a) (msg_key path m) = Some i \<and> colon_free m)"
| "msg_named a (Call_By_Id i path m args) = (hm_get (msg_ids a) (msg_key path m) = Some i \<and> colon_free m)"
| "msg_named a (Reg_And_Call i path m args) = (hm_get (msg_ids a) (msg_key path m) = Some i \<and> colon_free m)"

text \<open>A call by id follows its registration, \<open>n\<close> being how much of the reliable stream it may rely on.\<close>

fun follows :: "message list \<Rightarrow> nat \<Rightarrow> message \<Rightarrow> bool" where
  "follows rel n (Call_By_Id i path m args) = (\<exists>k < n. rel ! k = Reg i path m)"
| "follows rel n _ = True"

fun is_reg :: "message \<Rightarrow> bool" where
  "is_reg (Reg _ _ _) = True"
| "is_reg _ = False"

fun carries_reg :: "message \<Rightarrow> bool" where
  "carries_reg (Reg_And_Call _ _ _ _) = True"
| "carries_reg _ = False"

definition registered_ok :: "peer \<Rightarrow> msg_end \<Rightarrow> message list \<Rightarrow> bool" where
  "registered_ok q a rel =
     (\<forall>i k. hm_get (hm_sub (msg_registered a) q) i = Some k \<longrightarrow>
        unat k < length rel \<and> (\<exists>p m. rel ! unat k = Reg i p m))"

definition targets_know :: "peer \<Rightarrow> msg_end \<Rightarrow> message list \<Rightarrow> nat \<Rightarrow> bool" where
  "targets_know s b rel n =
     (\<forall>k < n. \<forall>i p m. rel ! k = Reg i p m \<longrightarrow> names_target (hm_sub (msg_targets b) s) i p m)"

text \<open>What the arrivals called against what they were sent for.\<close>

definition rel_due ::
  "engine \<Rightarrow> (nat \<Rightarrow> tree_view) \<Rightarrow> peer \<Rightarrow> (nat \<times> call option) list \<Rightarrow> made_call option list \<Rightarrow> bool" where
  "rel_due E scn s = list_all2 (\<lambda>(now, made) x. made = Option.bind x (call_due E s (scn now)))"

definition unrel_due ::
  "engine \<Rightarrow> (nat \<Rightarrow> tree_view) \<Rightarrow> peer \<Rightarrow> (nat \<times> nat \<times> call option) list \<Rightarrow> made_call list \<Rightarrow> bool" where
  "unrel_due E scn s got sent =
     (\<forall>(j, now, made) \<in> set got. j < length sent \<and> made = call_due E s (scn now) (sent ! j))"

lemma rel_due_snoc [simp]:
  "rel_due E scn s got sent \<Longrightarrow> rel_due E scn s (got @ [(now, Option.bind x (call_due E s (scn now)))]) (sent @ [x])"
  by (simp add: rel_due_def list_all2_appendI)

lemma unrel_due_append [simp]: "unrel_due E scn s got sent \<Longrightarrow> unrel_due E scn s got (sent @ xs)"
  by (fastforce simp: unrel_due_def nth_append)

lemma unrel_due_snoc:
  "unrel_due E scn s got sent \<Longrightarrow> j < length sent \<Longrightarrow>
     unrel_due E scn s (got @ [(j, now, call_due E s (scn now) (sent ! j))]) sent"
  by (auto simp: unrel_due_def)

definition ghost_ok ::
  "wire \<Rightarrow> engine \<Rightarrow> (nat \<Rightarrow> tree_view) \<Rightarrow> peer \<Rightarrow> peer \<Rightarrow> netchan \<Rightarrow> message list \<Rightarrow> message list \<Rightarrow> bool" where
  "ghost_ok W E scn q s c rel unrel =
     (ids_ok (nc_a c) \<and> nc_rel c = map (encode W E) rel \<and> nc_unrel c = map (encode W E) unrel \<and>
      (\<forall>g \<in> set rel \<union> set unrel. message_ok E g \<and> msg_named (nc_a c) g) \<and>
      (\<forall>g \<in> set rel. \<not> carries_reg g) \<and> (\<forall>g \<in> set unrel. \<not> is_reg g) \<and>
      (\<forall>j < length rel. follows rel j (rel ! j)) \<and> (\<forall>g \<in> set unrel. follows rel (nc_got c) g) \<and>
      registered_ok q (nc_a c) rel \<and> targets_know s (nc_b c) rel (nc_got c) \<and>
      nc_acked c \<le> nc_got c \<and> nc_got c \<le> length rel \<and> length rel < 2 ^ 64 \<and>
      nc_rel_sent c = map msg_call rel \<and> map Some (nc_unrel_sent c) = map msg_call unrel \<and>
      cached_ok scn s (nc_b c) \<and> rel_due E scn s (nc_rel_log c) (map msg_call (take (nc_got c) rel)) \<and>
      unrel_due E scn s (nc_unrel_log c) (nc_unrel_sent c))"

definition nc_inv :: "wire \<Rightarrow> engine \<Rightarrow> (nat \<Rightarrow> tree_view) \<Rightarrow> peer \<Rightarrow> peer \<Rightarrow> netchan \<Rightarrow> bool" where
  "nc_inv W E scn q s c =
     (wire_ok W \<and> engine_ok E \<and> nodes_stay scn \<and> (\<exists>rel unrel. ghost_ok W E scn q s c rel unrel))"

lemma named_unique:
  assumes "ids_ok a" "msg_named a (Reg i p m)" "msg_named a (Reg i p' m')"
  shows "p = p' \<and> m = m'"
proof -
  have "msg_key p m = msg_key p' m'"
    using assms unfolding ids_ok_def by (metis msg_named.simps(1))
  then show ?thesis using assms(2,3) by (intro msg_key_inj) simp_all
qed

lemma nc_inv0:
  "wire_ok W \<Longrightarrow> engine_ok E \<Longrightarrow> nodes_stay scn \<Longrightarrow> cached_ok scn s b \<Longrightarrow>
     nc_inv W E scn q s (netchan0\<lparr>nc_b := b\<rparr>)"
  unfolding nc_inv_def
  by (intro conjI exI [of _ "[]"])
    (simp_all add: ghost_ok_def netchan0_def msg_end0_def ids_ok_def registered_ok_def targets_know_def
      hm_sub_def rel_due_def unrel_due_def)

subsection \<open>Arrivals\<close>

text \<open>Delivering leaves every target naming what opening left it naming.\<close>

lemma open_finds:
  assumes "open_message W E s bs b = (Some (i, t, r), b1)"
  shows "hm_get (hm_sub (msg_targets b1) s) i = Some t"
  using assms by (auto simp: open_message_def Let_def split: prod.splits if_splits option.splits)

lemma deliver_names:
  "names_target (hm_sub (msg_targets (snd (deliver_message W E in_tree at_path s bs b))) s) j p m =
   names_target (hm_sub (msg_targets (snd (open_message W E s bs b))) s) j p m"
proof (cases "open_message W E s bs b")
  case (Pair res b1)
  show ?thesis
  proof (cases res)
    case None
    then show ?thesis by (simp add: deliver_message_def Pair)
  next
    case (Some x)
    obtain i t r where x: "x = (i, t, r)" by (cases x)
    have f: "hm_get (hm_sub (msg_targets b1) s) i = Some t"
      using Pair Some x by (intro open_finds [of W E s bs b i t r b1]) simp
    obtain t' where t': "msg_targets (snd (deliver_message W E in_tree at_path s bs b)) =
        hm_put s (hm_put i t' (hm_sub (msg_targets b1) s)) (msg_targets b1)"
        "mt_path t' = mt_path t" "mt_method t' = mt_method t"
      by (fastforce simp: deliver_message_def Pair Some x Let_def split_beta split: option.splits)
    show ?thesis
      using f by (auto simp: Pair t' names_target_def hm_get_put)
  qed
qed

definition target_known :: "peer \<Rightarrow> msg_end \<Rightarrow> message \<Rightarrow> bool" where
  "target_known s b g = (case g of Call_By_Id i p m args \<Rightarrow> names_target (hm_sub (msg_targets b) s) i p m | _ \<Rightarrow> True)"

lemma put_args_nonempty: "wire_ok W \<Longrightarrow> put_args W E args \<noteq> []"
  by (simp add: put_args_def uvarint_nonempty)

lemma read_args: "wire_ok W \<Longrightarrow> engine_ok E \<Longrightarrow> args_ok E args \<Longrightarrow>
    get_args W E (reader_of (put_args W E args)) = (args, reader_of [])"
  using get_put_args [of W E args "[]"] by simp

text \<open>Opening any message of the model finds the target it names with the reader at its arguments, and
  afterwards its registration holds and no other id's target has moved.\<close>

definition opens :: "wire \<Rightarrow> engine \<Rightarrow> peer \<Rightarrow> bytes \<Rightarrow> msg_end \<Rightarrow> made_call option \<Rightarrow> bool" where
  "opens W E s bs b x =
     (case x of
        None \<Rightarrow> fst (open_message W E s bs b) = None
      | Some (path, m, args) \<Rightarrow> (\<exists>i t r. fst (open_message W E s bs b) = Some (i, t, r) \<and> mt_path t = path \<and>
          mt_method t = m \<and> get_args W E r = (args, reader_of [])))"

lemma open_ghost:
  assumes ok: "wire_ok W" "engine_ok E" and g: "message_ok E g" "target_known s b g"
  shows "opens W E s (encode W E g) b (msg_call g)"
    and "names_target (hm_sub (msg_targets (snd (open_message W E s (encode W E g) b))) s) i p m =
      (case g of
         Reg j path me \<Rightarrow> (if i = j then p = path \<and> m = me else names_target (hm_sub (msg_targets b) s) i p m)
       | Reg_And_Call j path me args \<Rightarrow>
           (if i = j then p = path \<and> m = me else names_target (hm_sub (msg_targets b) s) i p m)
       | Call_By_Id j path me args \<Rightarrow> names_target (hm_sub (msg_targets b) s) i p m)"
proof -
  have same: "names_target ts j path me \<Longrightarrow> names_target ts j p m = (p = path \<and> m = me)" for ts j path me
    by (auto simp: names_target_def)
  have "opens W E s (encode W E g) b (msg_call g) \<and>
    names_target (hm_sub (msg_targets (snd (open_message W E s (encode W E g) b))) s) i p m =
      (case g of
         Reg j path me \<Rightarrow> (if i = j then p = path \<and> m = me else names_target (hm_sub (msg_targets b) s) i p m)
       | Reg_And_Call j path me args \<Rightarrow>
           (if i = j then p = path \<and> m = me else names_target (hm_sub (msg_targets b) s) i p m)
       | Call_By_Id j path me args \<Rightarrow> names_target (hm_sub (msg_targets b) s) i p m)"
  proof (cases g)
    case (Reg j path me)
    then have a: "j \<noteq> 0" "str_ok E path" "str_ok E me" using g(1) by simp_all
    show ?thesis
      using open_reg [OF ok(1) a, where s = s and st = b] same [of _ j path me]
      by (simp add: Reg opens_def names_target_def)
  next
    case (Call_By_Id j path me args)
    then have a: "j \<noteq> 0" "names_target (hm_sub (msg_targets b) s) j path me" "args_ok E args"
      using g by (simp_all add: target_known_def)
    obtain t where "open_message W E s (w_uvarint W j @ put_args W E args) b =
        (Some (j, t, reader_of (put_args W E args)),
         b\<lparr>msg_targets := hm_put s (hm_sub (msg_targets b) s) (msg_targets b)\<rparr>)"
      "mt_path t = path" "mt_method t = me"
      using open_call [OF ok(1) a(1,2), where bs = "put_args W E args" and E = E] by blast
    then show ?thesis
      using read_args [OF ok a(3)] by (simp add: Call_By_Id opens_def)
  next
    case (Reg_And_Call j path me args)
    then have a: "j \<noteq> 0" "str_ok E path" "str_ok E me" using g(1) by simp_all
    obtain t st1 where o: "open_message W E s (reg_bytes W E j path me @ put_args W E args) b =
          (Some (j, t, reader_of (put_args W E args)), st1)"
        "mt_path t = path" "mt_method t = me" "names_target (hm_sub (msg_targets st1) s) j path me"
        "\<forall>k. k \<noteq> j \<longrightarrow> hm_get (hm_sub (msg_targets st1) s) k = hm_get (hm_sub (msg_targets b) s) k"
      using open_reg_call [OF ok(1) a put_args_nonempty [OF ok(1)], where s = s and st = b] by blast
    then show ?thesis
      using same [OF o(4)] read_args [OF ok, of args] g(1)
      by (simp add: Reg_And_Call opens_def) (simp add: names_target_def)
  qed
  then show "opens W E s (encode W E g) b (msg_call g)"
    and "names_target (hm_sub (msg_targets (snd (open_message W E s (encode W E g) b))) s) i p m =
      (case g of
         Reg j path me \<Rightarrow> (if i = j then p = path \<and> m = me else names_target (hm_sub (msg_targets b) s) i p m)
       | Reg_And_Call j path me args \<Rightarrow>
           (if i = j then p = path \<and> m = me else names_target (hm_sub (msg_targets b) s) i p m)
       | Call_By_Id j path me args \<Rightarrow> names_target (hm_sub (msg_targets b) s) i p m)"
    by blast+
qed

lemma names_kept:
  assumes "wire_ok W" "engine_ok E" "ids_ok a" "message_ok E g" "msg_named a g" "target_known s b g"
    and "msg_named a (Reg i p m)" "names_target (hm_sub (msg_targets b) s) i p m"
  shows "names_target (hm_sub (msg_targets (snd (deliver_message W E in_tree at_path s (encode W E g) b))) s) i p m"
  unfolding deliver_names open_ghost(2) [OF assms(1,2,4,6)]
  using assms(5,8) named_unique [OF assms(3,7)]
  by (cases g) auto

text \<open>Whatever the bytes, a delivery keeps the cached objects honest; and it makes the call that is due.\<close>

lemma open_cached:
  assumes "cached_ok scn s b"
  shows "cached_ok scn s (snd (open_message W E s bs b))"
  using assms by (auto simp: open_message_def Let_def cached_ok_def hm_get_put split: prod.splits if_splits option.splits)

lemma deliver_cached:
  assumes "cached_ok scn s b"
  shows "cached_ok scn s (snd (deliver_message W E (tr_in_tree (scn now)) (tr_at_path (scn now)) s bs b))"
proof (cases "open_message W E s bs b")
  case (Pair res b1)
  have b1: "cached_ok scn s b1" using open_cached [OF assms, of W E bs] Pair by simp
  show ?thesis
  proof (cases res)
    case None
    then show ?thesis using b1 by (simp add: deliver_message_def Pair)
  next
    case (Some x)
    obtain i t r where x: "x = (i, t, r)" by (cases x)
    have f: "hm_get (hm_sub (msg_targets b1) s) i = Some t"
      using Pair Some x by (intro open_finds [of W E s bs b i t r b1]) simp
    obtain t' where t': "msg_targets (snd (deliver_message W E (tr_in_tree (scn now)) (tr_at_path (scn now)) s bs b)) =
        hm_put s (hm_put i t' (hm_sub (msg_targets b1) s)) (msg_targets b1)"
        "mt_path t' = mt_path t" "mt_object t' = mt_object t \<or> mt_object t' = 0 \<or>
          (\<exists>n. tr_at_path (scn now) (mt_path t) = Some n \<and> ro_id n = mt_object t')"
      by (fastforce simp: deliver_message_def Pair Some x Let_def split_beta split: option.splits)
    have "mt_object t = 0 \<or> (\<exists>k n. tr_at_path (scn k) (mt_path t) = Some n \<and> ro_id n = mt_object t)"
      using b1 f unfolding cached_ok_def by blast
    then show ?thesis using b1 t' unfolding cached_ok_def by (auto simp: hm_get_put split: if_splits)
  qed
qed

lemma deliver_due:
  assumes "opens W E s bs b x" "nodes_stay scn" "cached_ok scn s b"
  shows "fst (deliver_message W E (tr_in_tree (scn now)) (tr_at_path (scn now)) s bs b) =
    Option.bind x (call_due E s (scn now))"
proof (cases x)
  case None
  then show ?thesis
    using assms(1) by (cases "open_message W E s bs b") (simp add: opens_def deliver_message_def)
next
  case (Some y)
  obtain i t r b1 where o: "open_message W E s bs b = (Some (i, t, r), b1)"
    and y: "y = (mt_path t, mt_method t, fst (get_args W E r))" "\<not> rd_failed (snd (get_args W E r))"
    using assms(1) Some by (cases "open_message W E s bs b") (auto simp: opens_def reader_of_def split: prod.splits)
  have "hm_get (hm_sub (msg_targets b1) s) i = Some t" by (rule open_finds [OF o])
  then have c: "mt_object t = 0 \<or> (\<exists>k n. tr_at_path (scn k) (mt_path t) = Some n \<and> ro_id n = mt_object t)"
    using open_cached [OF assms(3), of W E bs] o unfolding cached_ok_def by auto
  have stay: "tr_at_path (scn now) (mt_path t) = Some n"
    if "mt_object t \<noteq> 0" "tr_in_tree (scn now) (mt_object t) = Some n" for n
    using c that assms(2) unfolding nodes_stay_def by metis
  show ?thesis
  proof (cases "if mt_object t \<noteq> 0 then tr_in_tree (scn now) (mt_object t) else None")
    case None
    then show ?thesis
      using y by (auto simp: deliver_message_def o Some call_due_def Let_def split_beta split: option.splits if_splits)
  next
    case (Some n)
    then have "tr_at_path (scn now) (mt_path t) = Some n" using stay by (auto split: if_splits)
    then show ?thesis
      using y Some by (auto simp: deliver_message_def o \<open>x = Some y\<close> call_due_def Let_def split_beta split: option.splits if_splits)
  qed
qed

lemma known_target:
  assumes "follows rel n g" "targets_know s b rel n"
  shows "target_known s b g"
  using assms by (cases g) (auto simp: target_known_def targets_know_def)

lemma inv_arrive_unreliable:
  assumes "wire_ok W" "engine_ok E" "ghost_ok W E scn q s c rel unrel" "nodes_stay scn"
  shows "ghost_ok W E scn q s (nc_step W E scn q s c (Arrive_Unreliable j now)) rel unrel"
proof (cases "j < length unrel")
  case True
  define g where "g = unrel ! j"
  let ?d = "deliver_message W E (tr_in_tree (scn now)) (tr_at_path (scn now)) s (encode W E g) (nc_b c)"
  have g: "g \<in> set unrel" using True by (simp add: g_def)
  note I = assms(3) [unfolded ghost_ok_def]
  have gm: "message_ok E g" "msg_named (nc_a c) g" "target_known s (nc_b c) g"
    using I g known_target by blast+
  have e: "nc_unrel c ! j = encode W E g" using I True by (simp add: g_def)
  have "targets_know s (snd (?d)) rel (nc_got c)"
    unfolding targets_know_def
  proof (intro allI impI)
    fix k i p m
    assume k: "k < nc_got c" "rel ! k = Reg i p m"
    then have "k < length rel" using I by linarith
    then have "Reg i p m \<in> set rel" unfolding k(2) [symmetric] by (rule nth_mem)
    then have "msg_named (nc_a c) (Reg i p m)" using I by blast
    then show "names_target (hm_sub (msg_targets (snd (?d))) s) i p m"
      using I k names_kept [OF assms(1,2) _ gm] by (simp add: targets_know_def)
  qed
  moreover have due: "fst ?d = Option.bind (msg_call g) (call_due E s (scn now))"
    using I by (intro deliver_due [OF open_ghost(1) [OF assms(1,2) gm(1,3)] assms(4)]) simp
  moreover have "cached_ok scn s (snd ?d)" using I by (intro deliver_cached) simp
  moreover have step: "nc_step W E scn q s c (Arrive_Unreliable j now) =
      c\<lparr>nc_b := snd ?d, nc_unrel_log := nc_unrel_log c @ [(j, now, fst ?d)]\<rparr>"
    using I True e by (simp add: split_beta)
  moreover have "j < length (nc_unrel_sent c) \<and> msg_call g = Some (nc_unrel_sent c ! j)"
  proof -
    have "map Some (nc_unrel_sent c) = map msg_call unrel" using I by simp
    then have len: "length (nc_unrel_sent c) = length unrel" "map Some (nc_unrel_sent c) ! j = map msg_call unrel ! j"
      by (metis length_map, simp only:)
    show ?thesis using True len(2) unfolding g_def by (simp add: len(1))
  qed
  ultimately show ?thesis
    using I unrel_due_snoc [of E scn s "nc_unrel_log c" "nc_unrel_sent c" j now] unfolding step ghost_ok_def by simp
next
  case False
  then have "\<not> j < length (nc_unrel c)" using assms(3) by (simp add: ghost_ok_def)
  then show ?thesis using assms(3) by simp
qed

lemma inv_arrive_reliable:
  assumes "wire_ok W" "engine_ok E" "ghost_ok W E scn q s c rel unrel" "nodes_stay scn"
  shows "ghost_ok W E scn q s (nc_step W E scn q s c (Arrive_Reliable now)) rel unrel"
proof (cases "nc_got c < length rel")
  case True
  define g where "g = rel ! nc_got c"
  let ?d = "deliver_message W E (tr_in_tree (scn now)) (tr_at_path (scn now)) s (encode W E g) (nc_b c)"
  have g: "g \<in> set rel" using True by (simp add: g_def)
  note I = assms(3) [unfolded ghost_ok_def]
  have f: "follows rel (nc_got c) g" using I True by (simp add: g_def)
  have gm: "message_ok E g" "msg_named (nc_a c) g" "target_known s (nc_b c) g"
    using I g known_target [OF f] by blast+
  have e: "nc_rel c ! nc_got c = encode W E g" using I True by (simp add: g_def)
  have "targets_know s (snd (?d)) rel (Suc (nc_got c))"
    unfolding targets_know_def
  proof (intro allI impI)
    fix k i p m
    assume k: "k < Suc (nc_got c)" "rel ! k = Reg i p m"
    then have "k < length rel" using True by simp
    then have "Reg i p m \<in> set rel" unfolding k(2) [symmetric] by (rule nth_mem)
    then have n: "msg_named (nc_a c) (Reg i p m)" using I by blast
    show "names_target (hm_sub (msg_targets (snd (?d))) s) i p m"
    proof (cases "k = nc_got c")
      case True
      then have "g = Reg i p m" using k(2) by (simp add: g_def)
      then show ?thesis
        using open_ghost(2) [OF assms(1,2) gm(1,3), of i p m] by (simp add: deliver_names)
    next
      case False
      then have "k < nc_got c" using k(1) by simp
      then have "names_target (hm_sub (msg_targets (nc_b c)) s) i p m"
        using I k(2) unfolding targets_know_def by blast
      then show ?thesis using I n by (intro names_kept [OF assms(1,2) _ gm]) simp_all
    qed
  qed
  moreover have "follows rel (Suc (nc_got c)) h" if "follows rel (nc_got c) h" for h
    using that by (cases h) (auto intro: less_SucI)
  moreover have due: "fst ?d = Option.bind (msg_call g) (call_due E s (scn now))"
    using I by (intro deliver_due [OF open_ghost(1) [OF assms(1,2) gm(1,3)] assms(4)]) simp
  moreover have "cached_ok scn s (snd ?d)" using I by (intro deliver_cached) simp
  moreover have step: "nc_step W E scn q s c (Arrive_Reliable now) =
      c\<lparr>nc_b := snd ?d, nc_got := Suc (nc_got c), nc_rel_log := nc_rel_log c @ [(now, fst ?d)]\<rparr>"
    using I True e by (simp add: split_beta)
  moreover have "take (Suc (nc_got c)) rel = take (nc_got c) rel @ [g]"
    using True by (simp add: g_def take_Suc_conv_app_nth)
  ultimately show ?thesis
    using I True unfolding step ghost_ok_def by simp
next
  case False
  then have "\<not> nc_got c < length (nc_rel c)" using assms(3) by (simp add: ghost_ok_def)
  then show ?thesis using assms(3) by simp
qed

lemma inv_ack:
  assumes "ghost_ok W E scn q s c rel unrel"
  shows "ghost_ok W E scn q s (nc_step W E scn q s c (Ack n)) rel unrel"
proof (cases "nc_acked c \<le> n \<and> n \<le> nc_got c")
  case True
  then have "nc_step W E scn q s c (Ack n) = c\<lparr>nc_acked := n\<rparr>" by simp
  then show ?thesis using assms True unfolding ghost_ok_def by simp
qed (use assms in auto)

subsection \<open>Sends\<close>

text \<open>What \<open>send_message\<close> queues and keeps, in the model's messages.\<close>

lemma send_ghost:
  assumes "send_message W E peer path m args reliable queued delivered a = (ok, qs, a')"
    and i: "i = fst (msg_id_for (msg_key path m) a)" and a1: "a1 = snd (msg_id_for (msg_key path m) a)"
    and r: "reg_at = hm_get (hm_sub (msg_registered a1) peer) i"
    and g: "g = (if reliable \<or> (case reg_at of Some k \<Rightarrow> k < delivered | None \<Rightarrow> False)
                 then Call_By_Id i path m args else Reg_And_Call i path m args)"
    and regs: "regs = (if ok \<and> reg_at = None then [Reg i path m] else [])"
  shows "rel_of qs = map (encode W E) (regs @ (if ok \<and> reliable then [g] else []))"
    and "unrel_of qs = map (encode W E) (if ok \<and> \<not> reliable then [g] else [])"
    and "msg_ids a' = msg_ids a1" and "msg_next_id a' = msg_next_id a1"
    and "hm_sub (msg_registered a') p =
      (if p = peer \<and> ok \<and> reg_at = None then hm_put i queued (hm_sub (msg_registered a1) peer)
       else hm_sub (msg_registered a1) p)"
  using assms
  by (auto simp: send_message_def Let_def split_beta rel_of_def unrel_of_def split: if_splits option.splits)

lemma ids_ok_cong: "msg_ids a = msg_ids b \<Longrightarrow> msg_next_id a = msg_next_id b \<Longrightarrow> ids_ok a = ids_ok b"
  by (simp add: ids_ok_def)

lemma named_mono:
  "msg_named a g \<Longrightarrow> (\<And>key i. hm_get (msg_ids a) key = Some i \<Longrightarrow> hm_get (msg_ids b) key = Some i) \<Longrightarrow>
     msg_named b g"
  by (cases g) simp_all

lemma follows_append: "follows rel n g \<Longrightarrow> n \<le> length rel \<Longrightarrow> follows (rel @ xs) n g"
  by (cases g) (fastforce simp: nth_append)+

lemma targets_know_append: "targets_know s b rel n \<Longrightarrow> n \<le> length rel \<Longrightarrow> targets_know s b (rel @ xs) n"
  by (simp add: targets_know_def nth_append)

lemma inv_send_other:
  assumes "ghost_ok W E scn q s c rel unrel" "peer \<noteq> q" "nc_ok E c (Send peer path m args reliable)"
  shows "ghost_ok W E scn q s (nc_step W E scn q s c (Send peer path m args reliable)) rel unrel"
proof -
  obtain ok qs a' where r: "send_message W E peer path m args reliable 0 0 (nc_a c) = (ok, qs, a')"
    by (cases "send_message W E peer path m args reliable 0 0 (nc_a c)")
  note G = send_ghost [OF r refl refl refl refl refl]
  note I = assms(1) [unfolded ghost_ok_def]
  have fresh: "ids_ok (nc_a c)" "unat (msg_next_id (nc_a c)) + 1 < 2 ^ 32"
    using I assms(3) by simp_all
  note M = msg_id_for [OF fresh, where key = "msg_key path m"]
  have "ids_ok a'" using M(1) ids_ok_cong [OF G(3,4)] by simp
  moreover have "msg_named a' h" if "msg_named (nc_a c) h" for h
    by (rule named_mono [OF that]) (simp add: G(3) M(4))
  then have "\<forall>g \<in> set rel \<union> set unrel. message_ok E g \<and> msg_named a' g"
    using I by blast
  moreover have "registered_ok q a' rel"
    using I assms(2) by (simp add: registered_ok_def G(5) M(5))
  ultimately show ?thesis
    using I assms(2) r by (simp add: ghost_ok_def)
qed

lemma inv_send:
  assumes I: "ghost_ok W E scn q s c rel unrel" and ok: "nc_ok E c (Send q path m args reliable)"
  shows "\<exists>rel' unrel'. ghost_ok W E scn q s
    (nc_step W E scn q s c (Send q path m args reliable)) rel' unrel'"
proof -
  define queued delivered :: u64 where "queued = of_nat (length (nc_rel c))" and "delivered = of_nat (nc_acked c)"
  obtain sent qs a' where r: "send_message W E q path m args reliable queued delivered (nc_a c) = (sent, qs, a')"
    by (cases "send_message W E q path m args reliable queued delivered (nc_a c)")
  define i a1 where "i = fst (msg_id_for (msg_key path m) (nc_a c))" and "a1 = snd (msg_id_for (msg_key path m) (nc_a c))"
  define reg_at where "reg_at = hm_get (hm_sub (msg_registered a1) q) i"
  define g where "g = (if reliable \<or> (case reg_at of Some k \<Rightarrow> k < delivered | None \<Rightarrow> False)
      then Call_By_Id i path m args else Reg_And_Call i path m args)"
  define regs where "regs = (if sent \<and> reg_at = None then [Reg i path m] else [])"
  note G = send_ghost [OF r i_def a1_def reg_at_def g_def regs_def]
  have fresh: "ids_ok (nc_a c)" "unat (msg_next_id (nc_a c)) + 1 < 2 ^ 32"
    using I ok by (simp_all add: ghost_ok_def)
  note M = msg_id_for [OF fresh, where key = "msg_key path m", folded i_def a1_def]
  define rel' where "rel' = rel @ regs @ (if sent \<and> reliable then [g] else [])"
  define unrel' where "unrel' = unrel @ (if sent \<and> \<not> reliable then [g] else [])"
  have len: "length (nc_rel c) = length rel" "nc_got c \<le> length rel" "nc_acked c \<le> nc_got c"
      "length rel + 2 < 2 ^ 64"
    using I ok by (auto simp: ghost_ok_def)
  have idok: "ids_ok a'" using M(1) ids_ok_cong [OF G(3,4)] by simp
  have mono: "msg_named a' h" if "msg_named (nc_a c) h" for h
    by (rule named_mono [OF that]) (simp add: G(3) M(4))
  have new: "message_ok E h \<and> msg_named a' h" if "h \<in> set regs \<union> {g}" for h
    using that M(2,3) ok by (auto simp: regs_def g_def G(3) split: if_splits)
  have named: "\<forall>h \<in> set rel' \<union> set unrel'. message_ok E h \<and> msg_named a' h"
    using I mono new by (auto simp: rel'_def unrel'_def ghost_ok_def)
  \<comment> \<open>a call by id follows its registration\<close>
  have reg: "unat k < length rel \<and> rel ! unat k = Reg i path m" if k: "reg_at = Some k" for k
  proof -
    have "registered_ok q (nc_a c) rel" using I by (simp add: ghost_ok_def)
    moreover have "hm_get (hm_sub (msg_registered (nc_a c)) q) i = Some k"
      using k by (simp add: reg_at_def M(5))
    ultimately obtain p me where *: "unat k < length rel" "rel ! unat k = Reg i p me"
      unfolding registered_ok_def by blast
    then have "Reg i p me \<in> set rel" by (metis nth_mem)
    then have "Reg i p me \<in> set rel' \<union> set unrel'" by (simp add: rel'_def)
    then have "msg_named a' (Reg i p me)" using named by blast
    moreover have "msg_named a' (Reg i path m)" using M(2) ok by (simp add: G(3))
    ultimately show ?thesis using * named_unique [OF idok] by blast
  qed
  have follow: "follows (rel @ regs) (length rel + length regs) g" if "sent"
    using reg that by (cases reg_at) (force simp: g_def regs_def nth_append)+
  have follow_got: "follows rel' (nc_got c) g" if "sent" "\<not> reliable"
  proof (cases "\<exists>k. reg_at = Some k \<and> k < delivered")
    case True
    then obtain k where k: "reg_at = Some k" "k < delivered" by blast
    have "unat delivered = nc_acked c"
      using len by (simp add: delivered_def unat_of_nat take_bit_nat_eq_self)
    then have "unat k < nc_got c" using k(2) len by (simp add: word_less_nat_alt)
    moreover have "rel' ! unat k = Reg i path m"
      using reg [OF k(1)] by (simp add: rel'_def nth_append)
    moreover have "g = Call_By_Id i path m args" by (simp add: g_def k)
    ultimately show ?thesis by auto
  next
    case False
    then show ?thesis using that by (auto simp: g_def split: option.splits)
  qed
  have rel_follows: "\<forall>j < length rel'. follows rel' j (rel' ! j)"
  proof (intro allI impI)
    fix j assume j: "j < length rel'"
    consider "j < length rel" | "length rel \<le> j" "j < length rel + length regs"
      | "j = length rel + length regs" "sent" "reliable"
      using j by (cases "j < length rel"; cases "j < length rel + length regs")
        (auto simp: rel'_def not_less split: if_splits)
    then show "follows rel' j (rel' ! j)"
    proof cases
      case 1
      then show ?thesis
        using I by (auto simp: rel'_def nth_append ghost_ok_def intro!: follows_append)
    next
      case 2
      then have "rel' ! j = Reg i path m" by (auto simp: rel'_def regs_def nth_append split: if_splits)
      then show ?thesis by simp
    next
      case 3
      then have "rel' ! j = g" by (simp add: rel'_def nth_append)
      then show ?thesis
        using follows_append [OF follow, of "[g]"] 3 by (simp add: rel'_def)
    qed
  qed
  have unrel_follows: "\<forall>h \<in> set unrel'. follows rel' (nc_got c) h"
    using I follow_got len by (auto simp: unrel'_def rel'_def ghost_ok_def intro: follows_append split: if_splits)
  have reg_ok: "registered_ok q a' rel'"
  proof -
    have "unat queued = length rel"
      using len by (simp add: queued_def unat_of_nat take_bit_nat_eq_self)
    moreover have "unat k < length rel' \<and> (\<exists>p m. rel' ! unat k = Reg j p m)"
      if k: "hm_get (hm_sub (msg_registered (nc_a c)) q) j = Some k" for j k
    proof -
      have "registered_ok q (nc_a c) rel" using I by (simp add: ghost_ok_def)
      then have "unat k < length rel \<and> (\<exists>p m. rel ! unat k = Reg j p m)"
        using k unfolding registered_ok_def by blast
      then show ?thesis by (simp add: rel'_def nth_append)
    qed
    moreover have "length rel < length rel' \<and> rel' ! length rel = Reg i path m" if "sent" "reg_at = None"
      using that by (simp add: rel'_def regs_def nth_append)
    ultimately show ?thesis
      unfolding registered_ok_def G(5) M(5) by (auto simp: hm_get_put split: if_splits)
  qed
  have kinds: "\<forall>h \<in> set rel'. \<not> carries_reg h" "\<forall>h \<in> set unrel'. \<not> is_reg h"
    using I by (auto simp: rel'_def unrel'_def regs_def g_def ghost_ok_def split: if_splits)
  have calls: "map msg_call regs = replicate (length regs) None" "msg_call g = Some (path, m, args)"
    by (simp_all add: regs_def g_def)
  have "ghost_ok W E scn q s (nc_step W E scn q s c (Send q path m args reliable)) rel' unrel'"
    using I idok named kinds rel_follows unrel_follows reg_ok len r [unfolded queued_def delivered_def]
      targets_know_append [of s "nc_b c" rel "nc_got c"]
    by (simp add: ghost_ok_def G(1,2)) (simp add: rel'_def unrel'_def calls regs_def subset_insertI2)
  then show ?thesis by blast
qed

lemma nc_inv_step:
  assumes "nc_inv W E scn q s c" "nc_ok E c e"
  shows "nc_inv W E scn q s (nc_step W E scn q s c e)"
proof -
  obtain rel unrel where I: "wire_ok W" "engine_ok E" "ghost_ok W E scn q s c rel unrel" "nodes_stay scn"
    using assms(1) by (auto simp: nc_inv_def)
  show ?thesis
  proof (cases e)
    case (Send peer path m args reliable)
    then show ?thesis
      using I assms(2) inv_send [OF I(3)] inv_send_other [OF I(3)]
      by (cases "peer = q") (simp_all only: nc_inv_def, blast+)
  next
    case (Arrive_Reliable now)
    then show ?thesis using I inv_arrive_reliable [OF I] unfolding nc_inv_def by blast
  next
    case (Ack n)
    then show ?thesis using I inv_ack [OF I(3)] unfolding nc_inv_def by blast
  next
    case (Arrive_Unreliable j now)
    then show ?thesis using I inv_arrive_unreliable [OF I] unfolding nc_inv_def by blast
  qed
qed

interpretation session: machine "nc_step W E scn q s" "nc_ok E" "nc_inv W E scn q s"
  for W E scn q s
  by unfold_locales (rule nc_inv_step)

subsection \<open>Runs short enough for the counters\<close>

fun event_ok :: "engine \<Rightarrow> nc_event \<Rightarrow> bool" where
  "event_ok E (Send peer path m args reliable) =
     (str_ok E path \<and> str_ok E m \<and> colon_free m \<and> args_ok E args)"
| "event_ok E _ = True"

lemma next_id_bound:
  "unat (msg_next_id a) + 1 < 2 ^ 32 \<Longrightarrow> unat (msg_next_id (snd (msg_id_for key a))) \<le> unat (msg_next_id a) + 1"
  by (simp add: msg_id_for_def unat_word_ariths take_bit_nat_eq_self split: option.split)

lemma step_bounds:
  assumes "unat (msg_next_id (nc_a c)) + 1 < 2 ^ 32"
  shows "unat (msg_next_id (nc_a (nc_step W E scn q s c e))) \<le> unat (msg_next_id (nc_a c)) + 1"
    and "length (nc_rel (nc_step W E scn q s c e)) \<le> length (nc_rel c) + 2"
proof -
  have "unat (msg_next_id a') \<le> unat (msg_next_id (nc_a c)) + 1 \<and> length (rel_of qs) \<le> 2"
    if "send_message W E peer path m args reliable x y (nc_a c) = (ok, qs, a')"
    for peer path m args reliable x y ok qs a'
    using next_id_bound [OF assms] send_ghost(1,4) [OF that refl refl refl refl refl] by simp
  then show "unat (msg_next_id (nc_a (nc_step W E scn q s c e))) \<le> unat (msg_next_id (nc_a c)) + 1"
    and "length (nc_rel (nc_step W E scn q s c e)) \<le> length (nc_rel c) + 2"
    by (cases e; simp add: Let_def split: prod.split; metis prod.collapse)+
qed

lemma short_run_ok:
  "list_all (event_ok E) es \<Longrightarrow> unat (msg_next_id (nc_a c)) + length es < 2 ^ 32 \<Longrightarrow>
     length (nc_rel c) + 2 * length es < 2 ^ 64 \<Longrightarrow>
     run_ok (nc_step W E scn q s) (nc_ok E) c es"
proof (induction es arbitrary: c)
  case (Cons e es)
  have n: "unat (msg_next_id (nc_a c)) + 1 < 2 ^ 32" using Cons.prems(2) by simp
  have "nc_ok E c e" using Cons.prems by (cases e) simp_all
  then show ?case
    using Cons.IH [of "nc_step W E scn q s c e"] Cons.prems
      step_bounds [OF n, of W E scn q s e] by simp
qed simp

subsection \<open>Properties\<close>

text \<open>The calls a run makes to the peer \<open>q\<close>, reliable or not.\<close>

definition calls_sent :: "peer \<Rightarrow> bool \<Rightarrow> nc_event list \<Rightarrow> made_call list" where
  "calls_sent q rel es =
     concat (map (\<lambda>e. case e of
       Send peer path m args reliable \<Rightarrow> if peer = q \<and> reliable = rel then [(path, m, args)] else [] | _ \<Rightarrow> []) es)"

definition calls_in :: "made_call option list \<Rightarrow> made_call list" where
  "calls_in xs = concat (map (\<lambda>x. case x of None \<Rightarrow> [] | Some y \<Rightarrow> [y]) xs)"

lemma calls_in_simps [simp]:
  "calls_in [] = []" "calls_in (xs @ ys) = calls_in xs @ calls_in ys" "calls_in (replicate n None) = []"
  "calls_in [Some x] = [x]"
  by (simp_all add: calls_in_def)

lemma send_reliable_taken: "fst (send_message W E peer path m args True queued delivered a)"
  by (simp add: send_message_def split_beta Let_def)

lemma step_sent:
  "calls_in (nc_rel_sent (nc_step W E scn q s c e)) = calls_in (nc_rel_sent c) @ calls_sent q True [e]"
  "set (nc_unrel_sent (nc_step W E scn q s c e)) \<subseteq> set (nc_unrel_sent c) \<union> set (calls_sent q False [e])"
proof -
  have "calls_in (nc_rel_sent (nc_step W E scn q s c e)) = calls_in (nc_rel_sent c) @ calls_sent q True [e] \<and>
    set (nc_unrel_sent (nc_step W E scn q s c e)) \<subseteq> set (nc_unrel_sent c) \<union> set (calls_sent q False [e])"
  proof (cases e)
    case (Send peer path m args reliable)
    then show ?thesis
      by (cases reliable) (auto simp: split_beta Let_def calls_sent_def send_reliable_taken)
  qed (simp_all add: calls_sent_def split_beta)
  then show "calls_in (nc_rel_sent (nc_step W E scn q s c e)) = calls_in (nc_rel_sent c) @ calls_sent q True [e]"
    "set (nc_unrel_sent (nc_step W E scn q s c e)) \<subseteq> set (nc_unrel_sent c) \<union> set (calls_sent q False [e])"
    by blast+
qed

lemma run_sent:
  "calls_in (nc_rel_sent (run (nc_step W E scn q s) c es)) = calls_in (nc_rel_sent c) @ calls_sent q True es"
  "set (nc_unrel_sent (run (nc_step W E scn q s) c es)) \<subseteq> set (nc_unrel_sent c) \<union> set (calls_sent q False es)"
proof (induction es arbitrary: c)
  case Nil
  { case 1 show ?case by (simp add: calls_sent_def) next case 2 show ?case by simp }
next
  case (Cons e es)
  have "calls_sent q r (e # es) = calls_sent q r [e] @ calls_sent q r es" for r by (simp add: calls_sent_def)
  note split = this
  { case 1 show ?case using Cons.IH(1) by (simp add: step_sent(1) split [of True]) next
    case 2 show ?case using Cons.IH(2) [of "nc_step W E scn q s c e"] step_sent(2) [of W E scn q s c e]
      unfolding split [of False] by (simp only: run.simps set_append) blast }
qed

text \<open>C36: calls on the netchan arrive where they were made. Over any run of the two ends (calls to any
  target of any peer, reliable or not, and the core's deliveries and acks in any order, with unreliable
  messages late, repeated or lost), with nodes freed and spawned between the deliveries but none renamed or
  moved, and whatever honest targets the receiver still has from before: the reliable stream
  carries every reliable call made, in order, among its registrations; what \<open>_deliver_message\<close> calls of
  the messages that have arrived is, one for one and in order, the call each was sent for, on the node at its path at
  that moment, with its method, its arguments and its sender, and nothing where there is no such node, its
  method is no RPC, or the sender may not call it. Each unreliable message that arrives makes, so, the call it was sent for,
  though an id travels for the target.\<close>

theorem calls_arrive_at_their_target:
  assumes "wire_ok W" "engine_ok E" "list_all (event_ok E) es" "length es < 2 ^ 31"
    and "nodes_stay scn" "cached_ok scn s b"
  shows "let c = run (nc_step W E scn q s) (netchan0\<lparr>nc_b := b\<rparr>) es in
     length (nc_rel_sent c) = length (nc_rel c) \<and> calls_in (nc_rel_sent c) = calls_sent q True es \<and>
     list_all2 (\<lambda>(now, made) x. made = Option.bind x (call_due E s (scn now)))
       (nc_rel_log c) (take (nc_got c) (nc_rel_sent c)) \<and>
     set (nc_unrel_sent c) \<subseteq> set (calls_sent q False es) \<and>
     (\<forall>(j, now, made) \<in> set (nc_unrel_log c). j < length (nc_unrel_sent c) \<and>
        made = call_due E s (scn now) (nc_unrel_sent c ! j))"
proof -
  define c where "c = run (nc_step W E scn q s) (netchan0\<lparr>nc_b := b\<rparr>) es"
  have "nc_inv W E scn q s c"
    unfolding c_def using assms(3,4)
    by (intro session.inv_run [OF nc_inv0 [OF assms(1,2,5,6)]] short_run_ok)
      (simp_all add: netchan0_def msg_end0_def)
  then obtain rel unrel where "ghost_ok W E scn q s c rel unrel" by (auto simp: nc_inv_def)
  moreover have "calls_in (nc_rel_sent c) = calls_sent q True es" "set (nc_unrel_sent c) \<subseteq> set (calls_sent q False es)"
    using run_sent [of W E scn q s "netchan0\<lparr>nc_b := b\<rparr>" es] by (simp_all add: c_def netchan0_def calls_in_def)
  ultimately show ?thesis
    unfolding c_def [symmetric] Let_def by (simp add: ghost_ok_def rel_due_def unrel_due_def take_map)
qed

text \<open>The receiver still holds, under id 1, a target of an earlier session with the object it was; the node of the
  first call is there at moment 1 only.\<close>

definition demo_tree_at :: "nat \<Rightarrow> tree_view" where
  "demo_tree_at now =
     (let old = (rpc_object.truncate demo_node)\<lparr>ro_id := 9\<rparr>; n = rpc_object.truncate demo_node
      in \<lparr>tr_in_tree = (\<lambda>ob. if ob = 9 then Some old else if ob = 7 \<and> now = 1 then Some n else None),
          tr_at_path = (\<lambda>path. if path = ''/old'' then Some old else if path = ''/p'' \<and> now = 1 then Some n else None)\<rparr>)"

lemma calls_arrive_at_their_target_witness:
  "let c = run (nc_step demo_wire demo_engine demo_tree_at 2 4)
       (netchan0\<lparr>nc_b := msg_end0\<lparr>msg_targets :=
          [(4, [(1, \<lparr>mt_path = ''/old'', mt_method = ''f'', mt_object = 9, mt_warned = False\<rparr>)])]\<rparr>\<rparr>)
       [Send 2 ''/p'' ''go'' [VInt 3] False, Arrive_Unreliable 0 0, Arrive_Unreliable 0 1, Send 2 ''/p'' ''go'' [] True,
        Arrive_Reliable 2, Send 3 ''/p'' ''g'' [] True, Arrive_Reliable 1, Ack 1, Send 2 ''/p'' ''go'' [VNil] False,
        Arrive_Unreliable 1 1] in
     length (nc_rel_sent c) = length (nc_rel c) \<and> calls_in (nc_rel_sent c) = [(''/p'', ''go'', [])] \<and>
     list_all2 (\<lambda>(now, made) x. made = Option.bind x (call_due demo_engine 4 (demo_tree_at now)))
       (nc_rel_log c) (take (nc_got c) (nc_rel_sent c)) \<and>
     set (nc_unrel_sent c) \<subseteq> {(''/p'', ''go'', [VInt 3]), (''/p'', ''go'', [VNil])} \<and>
     (\<forall>(j, now, made) \<in> set (nc_unrel_log c). j < length (nc_unrel_sent c) \<and>
        made = call_due demo_engine 4 (demo_tree_at now) (nc_unrel_sent c ! j))"
proof -
  let ?es = "[Send 2 ''/p'' ''go'' [VInt 3] False, Arrive_Unreliable 0 0, Arrive_Unreliable 0 1,
    Send 2 ''/p'' ''go'' [] True, Arrive_Reliable 2, Send 3 ''/p'' ''g'' [] True, Arrive_Reliable 1, Ack 1,
    Send 2 ''/p'' ''go'' [VNil] False, Arrive_Unreliable 1 1]"
  have es: "list_all (event_ok demo_engine) ?es" by (simp add: demo_str_ok colon_free_def args_ok_def)
  have stay: "nodes_stay demo_tree_at"
    by (auto simp: nodes_stay_def demo_tree_at_def Let_def demo_node_def rpc_object.truncate_def split: if_splits)
  have cached: "cached_ok demo_tree_at 4 (msg_end0\<lparr>msg_targets :=
      [(4, [(1, \<lparr>mt_path = ''/old'', mt_method = ''f'', mt_object = 9, mt_warned = False\<rparr>)])]\<rparr>)"
    by (simp add: cached_ok_def msg_end0_def hm_sub_def hm_get_def demo_tree_at_def Let_def)
  have sent: "calls_sent 2 True ?es = [(''/p'', ''go'', [])]"
    "set (calls_sent 2 False ?es) = {(''/p'', ''go'', [VInt 3]), (''/p'', ''go'', [VNil])}"
    by (auto simp: calls_sent_def)
  have short: "length ?es < 2 ^ 31" by simp
  show ?thesis
    using calls_arrive_at_their_target [OF demo_wire_ok demo_engine_ok es short stay cached, of 2] unfolding sent .
qed

text \<open>A message calls only what its sender may call, and only where its target is: whenever a
  delivery makes a call, the sender is the peer it came from, the object is one the tree has, the
  method is an \<open>@rpc\<close> there that is not disabled, and if it is for the authority alone the sender is
  the object's.\<close>

theorem message_calls_permitted:
  assumes "fst (deliver_message W E in_tree at_path sender bs st) = Some c"
  shows "c_sender c = sender \<and>
     (\<exists>n cfg. ro_id n = c_object c \<and> (\<exists>x. in_tree x = Some n \<or> (\<exists>path. at_path path = Some n)) \<and>
        rpc_method_config n (c_method c) = Some cfg \<and>
        cfg_int E cfg ''rpc_mode'' RPC_MODE_AUTHORITY \<noteq> RPC_MODE_DISABLED \<and>
        (cfg_int E cfg ''rpc_mode'' RPC_MODE_AUTHORITY \<noteq> RPC_MODE_AUTHORITY \<or> ro_authority n = sender))"
  using assms
  by (fastforce simp: deliver_message_def rpc_permitted_def Let_def split_beta
      split: option.splits if_splits)

lemma message_calls_permitted_witness:
  "c_sender \<lparr>c_object = 7, c_method = ''go'', c_args = [VInt 3], c_sender = 4\<rparr> = 4 \<and>
   (\<exists>n cfg. ro_id n = 7 \<and>
      (\<exists>x. (None :: rpc_object option) = Some n \<or> (\<exists>path::string. Some (rpc_object.truncate demo_node) = Some n)) \<and>
      rpc_method_config n ''go'' = Some cfg \<and>
      cfg_int demo_engine cfg ''rpc_mode'' RPC_MODE_AUTHORITY \<noteq> RPC_MODE_DISABLED \<and>
      (cfg_int demo_engine cfg ''rpc_mode'' RPC_MODE_AUTHORITY \<noteq> RPC_MODE_AUTHORITY \<or> ro_authority n = 4))"
proof -
  obtain t st1 where o: "open_message demo_wire demo_engine 4
        (reg_bytes demo_wire demo_engine 1 ''/p'' ''go'' @ put_args demo_wire demo_engine [VInt 3]) msg_end0 =
      (Some (1, t, reader_of (put_args demo_wire demo_engine [VInt 3])), st1)"
      "mt_path t = ''/p''" "mt_method t = ''go''"
    using open_reg_call [OF demo_wire_ok, of 1 demo_engine "''/p''" "''go''"
        "put_args demo_wire demo_engine [VInt 3]" 4 msg_end0]
    by (auto simp: demo_str_ok put_args_nonempty demo_wire_ok)
  have a: "get_args demo_wire demo_engine (reader_of (put_args demo_wire demo_engine [VInt 3])) =
      ([VInt 3], reader_of [])"
    using get_put_args [OF demo_wire_ok demo_engine_ok, of "[VInt 3]" "[]"] by (simp add: args_ok_def)
  have "fst (deliver_message demo_wire demo_engine (\<lambda>x. None) (\<lambda>path. Some (rpc_object.truncate demo_node)) 4
      (reg_bytes demo_wire demo_engine 1 ''/p'' ''go'' @ put_args demo_wire demo_engine [VInt 3]) msg_end0) =
     Some \<lparr>c_object = 7, c_method = ''go'', c_args = [VInt 3], c_sender = 4\<rparr>"
    using demo_config by (simp add: deliver_message_def o a Let_def)
      (simp add: demo_node_def rpc_object.truncate_def)
  from message_calls_permitted [OF this] show ?thesis by simp
qed

end
