(* ===== verification/Sim_Peer.thy ===== *)
theory Sim_Peer
  imports Prelude "HOL-Library.Multiset"
begin

section \<open>GoldNetSimPeer: the receive side of the network-condition sim\<close>

text \<open>
  \<open>goldnet_sim_peer.h\<close> and \<open>.cpp\<close>: what arrives on the wrapped peer is held in a \<open>goldnet::NetSim\<close>
  until the sim releases it, and the inner API reads it from \<open>ready\<close>. \<open>NetSim\<close> is the submodule's, so
  it is the record \<open>netsim\<close> of its operations over a state of any type, and what the binding relies on
  is \<open>netsim_ok\<close>: with \<open>held\<close> the payloads queued in it, an \<open>enqueue\<close> holds one more, a \<open>pump\<close>
  releases some of those held, and a send that may not be dropped never is. The wrapped peer's answers
  are the events' arguments: a \<open>Poll\<close> carries the packets that had arrived, in order, and the clock;
  \<open>Peer_Wrapper\<close> has the wrapped peer itself.

  The lemmas show that the wrapper neither invents nor loses a packet it may not lose, that with the
  sim off it is a plain queue, and what a disconnect takes with it.
\<close>

subsection \<open>NetSim's operations\<close>

record ('s, 'a) netsim =
  ns_loss_percent :: "'s \<Rightarrow> int"
  ns_latency_max_ms :: "'s \<Rightarrow> int"
  ns_spike_ms :: "'s \<Rightarrow> int"
  ns_bandwidth_bps :: "'s \<Rightarrow> int"
  ns_pending :: "'s \<Rightarrow> nat"
  ns_loss_roll :: "'s \<Rightarrow> bool \<times> 's"
  ns_schedule :: "peer \<Rightarrow> nat \<Rightarrow> bool \<Rightarrow> u64 \<Rightarrow> 's \<Rightarrow> int \<times> 's"
  ns_enqueue :: "peer \<Rightarrow> int \<Rightarrow> 'a \<Rightarrow> u64 \<Rightarrow> 's \<Rightarrow> 's"
  ns_pump :: "u64 \<Rightarrow> 's \<Rightarrow> 'a list \<times> 's"
  ns_forget_link :: "peer \<Rightarrow> 's \<Rightarrow> 's"

definition netsim_ok :: "('s, 'a) netsim \<Rightarrow> ('a \<Rightarrow> peer) \<Rightarrow> ('s \<Rightarrow> 'a multiset) \<Rightarrow> bool" where
  "netsim_ok N link held =
     ((\<forall>s. ns_pending N s = size (held s)) \<and>
      (\<forall>s. held (snd (ns_loss_roll N s)) = held s) \<and>
      (\<forall>p n dr t s. held (snd (ns_schedule N p n dr t s)) = held s) \<and>
      (\<forall>p n t s. 0 \<le> fst (ns_schedule N p n False t s)) \<and>
      (\<forall>p d x t s. held (ns_enqueue N p d x t s) = held s + {#x#}) \<and>
      (\<forall>t s. mset (fst (ns_pump N t s)) + held (snd (ns_pump N t s)) = held s) \<and>
      (\<forall>p s. held (ns_forget_link N p s) = filter_mset (\<lambda>x. link x \<noteq> p) (held s)))"

lemma netsim_okD:
  assumes "netsim_ok N link held"
  shows "ns_pending N s = size (held s)"
    and "held (snd (ns_loss_roll N s)) = held s"
    and "held (snd (ns_schedule N p n dr t s)) = held s"
    and "0 \<le> fst (ns_schedule N p n False t s)"
    and "held (ns_enqueue N p d x t s) = held s + {#x#}"
    and "mset (fst (ns_pump N t s)) + held (snd (ns_pump N t s)) = held s"
    and "held (ns_forget_link N p s) = filter_mset (\<lambda>x. link x \<noteq> p) (held s)"
  using assms by (auto simp: netsim_ok_def)

subsection \<open>The wrapper's state and operations\<close>

datatype transfer_mode = UNRELIABLE | UNRELIABLE_ORDERED | RELIABLE

record packet =
  pk_data :: bytes
  pk_from :: peer
  pk_channel :: int
  pk_mode :: transfer_mode

record 's sim_peer =
  sp_sim :: 's
  sp_ready :: "packet list"
  sp_current :: bytes
  sp_bytes :: u64
  sp_packets :: u64

definition sp_deliver :: "packet \<Rightarrow> 's sim_peer \<Rightarrow> 's sim_peer" where
  "sp_deliver p st =
     st\<lparr>sp_bytes := sp_bytes st + of_nat (length (pk_data p)),
        sp_packets := sp_packets st + 1,
        sp_ready := sp_ready st @ [p]\<rparr>"

definition sp_active :: "('s, packet) netsim \<Rightarrow> 's \<Rightarrow> bool" where
  "sp_active N s =
     (0 < ns_loss_percent N s \<or> 0 < ns_latency_max_ms N s \<or> 0 < ns_spike_ms N s \<or>
      0 < ns_bandwidth_bps N s)"

text \<open>One turn of \<open>_poll\<close>'s loop, for one arrived packet.\<close>

definition sp_take :: "('s, packet) netsim \<Rightarrow> u64 \<Rightarrow> bool \<Rightarrow> packet \<Rightarrow> 's sim_peer \<Rightarrow> 's sim_peer" where
  "sp_take N now active p st =
     (if \<not> active \<and> ns_pending N (sp_sim st) = 0 then sp_deliver p st
      else
        let droppable = pk_mode p \<noteq> RELIABLE;
            (lost, s1) = (if droppable then ns_loss_roll N (sp_sim st) else (False, sp_sim st))
        in if lost then st\<lparr>sp_sim := s1\<rparr>
           else
             let (d, s2) = ns_schedule N (pk_from p) (length (pk_data p)) droppable now s1
             in if d < 0 then st\<lparr>sp_sim := s2\<rparr>
                else st\<lparr>sp_sim := ns_enqueue N (pk_from p) d p now s2\<rparr>)"

definition sp_poll :: "('s, packet) netsim \<Rightarrow> packet list \<Rightarrow> u64 \<Rightarrow> 's sim_peer \<Rightarrow> 's sim_peer" where
  "sp_poll N arrived now st =
     (let st1 = fold (sp_take N now (sp_active N (sp_sim st))) arrived st;
          (out, s) = ns_pump N now (sp_sim st1)
      in fold sp_deliver out (st1\<lparr>sp_sim := s\<rparr>))"

text \<open>\<open>None\<close> is \<open>ERR_UNAVAILABLE\<close>.\<close>

definition sp_get_packet :: "'s sim_peer \<Rightarrow> bytes option \<times> 's sim_peer" where
  "sp_get_packet st =
     (case sp_ready st of
        [] \<Rightarrow> (None, st)
      | p # ps \<Rightarrow> (Some (pk_data p), st\<lparr>sp_current := pk_data p, sp_ready := ps\<rparr>))"

definition sp_available :: "'s sim_peer \<Rightarrow> nat" where
  "sp_available st = length (sp_ready st)"

definition sp_packet_channel :: "'s sim_peer \<Rightarrow> int" where
  "sp_packet_channel st = (case sp_ready st of [] \<Rightarrow> 0 | p # _ \<Rightarrow> pk_channel p)"

definition sp_packet_mode :: "'s sim_peer \<Rightarrow> transfer_mode" where
  "sp_packet_mode st = (case sp_ready st of [] \<Rightarrow> RELIABLE | p # _ \<Rightarrow> pk_mode p)"

definition sp_packet_peer :: "'s sim_peer \<Rightarrow> peer" where
  "sp_packet_peer st = (case sp_ready st of [] \<Rightarrow> 0 | p # _ \<Rightarrow> pk_from p)"

definition sp_disconnected :: "('s, packet) netsim \<Rightarrow> peer \<Rightarrow> 's sim_peer \<Rightarrow> 's sim_peer" where
  "sp_disconnected N peer st =
     st\<lparr>sp_sim := ns_forget_link N peer (sp_sim st),
        sp_ready := filter (\<lambda>p. pk_from p \<noteq> peer) (sp_ready st)\<rparr>"

definition sp_close :: "('s, packet) netsim \<Rightarrow> 's sim_peer \<Rightarrow> 's sim_peer" where
  "sp_close N st = st\<lparr>sp_ready := [], sp_sim := ns_forget_link N 1 (sp_sim st)\<rparr>"

subsection \<open>Events, with what the inner has read\<close>

datatype sp_event =
    Poll "packet list" u64
  | Read
  | Disconnected peer
  | Close

text \<open>\<open>Read\<close> is the inner's turn: it asks the front packet's peer, channel and mode, then takes its
  bytes. The second component is every packet it has taken.\<close>

fun sp_step :: "('s, packet) netsim \<Rightarrow> 's sim_peer \<times> packet list \<Rightarrow> sp_event \<Rightarrow> 's sim_peer \<times> packet list" where
  "sp_step N (st, got) (Poll arrived now) = (sp_poll N arrived now st, got)"
| "sp_step N (st, got) Read =
     (case sp_get_packet st of
        (None, st1) \<Rightarrow> (st1, got)
      | (Some bs, st1) \<Rightarrow>
          (st1, got @ [\<lparr>pk_data = bs, pk_from = sp_packet_peer st, pk_channel = sp_packet_channel st,
                        pk_mode = sp_packet_mode st\<rparr>]))"
| "sp_step N (st, got) (Disconnected peer) = (sp_disconnected N peer st, got)"
| "sp_step N (st, got) Close = (sp_close N st, got)"

definition sp0 :: "'s \<Rightarrow> 's sim_peer" where
  "sp0 s = \<lparr>sp_sim = s, sp_ready = [], sp_current = [], sp_bytes = 0, sp_packets = 0\<rparr>"

fun arrivals :: "sp_event list \<Rightarrow> packet list" where
  "arrivals [] = []"
| "arrivals (Poll arrived _ # es) = arrived @ arrivals es"
| "arrivals (_ # es) = arrivals es"

fun no_drop :: "sp_event \<Rightarrow> bool" where
  "no_drop (Disconnected _) = False"
| "no_drop Close = False"
| "no_drop _ = True"

subsection \<open>Where the packets are\<close>

definition sp_all :: "('s \<Rightarrow> packet multiset) \<Rightarrow> 's sim_peer \<times> packet list \<Rightarrow> packet multiset" where
  "sp_all held x = mset (snd x) + mset (sp_ready (fst x)) + held (sp_sim (fst x))"

definition reliable :: "packet \<Rightarrow> bool" where
  "reliable p = (pk_mode p = RELIABLE)"

lemma sp_deliver_simps [simp]:
  "sp_sim (sp_deliver p st) = sp_sim st" "sp_ready (sp_deliver p st) = sp_ready st @ [p]"
  by (simp_all add: sp_deliver_def)

lemma fold_deliver_simps [simp]:
  "sp_sim (fold sp_deliver ps st) = sp_sim st"
  "sp_ready (fold sp_deliver ps st) = sp_ready st @ ps"
  by (induction ps arbitrary: st) simp_all

lemma sp_all_take:
  assumes "netsim_ok N pk_from held"
  shows "sp_all held (sp_take N now active p st, got) \<subseteq># sp_all held (st, got) + {#p#} \<and>
    (reliable p \<longrightarrow> sp_all held (sp_take N now active p st, got) = sp_all held (st, got) + {#p#}) \<and>
    sp_all held (st, got) \<subseteq># sp_all held (sp_take N now active p st, got)"
proof -
  note D = netsim_okD [OF assms]
  have "\<not> fst (ns_schedule N a b False c s) < 0" for a b c s
    using D(4) [of a b c s] by simp
  then have "sp_all held (sp_take N now active p st, got) = sp_all held (st, got) + {#p#} \<or>
      \<not> reliable p \<and> sp_all held (sp_take N now active p st, got) = sp_all held (st, got)"
    by (simp add: sp_take_def sp_all_def reliable_def Let_def split_beta D(2,3,5))
  then show ?thesis by auto
qed

lemma sp_all_takes:
  assumes ok: "netsim_ok N pk_from held"
  shows "sp_all held (fold (sp_take N now active) ps st, got) \<subseteq># sp_all held (st, got) + mset ps \<and>
    filter_mset reliable (sp_all held (fold (sp_take N now active) ps st, got)) =
      filter_mset reliable (sp_all held (st, got)) + filter_mset reliable (mset ps)"
proof (induction ps arbitrary: st)
  case (Cons p ps)
  let ?st = "sp_take N now active p st"
  have le: "sp_all held (?st, got) \<subseteq># sp_all held (st, got) + {#p#}"
    and ge: "sp_all held (st, got) \<subseteq># sp_all held (?st, got)"
    and eq: "reliable p \<Longrightarrow> sp_all held (?st, got) = sp_all held (st, got) + {#p#}"
    using sp_all_take [OF ok] by blast+
  have "filter_mset reliable (sp_all held (?st, got)) =
      filter_mset reliable (sp_all held (st, got)) + filter_mset reliable {#p#}"
  proof (cases "reliable p")
    case False
    then have "filter_mset reliable (sp_all held (?st, got)) \<subseteq># filter_mset reliable (sp_all held (st, got))"
      using multiset_filter_mono [OF le, of reliable] by simp
    moreover have "filter_mset reliable (sp_all held (st, got)) \<subseteq># filter_mset reliable (sp_all held (?st, got))"
      by (rule multiset_filter_mono [OF ge])
    ultimately show ?thesis
      using False by (simp add: subset_mset.antisym)
  qed (simp add: eq)
  moreover have "sp_all held (?st, got) + mset ps \<subseteq># sp_all held (st, got) + mset (p # ps)"
    using le by (simp add: ac_simps subset_mset.add_left_mono)
  ultimately show ?case
    using Cons [of ?st] by (auto intro: subset_mset.order_trans)
qed simp

lemma sp_all_poll:
  assumes "netsim_ok N pk_from held"
  shows "sp_all held (sp_poll N ps now st, got) \<subseteq># sp_all held (st, got) + mset ps \<and>
    filter_mset reliable (sp_all held (sp_poll N ps now st, got)) =
      filter_mset reliable (sp_all held (st, got)) + filter_mset reliable (mset ps)"
proof -
  define st1 where "st1 = fold (sp_take N now (sp_active N (sp_sim st))) ps st"
  have "mset (fst (ns_pump N now s)) + (A + held (snd (ns_pump N now s))) = A + held s" for s A
    using netsim_okD(6) [OF assms, of now s] by (metis add.left_commute)
  then have "sp_all held (sp_poll N ps now st, got) = sp_all held (st1, got)"
    by (simp add: sp_poll_def st1_def [symmetric] Let_def sp_all_def split_beta ac_simps)
  then show ?thesis
    using sp_all_takes [OF assms] by (simp add: st1_def)
qed

lemma read_front:
  "sp_all held (sp_step N (st, got) Read) = sp_all held (st, got)"
  by (cases "sp_ready st")
    (simp_all add: sp_get_packet_def sp_all_def sp_packet_peer_def sp_packet_channel_def
      sp_packet_mode_def)

lemma sp_all_step:
  assumes ok: "netsim_ok N pk_from held"
  shows "sp_all held (sp_step N x e) \<subseteq># sp_all held x + mset (arrivals [e])"
    and "no_drop e \<Longrightarrow> filter_mset reliable (sp_all held (sp_step N x e)) =
           filter_mset reliable (sp_all held x) + filter_mset reliable (mset (arrivals [e]))"
proof -
  obtain st got where x: "x = (st, got)" by (cases x)
  have "mset (filter P ps) + filter_mset P M \<subseteq># mset ps + M" for P :: "packet \<Rightarrow> bool" and ps M
    by (intro subset_mset.add_mono) (simp_all add: multiset_filter_subset)
  then have sub: "mset got + (mset (filter P ps) + filter_mset P M) \<subseteq># mset got + (mset ps + M)" for P ps M
    by (intro subset_mset.add_left_mono) simp
  have "mset got + filter_mset P M \<subseteq># mset got + (mset ps + M)" for P :: "packet \<Rightarrow> bool" and ps M
    by (intro subset_mset.add_left_mono) (simp add: multiset_filter_subset subset_mset.add_increasing)
  then show "sp_all held (sp_step N x e) \<subseteq># sp_all held x + mset (arrivals [e])"
    using sp_all_poll [OF ok] read_front [of held N st got] sub netsim_okD(7) [OF ok]
    by (cases e) (simp_all add: x del: sp_step.simps(2)
        add: sp_disconnected_def sp_close_def sp_all_def add.assoc)
  show "filter_mset reliable (sp_all held (sp_step N x e)) =
      filter_mset reliable (sp_all held x) + filter_mset reliable (mset (arrivals [e]))" if "no_drop e"
    using that sp_all_poll [OF ok] read_front [of held N st got]
    by (cases e) (simp_all add: x del: sp_step.simps(2))
qed

lemma arrivals_Cons: "arrivals (e # es) = arrivals [e] @ arrivals es"
  by (cases e) simp_all

lemma sp_all_run:
  assumes ok: "netsim_ok N pk_from held"
  shows "sp_all held (run (sp_step N) x es) \<subseteq># sp_all held x + mset (arrivals es)"
    and "list_all no_drop es \<Longrightarrow> filter_mset reliable (sp_all held (run (sp_step N) x es)) =
           filter_mset reliable (sp_all held x) + filter_mset reliable (mset (arrivals es))"
proof (induction es arbitrary: x)
  case (Cons e es)
  case 1
  have "sp_all held (sp_step N x e) + mset (arrivals es) \<subseteq># sp_all held x + mset (arrivals [e]) + mset (arrivals es)"
    by (intro subset_mset.add_right_mono sp_all_step [OF ok])
  from subset_mset.order_trans [OF Cons(1) this] show ?case
    by (simp add: arrivals_Cons [of e es] add.assoc)
  case 2
  then show ?case
    using Cons(2) [of "sp_step N x e"] sp_all_step(2) [OF ok, of e x]
    by (simp add: arrivals_Cons [of e es] add.assoc)
qed simp_all

text \<open>One peer's reliable packets: only its own disconnect and a close may discard them.\<close>

fun drops_peer :: "peer \<Rightarrow> sp_event \<Rightarrow> bool" where
  "drops_peer p (Disconnected q) = (q = p)"
| "drops_peer p Close = True"
| "drops_peer p _ = False"

abbreviation reliable_from :: "peer \<Rightarrow> packet \<Rightarrow> bool" where
  "reliable_from p k \<equiv> pk_from k = p \<and> pk_mode k = RELIABLE"

lemma reliable_from_step:
  assumes "netsim_ok N pk_from held" "\<not> drops_peer p e"
  shows "filter_mset (reliable_from p) (sp_all held (sp_step N x e)) =
    filter_mset (reliable_from p) (sp_all held x) + filter_mset (reliable_from p) (mset (arrivals [e]))"
proof (cases "no_drop e")
  case True
  have f: "filter_mset (reliable_from p) M = filter_mset (\<lambda>k. pk_from k = p) (filter_mset reliable M)" for M
    by (simp add: filter_filter_mset reliable_def conj_commute)
  show ?thesis unfolding f sp_all_step(2) [OF assms(1) True] by simp
next
  case False
  then obtain q where q: "e = Disconnected q" "q \<noteq> p" using assms(2) by (cases e) auto
  have "filter_mset (reliable_from p) (filter_mset (\<lambda>k. pk_from k \<noteq> q) M) = filter_mset (reliable_from p) M" for M
    unfolding filter_filter_mset by (rule filter_mset_cong) (use q(2) in auto)
  note other = this
  have ready: "filter (\<lambda>k. pk_from k \<noteq> q \<and> reliable_from p k) ks = filter (reliable_from p) ks" for ks
    by (rule filter_cong) (use q(2) in auto)
  show ?thesis
    using netsim_okD(7) [OF assms(1)] other
    by (cases x) (simp add: q(1) sp_all_def sp_disconnected_def ready flip: mset_filter)
qed

lemma reliable_from_run:
  assumes "netsim_ok N pk_from held"
  shows "list_all (\<lambda>e. \<not> drops_peer p e) es \<Longrightarrow>
    filter_mset (reliable_from p) (sp_all held (run (sp_step N) x es)) =
    filter_mset (reliable_from p) (sp_all held x) + filter_mset (reliable_from p) (mset (arrivals es))"
proof (induction es arbitrary: x)
  case (Cons e es)
  then show ?case
    using reliable_from_step [OF assms, of p e x] by (simp add: arrivals_Cons [of e es] add.assoc)
qed simp

subsection \<open>With the sim off, and the counters\<close>

text \<open>\<open>pump\<close> leaves the sim's settings alone.\<close>

definition pump_keeps_settings :: "('s, packet) netsim \<Rightarrow> bool" where
  "pump_keeps_settings N = (\<forall>t s. sp_active N (snd (ns_pump N t s)) = sp_active N s)"

lemma takes_off:
  assumes "netsim_ok N pk_from held" "held (sp_sim st) = {#}"
  shows "fold (sp_take N now False) ps st = fold sp_deliver ps st"
  using assms(2)
proof (induction ps arbitrary: st)
  case (Cons p ps)
  then have "sp_take N now False p st = sp_deliver p st"
    using netsim_okD(1) [OF assms(1)] by (simp add: sp_take_def)
  then show ?case using Cons by simp
qed simp

lemma poll_off:
  assumes "netsim_ok N pk_from held" "held (sp_sim st) = {#}" "\<not> sp_active N (sp_sim st)"
  shows "sp_poll N ps now st =
    (fold sp_deliver ps st)\<lparr>sp_sim := snd (ns_pump N now (sp_sim st))\<rparr> \<and>
    held (snd (ns_pump N now (sp_sim st))) = {#}"
proof -
  have "mset (fst (ns_pump N now (sp_sim st))) + held (snd (ns_pump N now (sp_sim st))) = {#}"
    using netsim_okD(6) [OF assms(1), of now "sp_sim st"] assms(2) by simp
  then show ?thesis
    using assms by (simp add: sp_poll_def takes_off Let_def split_beta)
qed

text \<open>What has been let through: the packets delivered, in order, with their count and bytes.\<close>

definition let_through :: "'s sim_peer \<times> packet list \<Rightarrow> packet list" where
  "let_through x = snd x @ sp_ready (fst x)"

definition counts_match :: "'s sim_peer \<times> packet list \<Rightarrow> bool" where
  "counts_match x =
     (sp_packets (fst x) = of_nat (length (let_through x)) \<and>
      sp_bytes (fst x) = of_nat (sum_list (map (\<lambda>p. length (pk_data p)) (let_through x))))"

lemma counts_deliver: "counts_match (st, got) \<Longrightarrow> counts_match (fold sp_deliver ps st, got)"
proof (induction ps arbitrary: st)
  case (Cons p ps)
  then have "counts_match (sp_deliver p st, got)"
    by (simp add: counts_match_def let_through_def sp_deliver_def)
  then show ?case using Cons by simp
qed simp

lemma counts_sim [simp]: "counts_match (st\<lparr>sp_sim := s\<rparr>, got) = counts_match (st, got)"
  by (simp add: counts_match_def let_through_def)

lemma counts_take: "counts_match (st, got) \<Longrightarrow> counts_match (sp_take N now active p st, got)"
  using counts_deliver [of st got "[p]"] by (simp add: sp_take_def Let_def split_beta)

lemma counts_takes: "counts_match (st, got) \<Longrightarrow> counts_match (fold (sp_take N now active) ps st, got)"
  by (induction ps arbitrary: st) (simp_all add: counts_take)

lemma counts_step: "counts_match x \<Longrightarrow> no_drop e \<Longrightarrow> counts_match (sp_step N x e)"
proof (cases x; cases e)
  fix st got ps now
  assume "counts_match x" "x = (st, got)" "e = Poll ps now"
  then show ?thesis
    by (simp add: sp_poll_def Let_def split_beta counts_deliver counts_takes)
next
  fix st got
  assume "counts_match x" "x = (st, got)" "e = Read"
  then show ?thesis
    by (cases "sp_ready st") (simp_all add: sp_get_packet_def counts_match_def let_through_def)
qed simp_all

interpretation sp: machine "sp_step N" "\<lambda>_ e. no_drop e" counts_match for N
  by unfold_locales (rule counts_step)

definition off_queue :: "('s, packet) netsim \<Rightarrow> ('s \<Rightarrow> packet multiset) \<Rightarrow> 's sim_peer \<times> packet list \<Rightarrow> bool" where
  "off_queue N held x = (\<not> sp_active N (sp_sim (fst x)) \<and> held (sp_sim (fst x)) = {#})"

lemma off_step:
  assumes "netsim_ok N pk_from held" "pump_keeps_settings N" "off_queue N held x" "no_drop e"
  shows "off_queue N held (sp_step N x e) \<and> let_through (sp_step N x e) = let_through x @ arrivals [e]"
proof (cases x; cases e)
  fix st got ps now
  assume "x = (st, got)" "e = Poll ps now"
  then show ?thesis
    using assms poll_off [OF assms(1), of st ps now]
    by (simp add: off_queue_def let_through_def pump_keeps_settings_def)
next
  fix st got
  assume "x = (st, got)" "e = Read"
  then show ?thesis
    using assms
    by (cases "sp_ready st")
      (simp_all add: sp_get_packet_def off_queue_def let_through_def sp_packet_peer_def
        sp_packet_channel_def sp_packet_mode_def)
qed (use assms in simp_all)

lemma off_run:
  assumes "netsim_ok N pk_from held" "pump_keeps_settings N"
  shows "off_queue N held x \<Longrightarrow> list_all no_drop es \<Longrightarrow>
    let_through (run (sp_step N) x es) = let_through x @ arrivals es"
proof (induction es arbitrary: x)
  case (Cons e es)
  then show ?case
    using off_step [OF assms, of x e] by (simp add: arrivals_Cons [of e es])
qed simp

subsection \<open>A concrete sim\<close>

text \<open>The witnesses' sim: a state is its two settings and what it holds; every send is delayed until
  the next pump but one.\<close>

type_synonym demo_sim = "int \<times> packet list \<times> packet list"

definition demo_netsim :: "(demo_sim, packet) netsim" where
  "demo_netsim =
     \<lparr>ns_loss_percent = (\<lambda>s. 0), ns_latency_max_ms = (\<lambda>s. fst s), ns_spike_ms = (\<lambda>s. 0),
      ns_bandwidth_bps = (\<lambda>s. 0), ns_pending = (\<lambda>(l, a, b). length a + length b),
      ns_loss_roll = (\<lambda>s. (True, s)), ns_schedule = (\<lambda>p n dr t s. (\<bar>fst s\<bar>, s)),
      ns_enqueue = (\<lambda>p d x t (l, a, b). (l, a, b @ [x])),
      ns_pump = (\<lambda>t (l, a, b). (a, (l, b, []))),
      ns_forget_link = (\<lambda>p (l, a, b). (l, filter (\<lambda>x. pk_from x \<noteq> p) a, filter (\<lambda>x. pk_from x \<noteq> p) b))\<rparr>"

definition demo_held :: "demo_sim \<Rightarrow> packet multiset" where
  "demo_held s = mset (fst (snd s)) + mset (snd (snd s))"

lemma demo_netsim_ok: "netsim_ok demo_netsim pk_from demo_held"
  by (auto simp: netsim_ok_def demo_netsim_def demo_held_def)

lemma demo_netsim_settings: "pump_keeps_settings demo_netsim"
  by (auto simp: pump_keeps_settings_def sp_active_def demo_netsim_def)

definition demo_packet :: "u8 \<Rightarrow> transfer_mode \<Rightarrow> packet" where
  "demo_packet b m = \<lparr>pk_data = [b], pk_from = 1, pk_channel = 0, pk_mode = m\<rparr>"

subsection \<open>Properties\<close>

text \<open>C29: a peer's reliable packets are never lost, however lossy, slow or full the simulated link is, and
  whoever else disconnects: from any state, over any run of polls, reads and disconnects in which neither that
  peer's own disconnect nor a close falls, each of them that was there or has arrived is, exactly as often as it
  did, in what the inner has read, in \<open>ready\<close>, or in the sim.\<close>

theorem sim_keeps_reliable:
  assumes "netsim_ok N pk_from held" "list_all (\<lambda>e. \<not> drops_peer p e) es"
  shows "filter_mset (\<lambda>k. pk_from k = p \<and> pk_mode k = RELIABLE)
      (mset (snd (run (sp_step N) (st, got) es)) +
       mset (sp_ready (fst (run (sp_step N) (st, got) es))) +
       held (sp_sim (fst (run (sp_step N) (st, got) es)))) =
     filter_mset (\<lambda>k. pk_from k = p \<and> pk_mode k = RELIABLE)
      (mset got + mset (sp_ready st) + held (sp_sim st) + mset (arrivals es))"
  using reliable_from_run [OF assms, of "(st, got)"] by (simp add: sp_all_def)

abbreviation demo_two_peers :: "sp_event list" where
  "demo_two_peers \<equiv> [Poll [demo_packet 1 RELIABLE, demo_packet 2 UNRELIABLE, (demo_packet 3 RELIABLE)\<lparr>pk_from := 2\<rparr>] 3,
     Read, Disconnected 2, Poll [] 4, Read]"

lemma sim_keeps_reliable_witness:
  "filter_mset (\<lambda>k. pk_from k = 1 \<and> pk_mode k = RELIABLE)
      (mset (snd (run (sp_step demo_netsim) (sp0 (5, [], []), []) demo_two_peers)) +
       mset (sp_ready (fst (run (sp_step demo_netsim) (sp0 (5, [], []), []) demo_two_peers))) +
       demo_held (sp_sim (fst (run (sp_step demo_netsim) (sp0 (5, [], []), []) demo_two_peers)))) =
     {#demo_packet 1 RELIABLE#}"
  using sim_keeps_reliable [OF demo_netsim_ok, of 1 demo_two_peers "sp0 (5, [], [])" "[]"]
  by (simp add: demo_held_def sp0_def demo_packet_def)

text \<open>The wrapper invents and duplicates nothing: over any events at all, disconnects and closes
  included, what the inner has read is, with multiplicities and every packet's sender, channel and
  mode, among what arrived.\<close>

theorem sim_invents_nothing:
  assumes "netsim_ok N pk_from held" "held s = {#}"
  shows "mset (snd (run (sp_step N) (sp0 s, []) es)) \<subseteq># mset (arrivals es)"
proof -
  have "sp_all held (run (sp_step N) (sp0 s, []) es) \<subseteq># mset (arrivals es)"
    using sp_all_run(1) [OF assms(1), of "(sp0 s, [])" es] assms(2) by (simp add: sp_all_def sp0_def)
  then show ?thesis
    unfolding sp_all_def add.assoc snd_conv
    by (rule subset_mset.order_trans [OF mset_subset_eq_add_left])
qed

lemma sim_invents_nothing_witness:
  "mset (snd (run (sp_step demo_netsim) (sp0 (5, [], []), [])
      [Poll [demo_packet 1 RELIABLE] 3, Disconnected 2, Poll [] 4, Read, Close])) \<subseteq>#
   mset (arrivals [Poll [demo_packet 1 RELIABLE] 3, Disconnected 2, Poll [] 4, Read, Close])"
  by (rule sim_invents_nothing [OF demo_netsim_ok]) (simp add: demo_held_def)

text \<open>C30: with the sim off and nothing held, the wrapper is a plain queue: what the inner has read and
  what is ready for it are, in order, exactly the packets that arrived, each with its own sender,
  channel and mode.\<close>

theorem sim_off_is_a_queue:
  assumes "netsim_ok N pk_from held" "pump_keeps_settings N"
    and "\<not> sp_active N s" "held s = {#}" "list_all no_drop es"
  shows "snd (run (sp_step N) (sp0 s, []) es) @ sp_ready (fst (run (sp_step N) (sp0 s, []) es)) = arrivals es"
  using off_run [OF assms(1,2), of "(sp0 s, [])" es] assms(3,4,5)
  by (simp add: let_through_def off_queue_def sp0_def)

lemma sim_off_is_a_queue_witness:
  "snd (run (sp_step demo_netsim) (sp0 (0, [], []), [])
      [Poll [demo_packet 1 RELIABLE, demo_packet 2 UNRELIABLE] 3, Read]) @
   sp_ready (fst (run (sp_step demo_netsim) (sp0 (0, [], []), [])
      [Poll [demo_packet 1 RELIABLE, demo_packet 2 UNRELIABLE] 3, Read])) =
   arrivals [Poll [demo_packet 1 RELIABLE, demo_packet 2 UNRELIABLE] 3, Read]"
  by (rule sim_off_is_a_queue [OF demo_netsim_ok demo_netsim_settings])
    (simp_all add: demo_held_def sp_active_def demo_netsim_def)

text \<open>The delivered counters count exactly what the sim has let through: after any run of polls and
  reads, with any sim, they are the number and the bytes of the packets read or ready.\<close>

theorem sim_counters_exact:
  assumes "list_all no_drop es"
  shows "sp_packets (fst (run (sp_step N) (sp0 s, []) es)) =
       of_nat (length (let_through (run (sp_step N) (sp0 s, []) es))) \<and>
     sp_bytes (fst (run (sp_step N) (sp0 s, []) es)) =
       of_nat (sum_list (map (\<lambda>p. length (pk_data p)) (let_through (run (sp_step N) (sp0 s, []) es))))"
  using sp.inv_run [of "(sp0 s, [])" N es] assms
  by (simp add: run_ok_list_all counts_match_def) (simp add: let_through_def sp0_def)

lemma sim_counters_exact_witness:
  "sp_packets (fst (run (sp_step demo_netsim) (sp0 (5, [], []), []) [Poll [demo_packet 1 RELIABLE] 3, Poll [] 4])) =
     of_nat (length (let_through (run (sp_step demo_netsim) (sp0 (5, [], []), [])
       [Poll [demo_packet 1 RELIABLE] 3, Poll [] 4]))) \<and>
   sp_bytes (fst (run (sp_step demo_netsim) (sp0 (5, [], []), []) [Poll [demo_packet 1 RELIABLE] 3, Poll [] 4])) =
     of_nat (sum_list (map (\<lambda>p. length (pk_data p)) (let_through (run (sp_step demo_netsim) (sp0 (5, [], []), [])
       [Poll [demo_packet 1 RELIABLE] 3, Poll [] 4]))))"
  by (rule sim_counters_exact) simp

text \<open>A disconnected peer is never heard again: whatever it had in flight, held in the sim or
  ready, goes with it, so until something new arrives from it the inner reads none of its packets,
  over any later events.\<close>

theorem disconnected_never_heard:
  assumes "netsim_ok N pk_from held" "peer \<notin> pk_from ` set (arrivals es)"
  shows "peer \<notin> pk_from ` set (snd (run (sp_step N) (sp_disconnected N peer st, []) es))"
proof -
  let ?st = "sp_disconnected N peer st"
  have "set_mset (sp_all held (?st, [])) \<inter> pk_from -` {peer} = {}"
    using netsim_okD(7) [OF assms(1)] by (auto simp: sp_all_def sp_disconnected_def)
  moreover have "set_mset (sp_all held (run (sp_step N) (?st, []) es)) \<subseteq>
      set_mset (sp_all held (?st, [])) \<union> set (arrivals es)"
    using set_mset_mono [OF sp_all_run(1) [OF assms(1), of "(?st, [])" es]] by simp
  moreover have "set (snd (run (sp_step N) (?st, []) es)) \<subseteq>
      set_mset (sp_all held (run (sp_step N) (?st, []) es))"
    by (auto simp: sp_all_def)
  ultimately show ?thesis using assms(2) by blast
qed

lemma disconnected_never_heard_witness:
  "1 \<notin> pk_from ` set (snd (run (sp_step demo_netsim)
     (sp_disconnected demo_netsim 1 (sp_deliver (demo_packet 1 RELIABLE) (sp0 (5, [], []))), [])
     [Read, Poll [(demo_packet 3 RELIABLE)\<lparr>pk_from := 2\<rparr>] 9, Poll [] 10, Read]))"
  by (rule disconnected_never_heard [OF demo_netsim_ok]) (simp add: demo_packet_def)

end
