(* ===== verification/Funnel.thy ===== *)
theory Funnel
  imports Messages Sim_Peer
begin

section \<open>The send funnel: every game call, snapshot and uplink packet\<close>

text \<open>
  \<open>_rpc\<close>, \<open>_netchan_rpc\<close>, \<open>_sim_send\<close>, \<open>_charge_rpc\<close>, \<open>_check_overflow\<close>, \<open>ServerHost::send\<close>, \<open>_send_uplink\<close>
  and the pump of \<open>_poll\<close>. A call becomes a command of the uplink, a message of the netchan, or a call of
  the inner API, through the send-side sim; what leaves the binding is the log \<open>fu_out\<close>, in order. The
  engine's and the core's answers are \<open>funnel_env\<close>; \<open>NetSim\<close> is the record \<open>netsim\<close> of \<open>Sim_Peer\<close>, here over
  deferred calls. \<open>_sim_send\<close> calls itself to split a broadcast, so it has fuel, and two units are enough
  wherever peers have positive ids (\<open>sim_send_route\<close>).

  The lemmas show that every call returns, who a netchan call reaches, that the sim neither loses nor
  repeats a reliable call, and that the funnel is the inner API when there is nothing to do. The
  counters of \<open>GOLDNET_RPC_STATS\<close> along the way are \<open>Rpc_Stats\<close>'s; that of the debug print is not modelled.
\<close>

subsection \<open>State, and what a call asks of the engine and the core\<close>

datatype conn_status = Disconnected_Peer | Connecting_Peer | Connected_Peer

text \<open>\<open>fe_status\<close> is \<open>None\<close> where there is no peer. The last five are the core's answers: the peer's
  rate, whether its reliable channel overflowed once the call was queued, its two message counts, and
  the schema the client has for a command stream.\<close>

record funnel_env =
  fe_status :: "conn_status option"
  fe_unique :: peer
  fe_peers :: "peer list"
  fe_now :: u64
  fe_link :: "objid option"
  fe_alive :: "objid \<Rightarrow> bool"
  fe_in_tree :: "objid \<Rightarrow> bool"
  fe_rate :: "peer \<Rightarrow> nat"
  fe_overflowed :: "peer \<Rightarrow> bool"
  fe_queued :: "peer \<Rightarrow> u64"
  fe_delivered :: "peer \<Rightarrow> u64"
  fe_schema :: "u32 \<Rightarrow> field_kind list"

record pending_send =
  pd_peer :: peer
  pd_object :: objid
  pd_method :: string
  pd_args :: "variant list"

datatype funnel_out =
    Inner_Rpc pending_send
  | Queue_Message peer queued_message
  | Charge peer int
  | Set_Schema u32 "field_kind list"
  | Push_Command u32 "field list"
  | Drop_Peer peer
  | Close_Peer

datatype rpc_result = Rpc_Ok | Rpc_Inner \<comment> \<open>what the inner returned\<close> | Rpc_Invalid

record 's funnel =
  fu_sim :: 's
  fu_msgs :: msg_end
  fu_unreliable :: unreliable_cache
  fu_streams :: sig_cache
  fu_out :: "funnel_out list"

definition put_out :: "funnel_out list \<Rightarrow> 's funnel \<Rightarrow> 's funnel" where
  "put_out outs st = st\<lparr>fu_out := fu_out st @ outs\<rparr>"

abbreviation RPC_WIRE_OVERHEAD :: int where "RPC_WIRE_OVERHEAD \<equiv> 38"

subsection \<open>The shared tail\<close>

definition send_on_link ::
  "('s, pending_send) netsim \<Rightarrow> engine \<Rightarrow> funnel_env \<Rightarrow> pending_send \<Rightarrow> bool \<Rightarrow> int \<Rightarrow> 's funnel \<Rightarrow> rpc_result \<times> 's funnel" where
  "send_on_link N E V ps droppable bytes st =
     (let n = (if 0 < ns_bandwidth_bps N (fu_sim st) \<and> bytes < 0 then rpc_wire_bytes E (pd_args ps) else bytes);
          (d, s1) = ns_schedule N (pd_peer ps) (nat n) droppable (fe_now V) (fu_sim st);
          st1 = st\<lparr>fu_sim := s1\<rparr>
      in if d < 0 then (Rpc_Ok, st1)
         else if d = 0 then (Rpc_Inner, put_out [Inner_Rpc ps] st1)
         else (Rpc_Ok, st1\<lparr>fu_sim := ns_enqueue N (pd_peer ps) d ps (fe_now V) s1\<rparr>))"

definition link_targets :: "funnel_env \<Rightarrow> peer \<Rightarrow> peer list" where
  "link_targets V p = filter (\<lambda>t. \<not> (p < 0 \<and> t = - p)) (fe_peers V)"

text \<open>A broadcast under a link cap calls itself for each peer, so the recursion has fuel: \<open>None\<close> is a call
  that has not returned.\<close>

fun sim_send ::
  "nat \<Rightarrow> ('s, pending_send) netsim \<Rightarrow> engine \<Rightarrow> funnel_env \<Rightarrow> pending_send \<Rightarrow> bool \<Rightarrow> int \<Rightarrow> 's funnel \<Rightarrow>
   (rpc_result \<times> 's funnel) option" where
  "sim_send 0 N E V ps droppable bytes st = None"
| "sim_send (Suc k) N E V ps droppable bytes st =
     (if 0 < ns_bandwidth_bps N (fu_sim st) \<and> pd_peer ps \<le> 0
      then map_option (Pair Rpc_Ok)
             (foldl (\<lambda>s t. Option.bind s (\<lambda>st. map_option snd (sim_send k N E V (ps\<lparr>pd_peer := t\<rparr>) droppable bytes st)))
               (Some st) (link_targets V (pd_peer ps)))
      else Some (send_on_link N E V ps droppable bytes st))"

abbreviation "SIM_FUEL \<equiv> (2 :: nat)"

subsection \<open>Charging and overflow\<close>

text \<open>The size is worked out once, for the first rated recipient; the loop carries it.\<close>

fun charge_loop :: "engine \<Rightarrow> funnel_env \<Rightarrow> variant list \<Rightarrow> int \<Rightarrow> peer list \<Rightarrow> funnel_out list" where
  "charge_loop E V call_args bytes [] = []"
| "charge_loop E V call_args bytes (t # ts) =
     (if fe_rate V t = 0 then charge_loop E V call_args bytes ts
      else
        let b = (if bytes < 0 then rpc_wire_bytes E call_args + RPC_WIRE_OVERHEAD else bytes)
        in Charge t b # charge_loop E V call_args b ts)"

definition charge_rpc :: "engine \<Rightarrow> funnel_env \<Rightarrow> peer \<Rightarrow> variant list \<Rightarrow> 's funnel \<Rightarrow> 's funnel" where
  "charge_rpc E V p call_args st =
     (if fe_unique V \<noteq> 1 then st
      else put_out (charge_loop E V call_args (- 1) (if 0 < p then [p] else link_targets V p)) st)"

definition check_overflow :: "funnel_env \<Rightarrow> peer \<Rightarrow> 's funnel \<Rightarrow> 's funnel" where
  "check_overflow V p st =
     (if fe_status V = None then st
      else if fe_unique V = 1 then (if fe_overflowed V p then put_out [Drop_Peer p] st else st)
      else if fe_overflowed V p then put_out [Close_Peer] st else st)"

subsection \<open>The netchan\<close>

definition queue_call ::
  "wire \<Rightarrow> engine \<Rightarrow> funnel_env \<Rightarrow> peer \<Rightarrow> command_node \<Rightarrow> string \<Rightarrow> variant list \<Rightarrow> bool \<Rightarrow> 's funnel \<Rightarrow> bool \<times> 's funnel" where
  "queue_call W E V t n m call_args rel st =
     (let (ok, qs, ms) = send_message W E t (cn_path n) m call_args rel (fe_queued V t) (fe_delivered V t) (fu_msgs st)
      in (ok, put_out (map (Queue_Message t) qs) (st\<lparr>fu_msgs := ms\<rparr>)))"

definition netchan_targets :: "funnel_env \<Rightarrow> peer \<Rightarrow> peer list" where
  "netchan_targets V p = (if 0 < p then [p] else filter (\<lambda>t. t \<noteq> - p) (fe_peers V))"

fun netchan_loop ::
  "wire \<Rightarrow> ('s, pending_send) netsim \<Rightarrow> engine \<Rightarrow> funnel_env \<Rightarrow> command_node \<Rightarrow> string \<Rightarrow> variant list \<Rightarrow> bool \<Rightarrow>
   peer list \<Rightarrow> 's funnel \<Rightarrow> 's funnel option" where
  "netchan_loop W N E V n m call_args rel [] st = Some st"
| "netchan_loop W N E V n m call_args rel (t # ts) st =
     (let (ok, st1) = queue_call W E V t n m call_args rel st
      in if ok then netchan_loop W N E V n m call_args rel ts (check_overflow V t st1)
         else
           Option.bind
             (sim_send SIM_FUEL N E V \<lparr>pd_peer = t, pd_object = ro_id n, pd_method = m, pd_args = call_args\<rparr>
               (\<not> rel) (- 1) (charge_rpc E V t call_args st1))
             (\<lambda>(res, st2). netchan_loop W N E V n m call_args rel ts st2))"

definition netchan_rpc ::
  "wire \<Rightarrow> ('s, pending_send) netsim \<Rightarrow> engine \<Rightarrow> funnel_env \<Rightarrow> peer \<Rightarrow> command_node \<Rightarrow> string \<Rightarrow> variant list \<Rightarrow>
   's funnel \<Rightarrow> (bool \<times> 's funnel) option" where
  "netchan_rpc W N E V p ob m call_args st =
     (if fe_status V \<noteq> Some Connected_Peer then Some (False, st)
      else if \<not> cn_is_node ob \<or> \<not> fe_in_tree V (ro_id ob) then Some (False, st)
      else case rpc_method_config (rpc_object.truncate ob) m of
        None \<Rightarrow> Some (False, st)
      | Some cfg \<Rightarrow>
          if cfg_int E cfg ''channel'' 0 \<noteq> 0 then Some (False, st)
          else
            let rel = (cfg_int E cfg ''transfer_mode'' MODE_RELIABLE = MODE_RELIABLE)
            in if fe_unique V \<noteq> 1
               then (if p \<noteq> 1 then Some (False, st)
                     else let (ok, st1) = queue_call W E V 1 ob m call_args rel st
                          in if ok then Some (True, check_overflow V 1 st1) else Some (False, st1))
               else if p = 1 then Some (False, st)
               else if 0 < p \<and> p \<notin> set (fe_peers V) then Some (False, st)
               else
                 Option.bind (netchan_loop W N E V ob m call_args rel (netchan_targets V p) st)
                   (\<lambda>st1. Some (True,
                      if cfg_bool E cfg ''call_local'' False \<and> (p = 0 \<or> p < 0 \<and> p \<noteq> - 1)
                      then put_out [Inner_Rpc \<lparr>pd_peer = 1, pd_object = ro_id ob, pd_method = m, pd_args = call_args\<rparr>] st1
                      else st1)))"

subsection \<open>The chokepoint of a game's calls\<close>

definition sim_loss :: "('s, pending_send) netsim \<Rightarrow> 's funnel \<Rightarrow> bool \<times> 's funnel" where
  "sim_loss N st = (let (lost, s1) = ns_loss_roll N (fu_sim st) in (lost, st\<lparr>fu_sim := s1\<rparr>))"

definition rpc_through_inner ::
  "('s, pending_send) netsim \<Rightarrow> engine \<Rightarrow> funnel_env \<Rightarrow> peer \<Rightarrow> command_node \<Rightarrow> string \<Rightarrow> variant list \<Rightarrow>
   's funnel \<Rightarrow> (rpc_result \<times> 's funnel) option" where
  "rpc_through_inner N E V p ob m call_args st =
     (let simulating = (0 < ns_loss_percent N (fu_sim st) \<or> 0 < ns_bandwidth_bps N (fu_sim st));
          (droppable, st1) =
            (if simulating
             then let (u, c) = rpc_is_unreliable E (rpc_object.truncate ob) m (fu_unreliable st)
                  in (u, st\<lparr>fu_unreliable := c\<rparr>)
             else (False, st));
          (lost, st2) = (if droppable \<and> 0 < ns_loss_percent N (fu_sim st1) then sim_loss N st1 else (False, st1))
      in if lost then Some (Rpc_Ok, st2)
         else
           sim_send SIM_FUEL N E V \<lparr>pd_peer = p, pd_object = ro_id ob, pd_method = m, pd_args = call_args\<rparr>
             droppable (- 1) (charge_rpc E V p call_args st2))"

definition rpc_command ::
  "wire \<Rightarrow> engine \<Rightarrow> funnel_env \<Rightarrow> command_sig \<Rightarrow> variant list \<Rightarrow> 's funnel \<Rightarrow> rpc_result \<times> 's funnel" where
  "rpc_command W E V sig call_args st =
     (case command_from_args W E sig call_args of
        Inl e \<Rightarrow> (Rpc_Invalid, st)
      | Inr cmd \<Rightarrow>
          (Rpc_Ok, put_out ((if fe_schema V (cs_id sig) \<noteq> cs_kinds sig then [Set_Schema (cs_id sig) (cs_kinds sig)] else []) @
                            [Push_Command (cs_id sig) cmd]) st))"

definition rpc ::
  "wire \<Rightarrow> ('s, pending_send) netsim \<Rightarrow> engine \<Rightarrow> nat \<Rightarrow> (string \<Rightarrow> u32) \<Rightarrow> funnel_env \<Rightarrow> peer \<Rightarrow> command_node \<Rightarrow>
   string \<Rightarrow> variant list \<Rightarrow> 's funnel \<Rightarrow> (rpc_result \<times> 's funnel) option" where
  "rpc W N E cap hash V p ob m call_args st =
     (let (sig, st1) =
            (if p = 1 \<and> fe_status V \<noteq> None \<and> fe_unique V \<noteq> 1
             then let (sg, c) = command_stream E cap hash ob m (fu_streams st) in (sg, st\<lparr>fu_streams := c\<rparr>)
             else (None, st))
      in case sig of
           Some sg \<Rightarrow> Some (rpc_command W E V sg call_args st1)
         | None \<Rightarrow>
             Option.bind (netchan_rpc W N E V p ob m call_args st1)
               (\<lambda>(taken, st2). if taken then Some (Rpc_Ok, st2) else rpc_through_inner N E V p ob m call_args st2))"

subsection \<open>The binding's own sends, and the pump\<close>

text \<open>\<open>ServerHost::send\<close> and \<open>_send_uplink\<close> with the bytes the core wrote; \<open>pump_sends\<close> is the pump of
  \<open>_poll\<close>.\<close>

definition host_send ::
  "('s, pending_send) netsim \<Rightarrow> engine \<Rightarrow> funnel_env \<Rightarrow> objid \<Rightarrow> peer \<Rightarrow> bytes \<Rightarrow> 's funnel \<Rightarrow> 's funnel option" where
  "host_send N E V link p bs st =
     (let (lost, st1) = sim_loss N st
      in if lost then Some st1
         else map_option snd
           (sim_send SIM_FUEL N E V \<lparr>pd_peer = p, pd_object = link, pd_method = ''_gn_recv'', pd_args = [VBytes bs]\<rparr>
             True (4 + 8 + int (length bs)) st1))"

definition send_uplink ::
  "('s, pending_send) netsim \<Rightarrow> engine \<Rightarrow> funnel_env \<Rightarrow> bool \<Rightarrow> bytes \<Rightarrow> 's funnel \<Rightarrow> 's funnel option" where
  "send_uplink N E V due bs st =
     (if fe_status V \<noteq> Some Connected_Peer \<or> fe_unique V = 1 \<or> \<not> due then Some st
      else case fe_link V of
        None \<Rightarrow> Some st
      | Some link \<Rightarrow>
          (let (lost, st1) = (if 0 < ns_loss_percent N (fu_sim st) then sim_loss N st else (False, st))
           in if lost then Some st1
              else map_option snd
                (sim_send SIM_FUEL N E V \<lparr>pd_peer = 1, pd_object = link, pd_method = ''_gn_up'', pd_args = [VBytes bs]\<rparr>
                  True (int (length bs) + 8) st1)))"

definition pump_sends :: "('s, pending_send) netsim \<Rightarrow> funnel_env \<Rightarrow> 's funnel \<Rightarrow> 's funnel" where
  "pump_sends N V st =
     (let (out, s1) = ns_pump N (fe_now V) (fu_sim st)
      in put_out (map Inner_Rpc (filter (\<lambda>ps. fe_alive V (pd_object ps)) out)) (st\<lparr>fu_sim := s1\<rparr>))"

lemma put_out_simps [simp]:
  "fu_sim (put_out outs st) = fu_sim st" "fu_msgs (put_out outs st) = fu_msgs st"
  "fu_unreliable (put_out outs st) = fu_unreliable st" "fu_streams (put_out outs st) = fu_streams st"
  "fu_out (put_out outs st) = fu_out st @ outs"
  by (simp_all add: put_out_def)

subsection \<open>The split call returns\<close>

definition positive_peers :: "funnel_env \<Rightarrow> bool" where
  "positive_peers V = list_all (\<lambda>t. 0 < t) (fe_peers V)"

definition send_each ::
  "('s, pending_send) netsim \<Rightarrow> engine \<Rightarrow> funnel_env \<Rightarrow> pending_send \<Rightarrow> bool \<Rightarrow> int \<Rightarrow> peer list \<Rightarrow> 's funnel \<Rightarrow> 's funnel" where
  "send_each N E V ps droppable bytes ts st =
     fold (\<lambda>t s. snd (send_on_link N E V (ps\<lparr>pd_peer := t\<rparr>) droppable bytes s)) ts st"

definition sim_route ::
  "('s, pending_send) netsim \<Rightarrow> engine \<Rightarrow> funnel_env \<Rightarrow> pending_send \<Rightarrow> bool \<Rightarrow> int \<Rightarrow> 's funnel \<Rightarrow> rpc_result \<times> 's funnel" where
  "sim_route N E V ps droppable bytes st =
     (if 0 < ns_bandwidth_bps N (fu_sim st) \<and> pd_peer ps \<le> 0
      then (Rpc_Ok, send_each N E V ps droppable bytes (link_targets V (pd_peer ps)) st)
      else send_on_link N E V ps droppable bytes st)"

lemma sim_send_positive: "0 < pd_peer ps \<Longrightarrow> sim_send (Suc k) N E V ps droppable bytes st =
    Some (send_on_link N E V ps droppable bytes st)"
  by simp

lemma sim_send_split:
  "list_all (\<lambda>t. 0 < t) ts \<Longrightarrow>
     foldl (\<lambda>s t. Option.bind s (\<lambda>st. map_option snd (sim_send (Suc k) N E V (ps\<lparr>pd_peer := t\<rparr>) droppable bytes st)))
       (Some st) ts = Some (send_each N E V ps droppable bytes ts st)"
  by (induction ts arbitrary: st) (simp_all add: send_each_def del: sim_send.simps(2) add: sim_send_positive)

lemma sim_send_route:
  assumes "positive_peers V"
  shows "sim_send (Suc (Suc k)) N E V ps droppable bytes st = Some (sim_route N E V ps droppable bytes st)"
proof -
  have "list_all (\<lambda>t. 0 < t) (link_targets V (pd_peer ps))"
    using assms by (auto simp: positive_peers_def link_targets_def list_all_iff)
  then show ?thesis
    by (subst sim_send.simps(2)) (simp add: sim_route_def sim_send_split del: sim_send.simps)
qed

lemma netchan_loop_returns:
  "positive_peers V \<Longrightarrow> \<exists>st1. netchan_loop W N E V n m call_args rel ts st = Some st1"
  by (induction ts arbitrary: st)
    (simp_all add: split_beta sim_send_route [of V 0, folded numeral_2_eq_2] del: sim_send.simps)

lemma netchan_rpc_returns:
  assumes "positive_peers V"
  shows "\<exists>res. netchan_rpc W N E V p ob m call_args st = Some res"
proof -
  have loop: "netchan_loop W N E V ob m call_args rel ts st = Some (the (netchan_loop W N E V ob m call_args rel ts st))" for rel ts
    using netchan_loop_returns [OF assms, of W N E ob m call_args rel ts st] by auto
  have "netchan_rpc W N E V p ob m call_args st \<noteq> None"
    unfolding netchan_rpc_def Let_def split_beta by (subst loop) (auto split: option.split)
  then show ?thesis by blast
qed

lemma rpc_through_inner_route:
  "positive_peers V \<Longrightarrow> rpc_through_inner N E V p ob m call_args st =
     (let simulating = (0 < ns_loss_percent N (fu_sim st) \<or> 0 < ns_bandwidth_bps N (fu_sim st));
          (droppable, st1) =
            (if simulating
             then let (u, c) = rpc_is_unreliable E (rpc_object.truncate ob) m (fu_unreliable st)
                  in (u, st\<lparr>fu_unreliable := c\<rparr>)
             else (False, st));
          (lost, st2) = (if droppable \<and> 0 < ns_loss_percent N (fu_sim st1) then sim_loss N st1 else (False, st1))
      in if lost then Some (Rpc_Ok, st2)
         else Some (sim_route N E V \<lparr>pd_peer = p, pd_object = ro_id ob, pd_method = m, pd_args = call_args\<rparr>
             droppable (- 1) (charge_rpc E V p call_args st2)))"
  by (simp add: rpc_through_inner_def Let_def split_beta sim_send_route [of V 0, folded numeral_2_eq_2] del: sim_send.simps)

lemma rpc_returns:
  assumes "positive_peers V"
  shows "\<exists>res. rpc W N E cap hash V p ob m call_args st = Some res"
proof -
  have "\<exists>res. Option.bind (netchan_rpc W N E V p ob m call_args s)
      (\<lambda>(taken, st2). if taken then Some (Rpc_Ok, st2) else rpc_through_inner N E V p ob m call_args st2) = Some res" for s
    using netchan_rpc_returns [OF assms, of W N E p ob m call_args s]
    by (auto simp: rpc_through_inner_route [OF assms] Let_def split_beta)
  moreover obtain sig st1 where "(if p = 1 \<and> fe_status V \<noteq> None \<and> fe_unique V \<noteq> 1
       then let (sg, c) = command_stream E cap hash ob m (fu_streams st) in (sg, st\<lparr>fu_streams := c\<rparr>)
       else (None, st)) = (sig, st1)" by (metis surj_pair)
  ultimately show ?thesis by (cases sig) (simp_all only: rpc_def Let_def split option.case, auto)
qed

subsection \<open>Where the calls are\<close>

fun inner_calls :: "funnel_out list \<Rightarrow> pending_send list" where
  "inner_calls [] = []"
| "inner_calls (Inner_Rpc ps # outs) = ps # inner_calls outs"
| "inner_calls (_ # outs) = inner_calls outs"

lemma inner_calls_append [simp]: "inner_calls (xs @ ys) = inner_calls xs @ inner_calls ys"
  by (induction xs rule: inner_calls.induct) simp_all

lemma inner_calls_map [simp]: "inner_calls (map Inner_Rpc xs) = xs"
  by (induction xs) simp_all

lemma inner_calls_charges [simp]: "inner_calls (charge_loop E V call_args b ts) = []"
  by (induction E V call_args b ts rule: charge_loop.induct) (simp_all add: Let_def)

definition in_flight :: "('s \<Rightarrow> pending_send multiset) \<Rightarrow> 's funnel \<Rightarrow> pending_send multiset" where
  "in_flight held st = mset (inner_calls (fu_out st)) + held (fu_sim st)"

lemma in_flight_charge [simp]: "in_flight held (charge_rpc E V p call_args st) = in_flight held st"
  by (simp add: in_flight_def charge_rpc_def)

lemma charge_sim [simp]: "fu_sim (charge_rpc E V p call_args st) = fu_sim st"
  by (simp add: charge_rpc_def)

lemma in_flight_send:
  assumes "netsim_ok N pd_peer held"
  shows "in_flight held (snd (send_on_link N E V ps False bytes st)) = in_flight held st + {#ps#}"
  using netsim_okD(3,4,5) [OF assms]
  by (simp add: send_on_link_def split_beta in_flight_def not_less [symmetric] Let_def)

lemma in_flight_each:
  assumes "netsim_ok N pd_peer held"
  shows "in_flight held (send_each N E V ps False bytes ts st) =
    in_flight held st + mset (map (\<lambda>t. ps\<lparr>pd_peer := t\<rparr>) ts)"
proof (induction ts arbitrary: st)
  case (Cons t ts)
  have "send_each N E V ps False bytes (t # ts) st =
      send_each N E V ps False bytes ts (snd (send_on_link N E V (ps\<lparr>pd_peer := t\<rparr>) False bytes st))"
    by (simp add: send_each_def)
  then show ?case using Cons in_flight_send [OF assms] by simp
qed (simp add: send_each_def)

text \<open>The copies a call makes: one for each of its peers under a link cap, itself otherwise.\<close>

definition copies :: "('s, pending_send) netsim \<Rightarrow> funnel_env \<Rightarrow> 's funnel \<Rightarrow> pending_send \<Rightarrow> pending_send list" where
  "copies N V st ps =
     (if 0 < ns_bandwidth_bps N (fu_sim st) \<and> pd_peer ps \<le> 0
      then map (\<lambda>t. ps\<lparr>pd_peer := t\<rparr>) (link_targets V (pd_peer ps)) else [ps])"

lemma in_flight_route:
  "netsim_ok N pd_peer held \<Longrightarrow>
     in_flight held (snd (sim_route N E V ps False bytes st)) = in_flight held st + mset (copies N V st ps)"
  by (simp add: sim_route_def copies_def in_flight_each in_flight_send)

text \<open>The calls a pump drops: those it releases whose node was freed since.\<close>

definition dropped_by_pump :: "('s, pending_send) netsim \<Rightarrow> funnel_env \<Rightarrow> 's funnel \<Rightarrow> pending_send list" where
  "dropped_by_pump N V st = filter (\<lambda>ps. \<not> fe_alive V (pd_object ps)) (fst (ns_pump N (fe_now V) (fu_sim st)))"

lemma in_flight_pump:
  assumes "netsim_ok N pd_peer held"
  shows "in_flight held (pump_sends N V st) + mset (dropped_by_pump N V st) = in_flight held st"
proof -
  obtain out s1 where o: "ns_pump N (fe_now V) (fu_sim st) = (out, s1)" by fastforce
  let ?P = "\<lambda>ps. fe_alive V (pd_object ps)" and ?M = "mset (inner_calls (fu_out st))"
  have all: "mset out + held s1 = held (fu_sim st)"
    using netsim_okD(6) [OF assms, of "fe_now V" "fu_sim st"] o by simp
  have "?M + filter_mset ?P (mset out) + held s1 + filter_mset (\<lambda>ps. \<not> ?P ps) (mset out) =
      ?M + ((filter_mset ?P (mset out) + filter_mset (\<lambda>ps. \<not> ?P ps) (mset out)) + held s1)"
    by (simp only: ac_simps)
  also have "\<dots> = ?M + held (fu_sim st)"
    unfolding multiset_partition [of "mset out" ?P, symmetric] all ..
  finally show ?thesis by (simp add: pump_sends_def dropped_by_pump_def in_flight_def o)
qed

subsection \<open>A session of reliable calls through the inner\<close>

datatype funnel_event =
    Called funnel_env peer command_node string "variant list"
  | Pumped funnel_env

fun funnel_step :: "('s, pending_send) netsim \<Rightarrow> engine \<Rightarrow> 's funnel \<Rightarrow> funnel_event \<Rightarrow> 's funnel" where
  "funnel_step N E st (Called V p ob m call_args) =
     (case rpc_through_inner N E V p ob m call_args st of Some (res, st1) \<Rightarrow> st1 | None \<Rightarrow> st)"
| "funnel_step N E st (Pumped V) = pump_sends N V st"

fun copies_made :: "('s, pending_send) netsim \<Rightarrow> engine \<Rightarrow> 's funnel \<Rightarrow> funnel_event list \<Rightarrow> pending_send list" where
  "copies_made N E st [] = []"
| "copies_made N E st (ev # evs) =
     (case ev of
        Called V p ob m call_args \<Rightarrow>
          copies N V st \<lparr>pd_peer = p, pd_object = ro_id ob, pd_method = m, pd_args = call_args\<rparr>
      | Pumped V \<Rightarrow> []) @ copies_made N E (funnel_step N E st ev) evs"

text \<open>The calls the pumps of a run drop.\<close>

fun copies_dropped :: "('s, pending_send) netsim \<Rightarrow> engine \<Rightarrow> 's funnel \<Rightarrow> funnel_event list \<Rightarrow> pending_send list" where
  "copies_dropped N E st [] = []"
| "copies_dropped N E st (ev # evs) =
     (case ev of Called V p ob m call_args \<Rightarrow> [] | Pumped V \<Rightarrow> dropped_by_pump N V st) @
     copies_dropped N E (funnel_step N E st ev) evs"

text \<open>A reliable call, on objects whose configuration stays \<open>conf\<close>; any pump.\<close>

fun reliable_event :: "engine \<Rightarrow> (objid \<Rightarrow> rpc_object) \<Rightarrow> funnel_event \<Rightarrow> bool" where
  "reliable_event E conf (Called V p ob m call_args) =
     (positive_peers V \<and> rpc_object.truncate ob = conf (ro_id ob) \<and> \<not> rpc_is_unreliable_now E (conf (ro_id ob)) m)"
| "reliable_event E conf (Pumped V) = True"

definition cache_true :: "engine \<Rightarrow> (objid \<Rightarrow> rpc_object) \<Rightarrow> unreliable_cache \<Rightarrow> bool" where
  "cache_true E conf c = (\<forall>ob m b. cache_find c ob m = Some b \<longrightarrow> b = rpc_is_unreliable_now E (conf ob) m)"

lemma cache_true_ask:
  assumes "cache_true E conf c" "ob = conf (ro_id ob)"
  shows "fst (rpc_is_unreliable E ob m c) = rpc_is_unreliable_now E ob m"
    "cache_true E conf (snd (rpc_is_unreliable E ob m c))"
  using assms
  by (auto simp: rpc_is_unreliable_def cache_true_def Let_def cache_find_store split: option.splits) metis+

lemma send_on_link_cache [simp]: "fu_unreliable (snd (send_on_link N E V ps droppable bytes st)) = fu_unreliable st"
  by (simp add: send_on_link_def Let_def split_beta)

lemma send_each_cache [simp]: "fu_unreliable (send_each N E V ps droppable bytes ts st) = fu_unreliable st"
  by (induction ts arbitrary: st) (simp_all add: send_each_def)

lemma charge_cache [simp]: "fu_unreliable (charge_rpc E V p call_args st) = fu_unreliable st"
  by (simp add: charge_rpc_def)

lemma copies_charge [simp]: "copies N V (charge_rpc E V' p call_args st) ps = copies N V st ps"
  by (simp add: copies_def)

lemma in_flight_unreliable [simp]: "in_flight held (st\<lparr>fu_unreliable := c\<rparr>) = in_flight held st"
  by (simp add: in_flight_def)

lemma funnel_step_reliable:
  assumes "netsim_ok N pd_peer held" "reliable_event E conf ev" "cache_true E conf (fu_unreliable st)"
  shows "in_flight held (funnel_step N E st ev) + mset (copies_dropped N E st [ev]) =
      in_flight held st + mset (copies_made N E st [ev]) \<and>
    cache_true E conf (fu_unreliable (funnel_step N E st ev))"
proof (cases ev)
  case (Called V p ob m call_args)
  let ?ps = "\<lparr>pd_peer = p, pd_object = ro_id ob, pd_method = m, pd_args = call_args\<rparr>"
  have pos: "positive_peers V" and ob: "rpc_object.truncate ob = conf (ro_id ob)"
    and rel: "\<not> rpc_is_unreliable_now E (conf (ro_id ob)) m"
    using assms(2) Called by simp_all
  have id: "ro_id (rpc_object.truncate ob) = ro_id ob" by (simp add: rpc_object.truncate_def)
  note ask = cache_true_ask [OF assms(3), of "rpc_object.truncate ob" m, unfolded id, OF ob]
  have "\<exists>st1. rpc_through_inner N E V p ob m call_args st =
      Some (sim_route N E V ?ps False (- 1) (charge_rpc E V p call_args st1)) \<and>
      in_flight held st1 = in_flight held st \<and> copies N V st1 ?ps = copies N V st ?ps \<and> cache_true E conf (fu_unreliable st1)"
  proof (cases "0 < ns_loss_percent N (fu_sim st) \<or> 0 < ns_bandwidth_bps N (fu_sim st)")
    case True
    then show ?thesis
      using ask rel ob
      by (intro exI [of _ "st\<lparr>fu_unreliable := snd (rpc_is_unreliable E (conf (ro_id ob)) m (fu_unreliable st))\<rparr>"])
        (simp add: rpc_through_inner_route [OF pos] split_beta Let_def copies_def)
  next
    case False
    then show ?thesis
      using assms(3) by (intro exI [of _ st]) (simp add: rpc_through_inner_route [OF pos] Let_def)
  qed
  then obtain st1 where *: "rpc_through_inner N E V p ob m call_args st =
      Some (sim_route N E V ?ps False (- 1) (charge_rpc E V p call_args st1))"
      "in_flight held st1 = in_flight held st" "copies N V st1 ?ps = copies N V st ?ps" "cache_true E conf (fu_unreliable st1)"
    by blast
  have "fu_unreliable (snd (sim_route N E V ?ps False (- 1) (charge_rpc E V p call_args st1))) = fu_unreliable st1"
    by (simp add: sim_route_def)
  then show ?thesis
    using * in_flight_route [OF assms(1), of E V ?ps "- 1" "charge_rpc E V p call_args st1"]
    by (simp add: Called split_beta)
next
  case (Pumped V)
  then show ?thesis
    using assms in_flight_pump [OF assms(1), of V st] by (simp add: pump_sends_def split_beta)
qed

lemma funnel_run_reliable:
  assumes "netsim_ok N pd_peer held" "list_all (reliable_event E conf) evs" "cache_true E conf (fu_unreliable st)"
  shows "in_flight held (run (funnel_step N E) st evs) + mset (copies_dropped N E st evs) =
    in_flight held st + mset (copies_made N E st evs)"
  using assms(2,3)
proof (induction evs arbitrary: st)
  case (Cons ev evs)
  have S: "in_flight held (funnel_step N E st ev) + mset (copies_dropped N E st [ev]) =
      in_flight held st + mset (copies_made N E st [ev])"
    and IH: "in_flight held (run (funnel_step N E) (funnel_step N E st ev) evs) + mset (copies_dropped N E (funnel_step N E st ev) evs) =
      in_flight held (funnel_step N E st ev) + mset (copies_made N E (funnel_step N E st ev) evs)"
    using Cons funnel_step_reliable [OF assms(1), of E conf ev st] by simp_all
  have "in_flight held (run (funnel_step N E) st (ev # evs)) + mset (copies_dropped N E st (ev # evs)) =
      in_flight held (run (funnel_step N E) (funnel_step N E st ev) evs) + mset (copies_dropped N E (funnel_step N E st ev) evs) +
      mset (copies_dropped N E st [ev])"
    by (simp add: ac_simps)
  also have "\<dots> = in_flight held st + mset (copies_made N E st [ev]) + mset (copies_made N E (funnel_step N E st ev) evs)"
    unfolding IH S [symmetric] by (simp only: ac_simps)
  finally show ?case by (simp add: ac_simps)
qed simp

lemma alive_drops_none:
  "list_all (\<lambda>ev. case ev of Pumped V \<Rightarrow> (\<forall>ob. fe_alive V ob) | _ \<Rightarrow> True) evs \<longrightarrow> copies_dropped N E st evs = []"
  by (induction evs arbitrary: st) (auto simp: dropped_by_pump_def split: funnel_event.split)

subsection \<open>A reliable call on the netchan\<close>

definition queued_to :: "peer \<Rightarrow> funnel_out list \<Rightarrow> queued_message list" where
  "queued_to t outs = concat (map (\<lambda>x. case x of Queue_Message u q \<Rightarrow> if u = t then [q] else [] | _ \<Rightarrow> []) outs)"

lemma queued_to_append [simp]: "queued_to t (xs @ ys) = queued_to t xs @ queued_to t ys"
  by (simp add: queued_to_def)

lemma queued_to_map [simp]: "queued_to t (map (Queue_Message u) qs) = (if u = t then qs else [])"
  by (induction qs) (simp_all add: queued_to_def)

lemma inner_calls_queue [simp]: "inner_calls (map (Queue_Message u) qs) = []"
  by (induction qs) simp_all

text \<open>The reliable messages of one call: its registration where the peer was sent none, then the call.\<close>

definition call_messages :: "wire \<Rightarrow> engine \<Rightarrow> string \<Rightarrow> string \<Rightarrow> variant list \<Rightarrow> queued_message list \<Rightarrow> bool" where
  "call_messages W E path m call_args qs =
     (\<exists>i. qs = [Queue_Reliable (w_uvarint W i @ put_args W E call_args)] \<or>
          qs = [Queue_Reliable (reg_bytes W E i path m), Queue_Reliable (w_uvarint W i @ put_args W E call_args)])"

lemma send_message_reliable:
  "\<exists>qs ms. send_message W E t path m call_args True q d st = (True, qs, ms) \<and> call_messages W E path m call_args qs"
  by (auto simp: send_message_def Let_def split_beta call_messages_def)

lemma queue_call_reliable:
  "\<exists>qs st1. queue_call W E V t n m call_args True st = (True, st1) \<and>
     fu_out st1 = fu_out st @ map (Queue_Message t) qs \<and> fu_sim st1 = fu_sim st \<and> call_messages W E (cn_path n) m call_args qs"
  using send_message_reliable [of W E t "cn_path n" m call_args "fe_queued V t" "fe_delivered V t" "fu_msgs st"]
  by (auto simp: queue_call_def)

lemma check_overflow_out:
  "\<exists>outs. fu_out (check_overflow V t st) = fu_out st @ outs \<and> inner_calls outs = [] \<and> queued_to u outs = [] \<and>
     fu_sim (check_overflow V t st) = fu_sim st"
  by (auto simp: check_overflow_def queued_to_def)

lemma netchan_loop_reliable:
  assumes "distinct ts"
  shows "\<exists>st1 new. netchan_loop W N E V n m call_args True ts st = Some st1 \<and> fu_out st1 = fu_out st @ new \<and>
    inner_calls new = [] \<and> fu_sim st1 = fu_sim st \<and>
    (if t \<in> set ts then call_messages W E (cn_path n) m call_args (queued_to t new) else queued_to t new = [])"
  using assms
proof (induction ts arbitrary: st)
  case (Cons u ts)
  obtain qs s1 where q: "queue_call W E V u n m call_args True st = (True, s1)"
    "fu_out s1 = fu_out st @ map (Queue_Message u) qs" "fu_sim s1 = fu_sim st" "call_messages W E (cn_path n) m call_args qs"
    using queue_call_reliable by blast
  obtain outs where ov: "fu_out (check_overflow V u s1) = fu_out s1 @ outs" "inner_calls outs = []" "queued_to t outs = []"
    "fu_sim (check_overflow V u s1) = fu_sim s1"
    using check_overflow_out by blast
  obtain st1 new where r: "netchan_loop W N E V n m call_args True ts (check_overflow V u s1) = Some st1"
    "fu_out st1 = fu_out (check_overflow V u s1) @ new" "inner_calls new = []" "fu_sim st1 = fu_sim (check_overflow V u s1)"
    "if t \<in> set ts then call_messages W E (cn_path n) m call_args (queued_to t new) else queued_to t new = []"
    using Cons.IH [of "check_overflow V u s1"] Cons.prems by auto
  show ?case
    using q ov r Cons.prems
    by (intro exI [of _ st1] exI [of _ "map (Queue_Message u) qs @ outs @ new"]) (auto split: if_splits)
qed (simp add: queued_to_def)

subsection \<open>Properties\<close>

text \<open>C14: every send of the funnel returns: a call to a peer, or to all or all but one of them, under a link
  cap or not, gives a result, as the split of a broadcast calls itself only for peers whose ids are
  positive; and under a cap the broadcast is exactly the sends to its recipients one by one.\<close>

theorem split_send_returns:
  assumes "positive_peers V"
  shows "(\<exists>res. rpc W N E cap hash V p ob m call_args st = Some res) \<and>
    sim_send SIM_FUEL N E V ps droppable bytes st =
      Some (if 0 < ns_bandwidth_bps N (fu_sim st) \<and> pd_peer ps \<le> 0
            then (Rpc_Ok, fold (\<lambda>t s. snd (send_on_link N E V (ps\<lparr>pd_peer := t\<rparr>) droppable bytes s))
                    (link_targets V (pd_peer ps)) st)
            else send_on_link N E V ps droppable bytes st)"
  by (rule conjI [OF rpc_returns [OF assms]
      sim_send_route [OF assms, of 0, folded numeral_2_eq_2, unfolded sim_route_def send_each_def]])

definition demo_link :: "(int \<times> pending_send list, pending_send) netsim" where
  "demo_link =
     \<lparr>ns_loss_percent = (\<lambda>s. 0), ns_latency_max_ms = (\<lambda>s. fst s), ns_spike_ms = (\<lambda>s. 0),
      ns_bandwidth_bps = (\<lambda>s. fst s), ns_pending = (\<lambda>s. length (snd s)), ns_loss_roll = (\<lambda>s. (True, s)),
      ns_schedule = (\<lambda>p n dr t s. (\<bar>fst s\<bar>, s)), ns_enqueue = (\<lambda>p d x t s. (fst s, snd s @ [x])),
      ns_pump = (\<lambda>t s. (snd s, (fst s, []))),
      ns_forget_link = (\<lambda>p s. (fst s, filter (\<lambda>x. pd_peer x \<noteq> p) (snd s)))\<rparr>"

lemma demo_link_ok: "netsim_ok demo_link pd_peer (\<lambda>s. mset (snd s))"
  by (auto simp: netsim_ok_def demo_link_def)

definition demo_env :: funnel_env where
  "demo_env =
     \<lparr>fe_status = Some Connected_Peer, fe_unique = 1, fe_peers = [2, 3, 4], fe_now = 50, fe_link = None,
      fe_alive = (\<lambda>_. True), fe_in_tree = (\<lambda>_. True), fe_rate = (\<lambda>_. 0), fe_overflowed = (\<lambda>_. False),
      fe_queued = (\<lambda>_. 0), fe_delivered = (\<lambda>_. 0), fe_schema = (\<lambda>_. [])\<rparr>"

definition demo_funnel :: "int \<Rightarrow> (int \<times> pending_send list) funnel" where
  "demo_funnel cap =
     \<lparr>fu_sim = (cap, []), fu_msgs = msg_end0, fu_unreliable = [], fu_streams = [], fu_out = []\<rparr>"

definition demo_call :: "peer \<Rightarrow> pending_send" where
  "demo_call p = \<lparr>pd_peer = p, pd_object = 9, pd_method = ''go'', pd_args = []\<rparr>"

lemma split_send_returns_witness:
  "sim_send SIM_FUEL demo_link demo_engine demo_env (demo_call (- 3)) False (- 1) (demo_funnel 8) =
   Some (Rpc_Ok, (demo_funnel 8)\<lparr>fu_sim := (8, [demo_call 2, demo_call 4])\<rparr>)"
  using split_send_returns [of demo_env, THEN conjunct2, of demo_link demo_engine "demo_call (- 3)" False "- 1" "demo_funnel 8"]
  by (simp add: positive_peers_def link_targets_def send_on_link_def Let_def demo_link_def demo_env_def demo_funnel_def
      demo_call_def del: sim_send.simps)

text \<open>C11: a reliable call on the netchan reaches exactly its recipients: from the host, a call to a peer it
  has, to all of them or to all but one is taken, and each recipient, no one else, is queued one reliable
  copy of it with its target and arguments, preceded by the target's registration or not; the inner API
  gets nothing but the host's own copy where \<open>call_local\<close> asks for it, and the link sim is not touched.\<close>

theorem reliable_call_reaches_recipients:
  assumes "fe_status V = Some Connected_Peer" "fe_unique V = 1" "distinct (fe_peers V)"
    and "cn_is_node ob" "fe_in_tree V (ro_id ob)" "rpc_method_config (rpc_object.truncate ob) m = Some cfg"
    and "cfg_int E cfg ''channel'' 0 = 0" "cfg_int E cfg ''transfer_mode'' MODE_RELIABLE = MODE_RELIABLE"
    and "p \<noteq> 1" "p \<le> 0 \<or> p \<in> set (fe_peers V)"
  shows "\<exists>st1 new. netchan_rpc W N E V p ob m call_args st = Some (True, st1) \<and> fu_out st1 = fu_out st @ new \<and>
    fu_sim st1 = fu_sim st \<and>
    (if (0 < p \<and> t = p) \<or> (p \<le> 0 \<and> t \<in> set (fe_peers V) \<and> t \<noteq> - p)
     then call_messages W E (cn_path ob) m call_args (queued_to t new) else queued_to t new = []) \<and>
    inner_calls new =
      (if cfg_bool E cfg ''call_local'' False \<and> p \<le> 0 \<and> p \<noteq> - 1
       then [\<lparr>pd_peer = 1, pd_object = ro_id ob, pd_method = m, pd_args = call_args\<rparr>] else [])"
proof -
  have d: "distinct (netchan_targets V p)" using assms(3) by (simp add: netchan_targets_def)
  have ts: "t \<in> set (netchan_targets V p) \<longleftrightarrow> (0 < p \<and> t = p) \<or> (p \<le> 0 \<and> t \<in> set (fe_peers V) \<and> t \<noteq> - p)"
    by (auto simp: netchan_targets_def)
  obtain st1 new where l: "netchan_loop W N E V ob m call_args True (netchan_targets V p) st = Some st1"
    "fu_out st1 = fu_out st @ new" "inner_calls new = []" "fu_sim st1 = fu_sim st"
    "if t \<in> set (netchan_targets V p) then call_messages W E (cn_path ob) m call_args (queued_to t new) else queued_to t new = []"
    using netchan_loop_reliable [OF d, of W N E V ob m call_args st t] by blast
  let ?own = "Inner_Rpc \<lparr>pd_peer = 1, pd_object = ro_id ob, pd_method = m, pd_args = call_args\<rparr>"
  let ?self = "cfg_bool E cfg ''call_local'' False \<and> p \<le> 0 \<and> p \<noteq> - 1"
  have self: "(cfg_bool E cfg ''call_local'' False \<and> (p = 0 \<or> p < 0 \<and> p \<noteq> - 1)) = ?self" by auto
  have "netchan_rpc W N E V p ob m call_args st = Some (True, if ?self then put_out [?own] st1 else st1)"
    using assms l(1) unfolding netchan_rpc_def self by auto
  note call = this
  let ?st = "if ?self then put_out [?own] st1 else st1" and ?new = "if ?self then new @ [?own] else new"
  have own: "queued_to t [?own] = []" by (simp add: queued_to_def)
  show ?thesis unfolding ts [symmetric]
  proof (intro exI conjI)
    show "netchan_rpc W N E V p ob m call_args st = Some (True, ?st)" by (rule call)
    show "fu_out ?st = fu_out st @ ?new" "fu_sim ?st = fu_sim st" using l(2,4) by simp_all
    have "queued_to t ?new = queued_to t new" using own by (simp split: if_split)
    then show "if t \<in> set (netchan_targets V p) then call_messages W E (cn_path ob) m call_args (queued_to t ?new)
        else queued_to t ?new = []" using l(5) by (simp only:)
    show "inner_calls ?new =
      (if ?self then [\<lparr>pd_peer = 1, pd_object = ro_id ob, pd_method = m, pd_args = call_args\<rparr>] else [])"
      using l(3) by (simp split: if_split)
  qed
qed

definition demo_said :: command_node where
  "demo_said = \<lparr>ro_id = 9, ro_node_cfg = Some (VDict [(VString ''go'', VDict [])]), ro_script_cfg = None, ro_authority = 1,
     cn_is_node = True, cn_path = ''/root/N'', cn_meta = [], cn_methods = []\<rparr>"

lemma demo_said_config: "rpc_method_config (rpc_object.truncate demo_said) ''go'' = Some []"
  by (simp add: rpc_method_config_def has_method_def rpc_object.truncate_def demo_said_def dict_get_def as_dict_def text_of_def)

lemma reliable_call_reaches_recipients_witness:
  "\<exists>st1 new. netchan_rpc demo_wire demo_link demo_engine demo_env (- 3) demo_said ''go'' [VNil] (demo_funnel 0) =
       Some (True, st1) \<and> fu_out st1 = new \<and>
     call_messages demo_wire demo_engine ''/root/N'' ''go'' [VNil] (queued_to 2 new)"
  using reliable_call_reaches_recipients [of demo_env demo_said "''go''" "[]" demo_engine "- 3" demo_wire demo_link
      "[VNil]" "demo_funnel 0" 2, OF _ _ _ _ _ demo_said_config]
  by (auto simp: demo_env_def demo_said_def cfg_int_def dict_get_def demo_funnel_def)

text \<open>C13: the simulated link neither loses nor repeats a reliable call that goes through the inner, however lossy,
  slow or full it is: over any run of reliable calls and pumps, whatever nodes are freed on the way, what the inner
  was given, what the sim still holds, and the calls a pump dropped because their node was gone by the time they were
  released are together what went before and one copy for each peer each call was made to. With every
  node alive at each pump nothing is dropped.\<close>

theorem reliable_calls_conserved:
  assumes "netsim_ok N pd_peer held" "list_all (reliable_event E conf) evs" "fu_unreliable st = []"
  shows "mset (inner_calls (fu_out (run (funnel_step N E) st evs))) + held (fu_sim (run (funnel_step N E) st evs)) +
      mset (copies_dropped N E st evs) =
    mset (inner_calls (fu_out st)) + held (fu_sim st) + mset (copies_made N E st evs) \<and>
    (list_all (\<lambda>ev. case ev of Pumped V \<Rightarrow> (\<forall>ob. fe_alive V ob) | _ \<Rightarrow> True) evs \<longrightarrow> copies_dropped N E st evs = [])"
proof
  show "mset (inner_calls (fu_out (run (funnel_step N E) st evs))) + held (fu_sim (run (funnel_step N E) st evs)) +
      mset (copies_dropped N E st evs) = mset (inner_calls (fu_out st)) + held (fu_sim st) + mset (copies_made N E st evs)"
    using funnel_run_reliable [OF assms(1,2), of st] assms(3)
    by (simp add: cache_true_def cache_find_def in_flight_def)
  show "list_all (\<lambda>ev. case ev of Pumped V \<Rightarrow> (\<forall>ob. fe_alive V ob) | _ \<Rightarrow> True) evs \<longrightarrow> copies_dropped N E st evs = []"
    by (rule alive_drops_none)
qed

text \<open>Two broadcasts on a capped link, of which the second's node is freed before the pump.\<close>

abbreviation demo_freed_events :: "funnel_event list" where
  "demo_freed_events \<equiv> [Called demo_env 0 demo_said ''go'' [], Called demo_env 2 (demo_said\<lparr>ro_id := 10\<rparr>) ''go'' [],
     Pumped (demo_env\<lparr>fe_alive := (\<lambda>ob. ob = 9)\<rparr>)]"

lemma reliable_calls_conserved_witness:
  "mset (inner_calls (fu_out (run (funnel_step demo_link demo_engine) (demo_funnel 8) demo_freed_events))) +
     mset (snd (fu_sim (run (funnel_step demo_link demo_engine) (demo_funnel 8) demo_freed_events))) +
     mset (copies_dropped demo_link demo_engine (demo_funnel 8) demo_freed_events) =
   {#demo_call 2, demo_call 3, demo_call 4, (demo_call 2)\<lparr>pd_object := 10\<rparr>#}"
proof -
  let ?conf = "\<lambda>ob. (rpc_object.truncate demo_said)\<lparr>ro_id := ob\<rparr>"
  have go: "rpc_method_config (?conf ob) ''go'' = Some []" for ob
    by (simp add: rpc_method_config_def has_method_def rpc_object.truncate_def demo_said_def dict_get_def as_dict_def text_of_def)
  have r: "list_all (reliable_event demo_engine ?conf) demo_freed_events"
    using go by (simp add: positive_peers_def rpc_is_unreliable_now_def cfg_int_def dict_get_def)
      (simp add: demo_env_def rpc_object.truncate_def demo_said_def)
  have "ns_bandwidth_bps demo_link s = fst s" for s by (simp add: demo_link_def)
  then have "copies_made demo_link demo_engine (demo_funnel 8) demo_freed_events =
      [demo_call 2, demo_call 3, demo_call 4, (demo_call 2)\<lparr>pd_object := 10\<rparr>]"
    by (simp add: copies_def demo_funnel_def link_targets_def demo_env_def demo_call_def demo_said_def)
  then show ?thesis
    using reliable_calls_conserved [OF demo_link_ok r, of "demo_funnel 8"] by (simp add: demo_funnel_def)
qed

subsection \<open>Calls the netchan leaves\<close>

text \<open>When the netchan takes a call: between the two ends of an open connection, on a node in the tree and a method
  that is an RPC of channel 0; from a client to the server, where it is reliable or fits a datagram; from the host,
  to a peer it has or to several.\<close>

definition netchan_takes ::
  "wire \<Rightarrow> engine \<Rightarrow> funnel_env \<Rightarrow> peer \<Rightarrow> command_node \<Rightarrow> string \<Rightarrow> variant list \<Rightarrow> msg_end \<Rightarrow> bool" where
  "netchan_takes W E V p ob m call_args ms =
     (fe_status V = Some Connected_Peer \<and> cn_is_node ob \<and> fe_in_tree V (ro_id ob) \<and>
      (case rpc_method_config (rpc_object.truncate ob) m of
         None \<Rightarrow> False
       | Some cfg \<Rightarrow>
           cfg_int E cfg ''channel'' 0 = 0 \<and>
           (if fe_unique V \<noteq> 1
            then p = 1 \<and> fst (send_message W E 1 (cn_path ob) m call_args
                   (cfg_int E cfg ''transfer_mode'' MODE_RELIABLE = MODE_RELIABLE) (fe_queued V 1) (fe_delivered V 1) ms)
            else p \<noteq> 1 \<and> (p \<le> 0 \<or> p \<in> set (fe_peers V)))))"

lemma send_message_refused:
  "send_message W E t path m call_args rel q d ms = (False, qs, ms1) \<Longrightarrow> qs = [] \<and> msg_targets ms1 = msg_targets ms"
  by (auto simp: send_message_def msg_id_for_def Let_def split_beta split: if_splits option.splits)

lemma queue_call_refused:
  assumes "queue_call W E V t ob m call_args rel st = (False, st1)"
  shows "fu_out st1 = fu_out st \<and> fu_sim st1 = fu_sim st \<and> msg_targets (fu_msgs st1) = msg_targets (fu_msgs st)"
proof -
  obtain ok qs ms where r: "send_message W E t (cn_path ob) m call_args rel (fe_queued V t) (fe_delivered V t) (fu_msgs st) = (ok, qs, ms)"
    by (metis prod_cases3)
  with assms have "ok = False" by (simp add: queue_call_def)
  from send_message_refused [OF r [unfolded this]] assms r show ?thesis by (auto simp: queue_call_def)
qed

lemma netchan_leaves:
  assumes "\<not> netchan_takes W E V p ob m call_args (fu_msgs st)"
  shows "\<exists>st1. netchan_rpc W N E V p ob m call_args st = Some (False, st1) \<and>
    fu_out st1 = fu_out st \<and> fu_sim st1 = fu_sim st \<and> msg_targets (fu_msgs st1) = msg_targets (fu_msgs st) \<and>
    (fe_unique V = 1 \<or> p \<noteq> 1 \<longrightarrow> st1 = st)"
proof (cases "netchan_rpc W N E V p ob m call_args st = Some (False, st)")
  case False
  then obtain cfg where c: "fe_status V = Some Connected_Peer" "cn_is_node ob" "fe_in_tree V (ro_id ob)"
    "rpc_method_config (rpc_object.truncate ob) m = Some cfg" "cfg_int E cfg ''channel'' 0 = 0"
    by (auto simp: netchan_rpc_def split: if_splits option.splits)
  let ?rel = "cfg_int E cfg ''transfer_mode'' MODE_RELIABLE = MODE_RELIABLE"
  have u: "fe_unique V \<noteq> 1 \<and> p = 1"
  proof (rule ccontr)
    assume "\<not> ?thesis"
    with assms c have "netchan_rpc W N E V p ob m call_args st = Some (False, st)"
      by (cases "fe_unique V = 1") (auto simp: netchan_rpc_def netchan_takes_def not_le)
    with False show False by contradiction
  qed
  with assms c have "\<not> fst (send_message W E 1 (cn_path ob) m call_args ?rel (fe_queued V 1) (fe_delivered V 1) (fu_msgs st))"
    by (simp add: netchan_takes_def)
  then obtain st1 where q: "queue_call W E V 1 ob m call_args ?rel st = (False, st1)"
    by (simp add: queue_call_def split_beta)
  then have "netchan_rpc W N E V p ob m call_args st = Some (False, st1)" using u c by (simp add: netchan_rpc_def)
  then show ?thesis using queue_call_refused [OF q] u by blast
qed blast

text \<open>With nothing simulated and nobody rated.\<close>

definition link_off :: "('s, pending_send) netsim \<Rightarrow> funnel_env \<Rightarrow> 's \<Rightarrow> bool" where
  "link_off N V s =
     (ns_loss_percent N s = 0 \<and> ns_bandwidth_bps N s = 0 \<and> (\<forall>t n dr now. ns_schedule N t n dr now s = (0, s)) \<and>
      (\<forall>t. fe_rate V t = 0))"

lemma charge_off: "link_off N V s \<Longrightarrow> charge_rpc E V p call_args st = st"
proof -
  assume "link_off N V s"
  then have "charge_loop E V call_args b ts = []" for b ts by (induction ts) (simp_all add: link_off_def)
  then show ?thesis by (simp add: charge_rpc_def put_out_def)
qed

lemma send_off:
  "link_off N V (fu_sim st) \<Longrightarrow> sim_send (Suc k) N E V ps droppable bytes st = Some (Rpc_Inner, put_out [Inner_Rpc ps] st)"
  by (simp add: link_off_def send_on_link_def put_out_def)

lemma oversized_refused:
  assumes "MAX_UNRELIABLE_MESSAGE < int (length (put_args W E call_args))"
  shows "\<exists>st1. queue_call W E V t ob m call_args False st = (False, st1)"
  using assms by (auto simp: queue_call_def send_message_def Let_def split_beta)

lemma oversized_loop:
  assumes "MAX_UNRELIABLE_MESSAGE < int (length (put_args W E call_args))"
  shows "link_off N V (fu_sim st) \<Longrightarrow> \<exists>st1. netchan_loop W N E V ob m call_args False ts st = Some st1 \<and>
    fu_sim st1 = fu_sim st \<and> fu_out st1 = fu_out st @
      map (\<lambda>t. Inner_Rpc \<lparr>pd_peer = t, pd_object = ro_id ob, pd_method = m, pd_args = call_args\<rparr>) ts"
proof (induction ts arbitrary: st)
  case (Cons t ts)
  obtain s1 where q: "queue_call W E V t ob m call_args False st = (False, s1)" using oversized_refused [OF assms] by blast
  let ?s = "put_out [Inner_Rpc \<lparr>pd_peer = t, pd_object = ro_id ob, pd_method = m, pd_args = call_args\<rparr>] s1"
  note s1 = queue_call_refused [OF q]
  have "link_off N V (fu_sim s1)" using Cons.prems s1 by simp
  then show ?case
    using Cons.IH [of ?s] s1 send_off [of N V s1 "Suc 0", folded numeral_2_eq_2]
    by (simp add: q charge_off [of N V "fu_sim s1"] del: sim_send.simps)
qed simp

lemma inner_off:
  "link_off N V (fu_sim st) \<Longrightarrow> rpc_through_inner N E V p ob m call_args st = Some (Rpc_Inner,
     put_out [Inner_Rpc \<lparr>pd_peer = p, pd_object = ro_id ob, pd_method = m, pd_args = call_args\<rparr>] st)"
  using send_off [of N V st "Suc 0", folded numeral_2_eq_2]
  by (simp add: rpc_through_inner_def charge_off Let_def del: sim_send.simps) (simp add: link_off_def)

lemma rpc_no_command:
  assumes "p = 1 \<and> fe_status V \<noteq> None \<and> fe_unique V \<noteq> 1 \<Longrightarrow> fst (command_stream E cap hash ob m (fu_streams st)) = None"
  obtains st0 where "fu_sim st0 = fu_sim st" "fu_out st0 = fu_out st" "fu_msgs st0 = fu_msgs st"
    and "rpc W N E cap hash V p ob m call_args st = Option.bind (netchan_rpc W N E V p ob m call_args st0)
      (\<lambda>(taken, st2). if taken then Some (Rpc_Ok, st2) else rpc_through_inner N E V p ob m call_args st2)"
proof (cases "p = 1 \<and> fe_status V \<noteq> None \<and> fe_unique V \<noteq> 1")
  case True
  obtain sg c where "command_stream E cap hash ob m (fu_streams st) = (sg, c)" by fastforce
  with assms [OF True] have s: "command_stream E cap hash ob m (fu_streams st) = (None, c)" by simp
  show thesis
  proof (rule that [of "st\<lparr>fu_streams := c\<rparr>"])
    show "rpc W N E cap hash V p ob m call_args st = Option.bind (netchan_rpc W N E V p ob m call_args (st\<lparr>fu_streams := c\<rparr>))
        (\<lambda>(taken, st2). if taken then Some (Rpc_Ok, st2) else rpc_through_inner N E V p ob m call_args st2)"
      unfolding rpc_def if_P [OF True] s by simp
  qed simp_all
next
  case False
  show thesis
  proof (rule that [of st])
    show "rpc W N E cap hash V p ob m call_args st = Option.bind (netchan_rpc W N E V p ob m call_args st)
        (\<lambda>(taken, st2). if taken then Some (Rpc_Ok, st2) else rpc_through_inner N E V p ob m call_args st2)"
      unfolding rpc_def if_not_P [OF False] by simp
  qed simp_all
qed

subsection \<open>The funnel is the inner API\<close>

text \<open>C15: with nothing simulated and nobody rated the funnel is transparent. Every call the netchan leaves (of
  no RPC method, on another channel, on no node in the tree, with no open connection, from a client to another client
  or too big for a datagram, from the host to itself or a peer it does not have) and that is no command
  is exactly one call of the inner API, to the same peer, object and method with the same arguments, made
  before it returns, and its result is the inner's. And a host's unreliable call with more than 512 bytes of
  arguments, which the netchan takes, is one such call to each of its recipients, and the
  host's own copy where \<open>call_local\<close> asks for it.\<close>

theorem rpc_transparent:
  assumes "p = 1 \<and> fe_status V \<noteq> None \<and> fe_unique V \<noteq> 1 \<Longrightarrow> fst (command_stream E cap hash ob m (fu_streams st)) = None"
    and "link_off N V (fu_sim st)"
  shows "(\<not> netchan_takes W E V p ob m call_args (fu_msgs st) \<longrightarrow>
      (\<exists>st1. rpc W N E cap hash V p ob m call_args st = Some (Rpc_Inner, st1) \<and>
        fu_out st1 = fu_out st @ [Inner_Rpc \<lparr>pd_peer = p, pd_object = ro_id ob, pd_method = m, pd_args = call_args\<rparr>] \<and>
        fu_sim st1 = fu_sim st \<and> msg_targets (fu_msgs st1) = msg_targets (fu_msgs st) \<and>
        (fe_unique V = 1 \<or> p \<noteq> 1 \<longrightarrow> fu_msgs st1 = fu_msgs st))) \<and>
    (\<forall>cfg. netchan_takes W E V p ob m call_args (fu_msgs st) \<longrightarrow> fe_unique V = 1 \<longrightarrow>
        rpc_method_config (rpc_object.truncate ob) m = Some cfg \<longrightarrow> cfg_int E cfg ''transfer_mode'' MODE_RELIABLE \<noteq> MODE_RELIABLE \<longrightarrow>
        MAX_UNRELIABLE_MESSAGE < int (length (put_args W E call_args)) \<longrightarrow>
      (\<exists>st1. rpc W N E cap hash V p ob m call_args st = Some (Rpc_Ok, st1) \<and> fu_sim st1 = fu_sim st \<and>
        fu_out st1 = fu_out st @
          map (\<lambda>t. Inner_Rpc \<lparr>pd_peer = t, pd_object = ro_id ob, pd_method = m, pd_args = call_args\<rparr>)
            (netchan_targets V p @ (if cfg_bool E cfg ''call_local'' False \<and> p \<le> 0 \<and> p \<noteq> - 1 then [1] else []))))"
proof -
  obtain st0 where st0: "fu_sim st0 = fu_sim st" "fu_out st0 = fu_out st" "fu_msgs st0 = fu_msgs st"
    and call: "rpc W N E cap hash V p ob m call_args st = Option.bind (netchan_rpc W N E V p ob m call_args st0)
      (\<lambda>(taken, st2). if taken then Some (Rpc_Ok, st2) else rpc_through_inner N E V p ob m call_args st2)"
    by (rule rpc_no_command [OF assms(1)])
  show ?thesis
  proof (intro conjI impI allI)
    assume "\<not> netchan_takes W E V p ob m call_args (fu_msgs st)"
    then obtain s where s: "netchan_rpc W N E V p ob m call_args st0 = Some (False, s)" "fu_out s = fu_out st"
      "fu_sim s = fu_sim st" "msg_targets (fu_msgs s) = msg_targets (fu_msgs st)" "fe_unique V = 1 \<or> p \<noteq> 1 \<longrightarrow> fu_msgs s = fu_msgs st"
      using netchan_leaves [of W E V p ob m call_args st0 N] st0 by auto
    then show "\<exists>st1. rpc W N E cap hash V p ob m call_args st = Some (Rpc_Inner, st1) \<and>
        fu_out st1 = fu_out st @ [Inner_Rpc \<lparr>pd_peer = p, pd_object = ro_id ob, pd_method = m, pd_args = call_args\<rparr>] \<and>
        fu_sim st1 = fu_sim st \<and> msg_targets (fu_msgs st1) = msg_targets (fu_msgs st) \<and>
        (fe_unique V = 1 \<or> p \<noteq> 1 \<longrightarrow> fu_msgs st1 = fu_msgs st)"
      using inner_off [of N V s E p ob m call_args] assms(2) by (simp add: call)
  next
    fix cfg
    assume t: "netchan_takes W E V p ob m call_args (fu_msgs st)" "fe_unique V = 1"
      "rpc_method_config (rpc_object.truncate ob) m = Some cfg" "cfg_int E cfg ''transfer_mode'' MODE_RELIABLE \<noteq> MODE_RELIABLE"
      and big: "MAX_UNRELIABLE_MESSAGE < int (length (put_args W E call_args))"
    obtain s where s: "netchan_loop W N E V ob m call_args False (netchan_targets V p) st0 = Some s" "fu_sim s = fu_sim st"
      "fu_out s = fu_out st @ map (\<lambda>t. Inner_Rpc \<lparr>pd_peer = t, pd_object = ro_id ob, pd_method = m, pd_args = call_args\<rparr>) (netchan_targets V p)"
      using oversized_loop [OF big, of N V st0 ob m "netchan_targets V p"] assms(2) st0 by auto
    have "(p = 0 \<or> p < 0 \<and> p \<noteq> - 1) = (p \<le> 0 \<and> p \<noteq> - 1)" by auto
    then show "\<exists>st1. rpc W N E cap hash V p ob m call_args st = Some (Rpc_Ok, st1) \<and> fu_sim st1 = fu_sim st \<and>
        fu_out st1 = fu_out st @
          map (\<lambda>t. Inner_Rpc \<lparr>pd_peer = t, pd_object = ro_id ob, pd_method = m, pd_args = call_args\<rparr>)
            (netchan_targets V p @ (if cfg_bool E cfg ''call_local'' False \<and> p \<le> 0 \<and> p \<noteq> - 1 then [1] else []))"
      using t s by (auto simp: call netchan_rpc_def netchan_takes_def)
  qed
qed

lemma rpc_transparent_witness:
  "\<exists>st1. rpc demo_wire demo_link demo_engine 16 (\<lambda>_. 5) (demo_env\<lparr>fe_unique := 3\<rparr>) 4 demo_said ''go'' [VInt 4] (demo_funnel 0) =
      Some (Rpc_Inner, st1) \<and>
     fu_out st1 = [Inner_Rpc \<lparr>pd_peer = 4, pd_object = 9, pd_method = ''go'', pd_args = [VInt 4]\<rparr>]"
proof -
  have "link_off demo_link (demo_env\<lparr>fe_unique := 3\<rparr>) (fu_sim (demo_funnel 0))"
    by (simp add: link_off_def demo_link_def demo_env_def demo_funnel_def)
  from rpc_transparent [OF _ this, THEN conjunct1, of 4 demo_engine 16 "\<lambda>_. 5" demo_said "''go''" demo_wire "[VInt 4]"] show ?thesis
    by (auto simp: netchan_takes_def demo_env_def demo_funnel_def demo_said_def split: option.splits)
qed

end
