(* ===== verification/Rpc_Stats.thy ===== *)
theory Rpc_Stats
  imports Funnel
begin

section \<open>The RPC counters\<close>

text \<open>
  \<open>GOLDNET_RPC_STATS\<close>: \<open>_rpc_stats_count\<close>, which \<open>_rpc\<close> calls first, the two counters of
  \<open>ServerHost::send\<close>, and \<open>_rpc_stats_print\<close>, which \<open>_poll\<close> calls while there is an open peer. What is printed
  is the record \<open>rpc_report\<close>: the numbers and rows of one print, before \<open>String::num\<close> turns them into
  text by the second. \<open>std::sort\<close> leaves the order of equal rows open; the model keeps the table's. The owner
  of a method (its caller's script file, or class) is the argument \<open>owner\<close>.

  The lemmas show where the count of a call is one recipient short, and that the prints add up: every byte
  counted is printed once, or is still in the table.
\<close>

subsection \<open>Counting a call\<close>

record rpc_stat =
  rs_calls :: u64
  rs_sends :: u64
  rs_bytes :: u64
  rs_unreliable :: bool
  rs_owner :: string

definition rpc_stat0 :: rpc_stat where
  "rpc_stat0 = \<lparr>rs_calls = 0, rs_sends = 0, rs_bytes = 0, rs_unreliable = False, rs_owner = []\<rparr>"

record rpc_counters =
  rw_last_ms :: u64
  rw_snap_bytes :: u64
  rw_snap_sends :: u64
  rw_methods :: "(string, rpc_stat) hash_map"

definition rpc_counters0 :: rpc_counters where
  "rpc_counters0 = \<lparr>rw_last_ms = 0, rw_snap_bytes = 0, rw_snap_sends = 0, rw_methods = []\<rparr>"

abbreviation RPC_HEADER_EST :: int where "RPC_HEADER_EST \<equiv> 12"

definition stat_recipients :: "funnel_env \<Rightarrow> peer \<Rightarrow> int" where
  "stat_recipients V p =
     (if p \<le> 0 then (let n = int (length (fe_peers V)) in if p < 0 \<and> 0 < n then n - 1 else n) else 1)"

definition stat_bytes :: "engine \<Rightarrow> variant list \<Rightarrow> int" where
  "stat_bytes E call_args = foldl (\<lambda>b v. b + int (length (var_to_bytes E v))) RPC_HEADER_EST call_args"

definition rpc_stats_count ::
  "engine \<Rightarrow> (command_node \<Rightarrow> string) \<Rightarrow> funnel_env \<Rightarrow> peer \<Rightarrow> command_node \<Rightarrow> string \<Rightarrow> variant list \<Rightarrow>
   rpc_counters \<times> unreliable_cache \<Rightarrow> rpc_counters \<times> unreliable_cache" where
  "rpc_stats_count E owner V p ob m call_args stc =
     (let (st, c) = stc; n = stat_recipients V p in
      if p = fe_unique V then (st, c)
      else if n \<le> 0 then (st, c)
      else
        let s = (case hm_get (rw_methods st) m of Some s \<Rightarrow> s | None \<Rightarrow> rpc_stat0);
            (s1, c1) = (if rs_calls s = 0
                        then (let (u, c1) = rpc_is_unreliable E (rpc_object.truncate ob) m c
                              in (s\<lparr>rs_unreliable := u, rs_owner := owner ob\<rparr>, c1))
                        else (s, c))
        in (st\<lparr>rw_methods := hm_put m
                 (s1\<lparr>rs_calls := rs_calls s1 + 1, rs_sends := rs_sends s1 + of_int n,
                     rs_bytes := rs_bytes s1 + of_int (stat_bytes E call_args) * of_int n\<rparr>) (rw_methods st)\<rparr>, c1))"

text \<open>The counters of \<open>ServerHost::send\<close>, for a snapshot of \<open>n\<close> bytes.\<close>

definition stats_snapshot :: "nat \<Rightarrow> rpc_counters \<Rightarrow> rpc_counters" where
  "stats_snapshot n st =
     st\<lparr>rw_snap_bytes := rw_snap_bytes st + (of_nat n + 8 + of_int RPC_HEADER_EST),
        rw_snap_sends := rw_snap_sends st + 1\<rparr>"

subsection \<open>The print\<close>

text \<open>One line of a host's print for each peer: its reliable messages delivered and queued, and the datagrams
  dropped, from the core's \<open>peer_stats\<close>.\<close>

record peer_line =
  pl_peer :: peer
  pl_delivered :: u64
  pl_queued :: u64
  pl_dropped :: u64

record rpc_report =
  rr_span :: u64
  rr_netchan :: "peer_line list"
  rr_peers :: nat
  rr_snap_bytes :: u64
  rr_snap_sends :: u64
  rr_bytes :: u64
  rr_sends :: u64
  rr_rows :: "(string \<times> rpc_stat \<times> u64) list"

definition row_average :: "rpc_stat \<Rightarrow> u64" where
  "row_average s = (if rs_sends s \<noteq> 0 then rs_bytes s div rs_sends s else 0)"

definition heaviest_first :: "(string, rpc_stat) hash_map \<Rightarrow> (string, rpc_stat) hash_map" where
  "heaviest_first rows = sort_key (\<lambda>(m, s). - uint (rs_bytes s)) rows"

definition rpc_stats_print ::
  "funnel_env \<Rightarrow> peer_line list \<Rightarrow> u64 \<Rightarrow> rpc_counters \<Rightarrow> rpc_report option \<times> rpc_counters" where
  "rpc_stats_print V lines now st =
     (if rw_last_ms st = 0 then (None, st\<lparr>rw_last_ms := now\<rparr>)
      else
        let span = now - rw_last_ms st in
        if span < 5000 then (None, st)
        else
          (Some \<lparr>rr_span = span, rr_netchan = (if fe_unique V = 1 then lines else []),
                 rr_peers = length (fe_peers V), rr_snap_bytes = rw_snap_bytes st, rr_snap_sends = rw_snap_sends st,
                 rr_bytes = foldl (\<lambda>b (m, s). b + rs_bytes s) 0 (rw_methods st),
                 rr_sends = foldl (\<lambda>b (m, s). b + rs_sends s) 0 (rw_methods st),
                 rr_rows = map (\<lambda>(m, s). (m, s, row_average s)) (heaviest_first (rw_methods st))\<rparr>,
           \<lparr>rw_last_ms = now, rw_snap_bytes = 0, rw_snap_sends = 0, rw_methods = []\<rparr>))"

subsection \<open>A run: calls, snapshots and polls, with what was printed\<close>

record stats_run =
  sr_counters :: rpc_counters
  sr_cache :: unreliable_cache
  sr_printed :: "rpc_report list"

datatype stats_event =
    Stats_Call funnel_env peer command_node string "variant list"
  | Stats_Snapshot nat
  | Stats_Poll funnel_env "peer_line list" u64

fun stats_step :: "engine \<Rightarrow> (command_node \<Rightarrow> string) \<Rightarrow> stats_run \<Rightarrow> stats_event \<Rightarrow> stats_run" where
  "stats_step E owner st (Stats_Call V p ob m call_args) =
     (let (cs, c) = rpc_stats_count E owner V p ob m call_args (sr_counters st, sr_cache st)
      in st\<lparr>sr_counters := cs, sr_cache := c\<rparr>)"
| "stats_step E owner st (Stats_Snapshot n) = st\<lparr>sr_counters := stats_snapshot n (sr_counters st)\<rparr>"
| "stats_step E owner st (Stats_Poll V lines now) =
     (case rpc_stats_print V lines now (sr_counters st) of
        (None, cs) \<Rightarrow> st\<lparr>sr_counters := cs\<rparr>
      | (Some r, cs) \<Rightarrow> st\<lparr>sr_counters := cs, sr_printed := sr_printed st @ [r]\<rparr>)"

text \<open>What an event adds to the books.\<close>

datatype book = Call_Bytes | Call_Sends | Snapshot_Bytes | Snapshot_Sends

fun stats_charge :: "engine \<Rightarrow> stats_event \<Rightarrow> book \<Rightarrow> u64" where
  "stats_charge E (Stats_Call V p ob m call_args) k =
     (if p = fe_unique V \<or> stat_recipients V p \<le> 0 then 0
      else case k of
        Call_Bytes \<Rightarrow> of_int (stat_bytes E call_args * stat_recipients V p)
      | Call_Sends \<Rightarrow> of_int (stat_recipients V p)
      | _ \<Rightarrow> 0)"
| "stats_charge E (Stats_Snapshot n) k =
     (case k of Snapshot_Bytes \<Rightarrow> of_nat (n + 20) | Snapshot_Sends \<Rightarrow> 1 | _ \<Rightarrow> 0)"
| "stats_charge E (Stats_Poll V lines now) k = 0"

definition tally :: "('a \<Rightarrow> 'b::comm_monoid_add) \<Rightarrow> 'a list \<Rightarrow> 'b" where
  "tally f xs = sum_list (map f xs)"

lemma tally_simps [simp]: "tally f [] = 0" "tally f (x # xs) = f x + tally f xs" "tally f (xs @ ys) = tally f xs + tally f ys"
  by (simp_all add: tally_def)

text \<open>What was counted under a heading and is printed, and what is not printed yet.\<close>

fun printed :: "rpc_report \<Rightarrow> book \<Rightarrow> u64" where
  "printed r Call_Bytes = rr_bytes r"
| "printed r Call_Sends = rr_sends r"
| "printed r Snapshot_Bytes = rr_snap_bytes r"
| "printed r Snapshot_Sends = rr_snap_sends r"

fun unprinted :: "rpc_counters \<Rightarrow> book \<Rightarrow> u64" where
  "unprinted st Call_Bytes = tally (rs_bytes \<circ> snd) (rw_methods st)"
| "unprinted st Call_Sends = tally (rs_sends \<circ> snd) (rw_methods st)"
| "unprinted st Snapshot_Bytes = rw_snap_bytes st"
| "unprinted st Snapshot_Sends = rw_snap_sends st"

definition stats_books :: "stats_run \<Rightarrow> book \<Rightarrow> u64" where
  "stats_books st k = tally (\<lambda>r. printed r k) (sr_printed st) + unprinted (sr_counters st) k"

lemma foldl_tally: "foldl (\<lambda>b (m, s). b + f s) (a :: u64) rows = a + tally (f \<circ> snd) rows"
  by (induction rows arbitrary: a) (auto simp: add.assoc)

lemma tally_put:
  fixes f :: "'v \<Rightarrow> u64"
  assumes "hm_wf m"
  shows "tally (f \<circ> snd) (hm_put k v m) =
    tally (f \<circ> snd) m + f v - (case hm_get m k of Some w \<Rightarrow> f w | None \<Rightarrow> 0)"
  using assms by (induction m) (auto simp: hm_wf_def hm_put_def hm_get_def split: option.split)

lemma count_keeps_wf:
  "hm_wf (rw_methods (fst stc)) \<Longrightarrow> hm_wf (rw_methods (fst (rpc_stats_count E owner V p ob m call_args stc)))"
  by (auto simp: rpc_stats_count_def Let_def split_beta)

lemma print_keeps_wf: "hm_wf (rw_methods st) \<Longrightarrow> hm_wf (rw_methods (snd (rpc_stats_print V lines now st)))"
  by (simp add: rpc_stats_print_def Let_def)

interpretation counters: machine "stats_step E owner" "\<lambda>_ _. True" "\<lambda>st. hm_wf (rw_methods (sr_counters st))" for E owner
proof unfold_locales
  fix s :: stats_run and e
  assume wf: "hm_wf (rw_methods (sr_counters s))"
  show "hm_wf (rw_methods (sr_counters (stats_step E owner s e)))"
  proof (cases e)
    case (Stats_Call V p ob m call_args)
    then show ?thesis
      using count_keeps_wf [of "(sr_counters s, sr_cache s)" E owner V p ob m call_args] wf by (simp add: split_beta)
  next
    case (Stats_Snapshot n)
    then show ?thesis using wf by (simp add: stats_snapshot_def)
  next
    case (Stats_Poll V lines now)
    then show ?thesis
      using print_keeps_wf [OF wf, of V lines now] by (auto split: prod.split option.split)
  qed
qed

lemma count_unprinted:
  assumes "hm_wf (rw_methods st)"
  shows "unprinted (fst (rpc_stats_count E owner V p ob m call_args (st, c))) k =
    unprinted st k + stats_charge E (Stats_Call V p ob m call_args) k"
  using assms
  by (cases k) (auto simp: rpc_stats_count_def Let_def split_beta tally_put rpc_stat0_def split: option.split)

lemma print_unprinted:
  "(case fst (rpc_stats_print V lines now st) of Some r \<Rightarrow> printed r k | None \<Rightarrow> 0) +
     unprinted (snd (rpc_stats_print V lines now st)) k = unprinted st k"
  by (cases k) (simp_all add: rpc_stats_print_def Let_def foldl_tally)

lemma books_step:
  assumes "hm_wf (rw_methods (sr_counters st))"
  shows "stats_books (stats_step E owner st e) k = stats_books st k + stats_charge E e k"
proof (cases e)
  case (Stats_Call V p ob m call_args)
  then show ?thesis
    using count_unprinted [OF assms, of E owner V p ob m call_args "sr_cache st" k]
    by (simp add: stats_books_def split_beta del: stats_charge.simps)
next
  case (Stats_Snapshot n)
  then show ?thesis by (cases k) (simp_all add: stats_books_def stats_snapshot_def)
next
  case (Stats_Poll V lines now)
  then show ?thesis
    using print_unprinted [where V = V and lines = lines and now = now and st = "sr_counters st" and k = k]
    by (auto simp: stats_books_def add.assoc split: prod.splits option.splits)
qed

lemma books_run:
  "hm_wf (rw_methods (sr_counters st)) \<Longrightarrow>
     stats_books (run (stats_step E owner) st es) k = stats_books st k + tally (\<lambda>e. stats_charge E e k) es"
  by (induction es arbitrary: st) (simp_all add: books_step counters.inv_step add.assoc)

subsection \<open>A counted call\<close>

text \<open>\<open>_rpc\<close> from its first line: \<open>on\<close> is \<open>rpc_stats\<close>.\<close>

definition rpc_counted ::
  "bool \<Rightarrow> wire \<Rightarrow> ('s, pending_send) netsim \<Rightarrow> engine \<Rightarrow> nat \<Rightarrow> (string \<Rightarrow> u32) \<Rightarrow> (command_node \<Rightarrow> string) \<Rightarrow>
   funnel_env \<Rightarrow> peer \<Rightarrow> command_node \<Rightarrow> string \<Rightarrow> variant list \<Rightarrow> rpc_counters \<Rightarrow> 's funnel \<Rightarrow>
   rpc_counters \<times> (rpc_result \<times> 's funnel) option" where
  "rpc_counted on W N E cap hash owner V p ob m call_args cs st =
     (let (cs1, c) = (if on then rpc_stats_count E owner V p ob m call_args (cs, fu_unreliable st)
                      else (cs, fu_unreliable st))
      in (cs1, rpc W N E cap hash V p ob m call_args (st\<lparr>fu_unreliable := c\<rparr>)))"

text \<open>Only \<open>rpc_through_inner\<close> reads the cache of unreliable methods; the rest of a call carries it along.\<close>

abbreviation with_cache :: "unreliable_cache \<Rightarrow> 's funnel \<Rightarrow> 's funnel" where
  "with_cache c st \<equiv> st\<lparr>fu_unreliable := c\<rparr>"

lemma carry_send_on_link:
  "send_on_link N E V ps droppable bytes (with_cache c st) =
     apsnd (with_cache c) (send_on_link N E V ps droppable bytes st)"
  by (simp add: send_on_link_def Let_def split_beta put_out_def)

lemma carry_sim_send:
  "sim_send k N E V ps droppable bytes (with_cache c st) =
     map_option (apsnd (with_cache c)) (sim_send k N E V ps droppable bytes st)"
proof (induction k arbitrary: ps st)
  case (Suc k)
  let ?f = "\<lambda>s t. Option.bind s (\<lambda>st. map_option snd (sim_send k N E V (ps\<lparr>pd_peer := t\<rparr>) droppable bytes st))"
  have "foldl ?f (map_option (with_cache c) s) ts = map_option (with_cache c) (foldl ?f s ts)" for s ts
  proof (induction ts arbitrary: s)
    case (Cons t ts)
    have "?f (map_option (with_cache c) s) t = map_option (with_cache c) (?f s t)"
      by (cases s) (simp_all add: Suc.IH option.map_comp comp_def)
    then show ?case using Cons.IH [of "?f s t"] by simp
  qed simp
  from this [of "Some st"] show ?case
    by (simp add: carry_send_on_link option.map_comp comp_def)
qed simp

lemma carry_check_overflow: "check_overflow V p (with_cache c st) = with_cache c (check_overflow V p st)"
  by (simp add: check_overflow_def put_out_def)

lemma carry_charge_rpc: "charge_rpc E V p call_args (with_cache c st) = with_cache c (charge_rpc E V p call_args st)"
  by (simp add: charge_rpc_def put_out_def)

lemma carry_queue_call:
  "queue_call W E V t n m call_args rel (with_cache c st) = apsnd (with_cache c) (queue_call W E V t n m call_args rel st)"
  by (simp add: queue_call_def split_beta put_out_def)

lemmas carried = carry_send_on_link carry_sim_send carry_check_overflow carry_charge_rpc carry_queue_call

lemma carry_netchan_loop:
  "netchan_loop W N E V n m call_args rel ts (with_cache c st) =
     map_option (with_cache c) (netchan_loop W N E V n m call_args rel ts st)"
proof (induction ts arbitrary: st)
  case (Cons t ts)
  have one: "Option.bind (map_option (apsnd (with_cache c)) x) (\<lambda>(res, s). netchan_loop W N E V n m call_args rel ts s) =
      map_option (with_cache c) (Option.bind x (\<lambda>(res, s). netchan_loop W N E V n m call_args rel ts s))"
    for x :: "(rpc_result \<times> 'a funnel) option"
    by (cases x) (simp_all add: Cons.IH split_beta)
  show ?case by (simp add: carried split_beta Cons.IH one del: sim_send.simps)
qed simp

lemma carry_netchan_rpc:
  "netchan_rpc W N E V p ob m call_args (with_cache c st) =
     map_option (apsnd (with_cache c)) (netchan_rpc W N E V p ob m call_args st)"
proof (cases "rpc_method_config (rpc_object.truncate ob) m")
  case None
  then show ?thesis by (simp add: netchan_rpc_def)
next
  case (Some cfg)
  then show ?thesis
    by (cases "netchan_loop W N E V ob m call_args
          (cfg_int E cfg ''transfer_mode'' MODE_RELIABLE = MODE_RELIABLE) (netchan_targets V p) st")
      (simp_all add: netchan_rpc_def Let_def carried carry_netchan_loop split_beta put_out_def)
qed

text \<open>What a call sends through the inner depends on the cache only by the answer it gives for this method.\<close>

lemma carry_sim_loss: "sim_loss N (with_cache c st) = apsnd (with_cache c) (sim_loss N st)"
  by (simp add: sim_loss_def split_beta)

lemma recache: "apsnd (with_cache c1) (apsnd (with_cache c) x) = apsnd (with_cache c1) x"
  by (cases x) simp

lemma cache_through_inner:
  assumes "fst (rpc_is_unreliable E (rpc_object.truncate ob) m c) =
    fst (rpc_is_unreliable E (rpc_object.truncate ob) m (fu_unreliable st))"
  shows "map_option (apsnd (with_cache [])) (rpc_through_inner N E V p ob m call_args (with_cache c st)) =
    map_option (apsnd (with_cache [])) (rpc_through_inner N E V p ob m call_args st)"
  using assms
  by (auto simp: rpc_through_inner_def Let_def split_beta carry_sim_loss carried option.map_comp comp_def recache
      simp del: sim_send.simps)

lemma counted_answer:
  "fst (rpc_is_unreliable E (rpc_object.truncate ob) m (snd (rpc_stats_count E owner V p ob m call_args (cs, c)))) =
     fst (rpc_is_unreliable E (rpc_object.truncate ob) m c)"
proof -
  have "fst (rpc_is_unreliable E x m (snd (rpc_is_unreliable E x m c))) = fst (rpc_is_unreliable E x m c)" for x
    by (cases "cache_find c (ro_id x) m") (simp_all add: rpc_is_unreliable_def cache_find_store Let_def)
  then show ?thesis by (simp add: rpc_stats_count_def Let_def split_beta)
qed

lemma cache_through_rpc:
  assumes "fst (rpc_is_unreliable E (rpc_object.truncate ob) m c) =
    fst (rpc_is_unreliable E (rpc_object.truncate ob) m (fu_unreliable st))"
  shows "map_option (apsnd (with_cache [])) (rpc W N E cap hash V p ob m call_args (with_cache c st)) =
    map_option (apsnd (with_cache [])) (rpc W N E cap hash V p ob m call_args st)"
proof -
  have command: "rpc_command W E V sig call_args (with_cache c s) = apsnd (with_cache c) (rpc_command W E V sig call_args s)"
    for sig s by (simp add: rpc_command_def put_out_def split: sum.split)
  have tail: "map_option (apsnd (with_cache []))
        (Option.bind (netchan_rpc W N E V p ob m call_args (with_cache c s))
          (\<lambda>(taken, s1). if taken then Some (Rpc_Ok, s1) else rpc_through_inner N E V p ob m call_args s1)) =
      map_option (apsnd (with_cache []))
        (Option.bind (netchan_rpc W N E V p ob m call_args s)
          (\<lambda>(taken, s1). if taken then Some (Rpc_Ok, s1) else rpc_through_inner N E V p ob m call_args s1))"
    if "fu_unreliable s = fu_unreliable st" for s
  proof (cases "netchan_rpc W N E V p ob m call_args s")
    case (Some r)
    have "s = with_cache (fu_unreliable s) s" by simp
    then have "netchan_rpc W N E V p ob m call_args s =
        map_option (apsnd (with_cache (fu_unreliable s))) (netchan_rpc W N E V p ob m call_args s)"
      by (metis carry_netchan_rpc)
    with Some have "r = apsnd (with_cache (fu_unreliable s)) r" by simp
    then have "fu_unreliable (snd r) = fu_unreliable st"
      by (metis that apsnd_conv funnel.select_convs(3) funnel.surjective funnel.update_convs(3) prod.collapse snd_conv)
    then show ?thesis
      using Some cache_through_inner [of E ob m c "snd r"] assms
      by (cases r) (simp add: carry_netchan_rpc)
  qed (simp add: carry_netchan_rpc)
  have streams: "(with_cache c s)\<lparr>fu_streams := x\<rparr> = with_cache c (s\<lparr>fu_streams := x\<rparr>)" for s x
    by simp
  show ?thesis
    using tail by (auto simp: rpc_def Let_def split_beta command recache streams split: option.split)
qed

subsection \<open>Properties\<close>

text \<open>The prints add up: over any run of calls, snapshots and polls, what is printed under a heading and what is
  still in the counters is what was counted, nothing twice and nothing left out (modulo \<open>2 ^ 64\<close>).\<close>

theorem rpc_stats_add_up:
  "tally (\<lambda>r. printed r k) (sr_printed (run (stats_step E owner) \<lparr>sr_counters = rpc_counters0, sr_cache = c, sr_printed = []\<rparr> es)) +
     unprinted (sr_counters (run (stats_step E owner) \<lparr>sr_counters = rpc_counters0, sr_cache = c, sr_printed = []\<rparr> es)) k =
   tally (\<lambda>e. stats_charge E e k) es"
proof -
  have "stats_books \<lparr>sr_counters = rpc_counters0, sr_cache = c, sr_printed = []\<rparr> k = 0"
    by (cases k) (simp_all add: stats_books_def rpc_counters0_def)
  then show ?thesis
    using books_run [of "\<lparr>sr_counters = rpc_counters0, sr_cache = c, sr_printed = []\<rparr>" E owner es k]
    by (simp add: stats_books_def [symmetric]) (simp add: rpc_counters0_def)
qed

text \<open>A print covers at least five seconds, lists every method counted since the last one once, the heaviest first,
  and leaves the counters empty from its clock on.\<close>

theorem rpc_report_complete:
  assumes "rpc_stats_print V lines now st = (Some r, st1)"
  shows "5000 \<le> rr_span r \<and>
    mset (rr_rows r) = mset (map (\<lambda>(m, s). (m, s, row_average s)) (rw_methods st)) \<and>
    sorted_wrt (\<lambda>(m, s, a) (m1, s1, a1). rs_bytes s1 \<le> rs_bytes s) (rr_rows r) \<and>
    st1 = rpc_counters0\<lparr>rw_last_ms := now\<rparr>"
proof -
  have r: "rr_rows r = map (\<lambda>(m, s). (m, s, row_average s)) (heaviest_first (rw_methods st))"
    "rr_span r = now - rw_last_ms st" "5000 \<le> now - rw_last_ms st" "st1 = rpc_counters0\<lparr>rw_last_ms := now\<rparr>"
    using assms by (auto simp: rpc_stats_print_def Let_def rpc_counters0_def split: if_splits)
  have "sorted_wrt (\<lambda>(m, s) (m1, s1). rs_bytes s1 \<le> rs_bytes s) (heaviest_first rows)" for rows
  proof -
    have "sorted (map (\<lambda>(m, s). - uint (rs_bytes s)) (heaviest_first rows))"
      by (simp add: heaviest_first_def)
    then show ?thesis
      unfolding sorted_map by (rule sorted_wrt_mono_rel [rotated]) (auto simp: word_le_def)
  qed
  then have "sorted_wrt (\<lambda>(m, s, a) (m1, s1, a1). rs_bytes s1 \<le> rs_bytes s) (rr_rows r)"
    by (simp add: r sorted_wrt_map split_def)
  moreover have "mset (rr_rows r) = mset (map (\<lambda>(m, s). (m, s, row_average s)) (rw_methods st))"
    by (simp only: r mset_map heaviest_first_def mset_sort)
  ultimately show ?thesis using r by simp
qed

text \<open>Counting only watches: with the counters on, a call returns what it returns with them off, and leaves the
  same sim, messages, signatures and log of what left the binding; only the cache of unreliable methods may
  hold one answer more.\<close>

theorem rpc_counting_observes:
  "map_option (apsnd (with_cache [])) (snd (rpc_counted True W N E cap hash owner V p ob m call_args cs st)) =
   map_option (apsnd (with_cache [])) (snd (rpc_counted False W N E cap hash owner V p ob m call_args cs st))"
  using cache_through_rpc [OF counted_answer [of E ob m owner V p call_args cs "fu_unreliable st"]]
  by (simp add: rpc_counted_def split_beta)

text \<open>C17: the RPC counters come out one recipient short on a host for a call to all but one peer that is not
  there, the host itself above all (\<open>-1\<close>, everybody but me): the call goes to every peer and is counted for
  one fewer, and with a single client it is not counted at all.\<close>

theorem rpc_stats_undercount:
  assumes "p < 0" "- p \<notin> set (fe_peers V)" "fe_peers V \<noteq> []"
  shows "stat_recipients V p = int (length (netchan_targets V p)) - 1 \<and>
    (if length (fe_peers V) = 1 then rpc_stats_count E owner V p ob m call_args (st, c) = (st, c) else True)"
proof -
  have "filter (\<lambda>t. t \<noteq> - p) (fe_peers V) = fe_peers V"
    using assms(2) by (induction "fe_peers V") (auto intro: filter_True)
  then show ?thesis
    using assms by (simp add: stat_recipients_def netchan_targets_def rpc_stats_count_def Let_def)
qed

lemma rpc_stats_undercount_witness: "stat_recipients demo_env (- 1) = int (length [2::int, 3, 4]) - 1"
  using rpc_stats_undercount [of "- 1" demo_env] by (simp add: demo_env_def netchan_targets_def)

end
