(* ===== verification/World.thy ===== *)
theory World
  imports Slot_Plan Net_Ids
begin

section \<open>The scene as the binding asks about it\<close>

text \<open>
  Which nodes are alive, of which class, where they are in the tree: the answers of \<open>ObjectDB\<close>, \<open>Node\<close>,
  \<open>MultiplayerSynchronizer\<close> and \<open>MultiplayerSpawner\<close> that the replication code asks for, as one record.
  The scene belongs to the game, so every operation takes the world it runs in, and nothing relates the
  worlds of two operations unless a lemma says so. \<open>wd_class\<close> is \<open>None\<close> for an ObjectID that is no
  live node; \<open>wd_up\<close> lists a node and its ancestors, \<open>wd_tree\<close> a node with everything below it.
\<close>

datatype node_class = Plain_Node | Sync_Node | Spawner_Node

datatype node_tree = Node_Tree objid "node_tree list"

record world =
  wd_class :: "objid \<Rightarrow> node_class option"
  wd_in_tree :: "objid \<Rightarrow> bool"
  wd_authority :: "objid \<Rightarrow> bool"
  wd_sync :: "objid \<Rightarrow> synchronizer"
  wd_interval :: "objid \<Rightarrow> f64"
  wd_public :: "objid \<Rightarrow> bool"
  wd_visible_for :: "objid \<Rightarrow> peer \<Rightarrow> bool"
  wd_up :: "objid \<Rightarrow> objid list"
  wd_tree :: "objid \<Rightarrow> node_tree"
  wd_path :: "objid \<Rightarrow> string"
  wd_path_to :: "objid \<Rightarrow> objid \<Rightarrow> string"
  wd_at :: "objid \<Rightarrow> string \<Rightarrow> objid option"
  wd_root_at :: "string \<Rightarrow> objid option"
  wd_spawn_root :: "objid \<Rightarrow> objid option"
  wd_get :: "objid \<Rightarrow> node_path \<Rightarrow> variant"
  wd_scene :: scene

definition alive :: "world \<Rightarrow> objid \<Rightarrow> bool" where
  "alive Wd o1 = (wd_class Wd o1 \<noteq> None)"

text \<open>ObjectID 0 is the null object's.\<close>

definition world_ok :: "world \<Rightarrow> bool" where
  "world_ok Wd = (\<not> alive Wd 0)"

definition sync_from_objid :: "world \<Rightarrow> objid \<Rightarrow> objid option" where
  "sync_from_objid Wd o1 = (if wd_class Wd o1 = Some Sync_Node then Some o1 else None)"

text \<open>Every synchronizer at or under a node, in the order of the tree.\<close>

fun collect_syncs :: "world \<Rightarrow> node_tree \<Rightarrow> objid list" where
  "collect_syncs Wd (Node_Tree n kids) =
     (if wd_class Wd n = Some Sync_Node then [n] else []) @ concat (map (collect_syncs Wd) kids)"

fun tree_nodes :: "node_tree \<Rightarrow> objid list" where
  "tree_nodes (Node_Tree n kids) = n # concat (map tree_nodes kids)"

lemma collect_syncs_filter:
  "collect_syncs Wd t = filter (\<lambda>n. wd_class Wd n = Some Sync_Node) (tree_nodes t)"
proof (induction t)
  case (Node_Tree n kids)
  then have "concat (map (collect_syncs Wd) kids) =
      filter (\<lambda>n. wd_class Wd n = Some Sync_Node) (concat (map tree_nodes kids))"
    by (induction kids) auto
  then show ?case by simp
qed

lemma collect_syncs_class: "n \<in> set (collect_syncs Wd t) \<Longrightarrow> wd_class Wd n = Some Sync_Node"
  by (simp add: collect_syncs_filter)

subsection \<open>An empty scene, for concrete ones to be built from\<close>

definition no_sync :: synchronizer where
  "no_sync = \<lparr>sy_config = None, sy_root = None, sy_meta = []\<rparr>"

definition world0 :: world where
  "world0 =
     \<lparr>wd_class = \<lambda>_. None, wd_in_tree = \<lambda>_. True, wd_authority = \<lambda>_. True, wd_sync = \<lambda>_. no_sync,
      wd_interval = \<lambda>_. 0, wd_public = \<lambda>_. True, wd_visible_for = \<lambda>_ _. True, wd_up = \<lambda>o1. [o1],
      wd_tree = \<lambda>o1. Node_Tree o1 [], wd_path = \<lambda>_. [], wd_path_to = \<lambda>_ _. [], wd_at = \<lambda>_ _. None,
      wd_root_at = \<lambda>_. None, wd_spawn_root = \<lambda>_. None, wd_get = \<lambda>_ _. VNil,
      wd_scene = \<lparr>sc_node = \<lambda>_ _. None, sc_path_of = \<lambda>_. no_path, sc_alive = \<lambda>_. False,
                  sc_props = \<lambda>_. []\<rparr>\<rparr>"

end
