(* ===== verification/Ieee_Round.thy ===== *)
theory Ieee_Round
  imports Ieee
begin

section \<open>Rounding error of the floating-point operations\<close>

text \<open>
  The standard model of floating-point arithmetic for the operations of \<open>Ieee\<close>: in the normal
  range a rounded result differs from the exact one by at most half a unit in the last place
  (\<open>fp_round_normal\<close>), and is exact when the exact result has no bits below it.
\<close>

lemma log2n_bounds: "0 < n \<Longrightarrow> 2 ^ log2n n \<le> n \<and> n < 2 ^ Suc (log2n n)"
proof (induction n rule: log2n.induct)
  case (1 n)
  show ?case
  proof (cases "n < 2")
    case True
    with "1.prems" show ?thesis by (simp add: log2n.simps [of n])
  next
    case False
    with "1.IH" have "2 ^ log2n (n div 2) \<le> n div 2" "n div 2 < 2 ^ Suc (log2n (n div 2))"
      by auto
    with False show ?thesis by (auto simp: log2n.simps [of n])
  qed
qed

lemma log2n_real:
  assumes "0 < n"
  shows "(2 :: real) powi int (log2n n) \<le> real n" "real n < 2 powi (int (log2n n) + 1)"
proof -
  have "real (2 ^ log2n n) \<le> real n" "real n < real (2 ^ Suc (log2n n))"
    using log2n_bounds [OF assms] by (simp_all only: of_nat_le_iff of_nat_less_iff)
  then show "(2 :: real) powi int (log2n n) \<le> real n" "real n < 2 powi (int (log2n n) + 1)"
    by (simp_all add: power_int_add)
qed

definition fp_real :: "nat \<Rightarrow> int \<Rightarrow> real" where
  "fp_real m e = real m * 2 powi e"

lemma pow2_frac: "real (pow2_num e) / real (pow2_den e) = 2 powi e"
  by (simp add: pow2_num_def pow2_den_def power_int_def power_inverse divide_simps)

lemma pow2_pos [simp]: "0 < pow2_num e" "0 < pow2_den e"
  by (simp_all add: pow2_num_def pow2_den_def)

lemma pow2_nonzero [simp]: "pow2_num e \<noteq> 0" "pow2_den e \<noteq> 0"
  by (simp_all add: pow2_num_def pow2_den_def)

lemma pow2_num_real: "real (pow2_num e) = 2 powi e * real (pow2_den e)"
  using pow2_frac [of e] by (simp add: field_simps)

lemma fp_real_frac: "real (m * pow2_num e) / real (pow2_den e) = fp_real m e"
  by (simp add: fp_real_def pow2_num_real)

lemma two_powi_pos [simp]: "0 < (2 :: real) powi e"
  by simp

lemma two_powi_mono: "i \<le> j \<Longrightarrow> (2 :: real) powi i \<le> 2 powi j"
  by (rule power_int_increasing) auto

lemma two_powi_less: "(2 :: real) powi i < 2 powi j \<Longrightarrow> i < j"
  using two_powi_mono [of j i] by linarith

lemma two_powi_Suc: "(2 :: real) powi (i + 1) = 2 * 2 powi i"
  by (simp add: power_int_add)

lemma ilog2_rat_bounds:
  assumes "0 < n" "0 < d"
  shows "2 powi ilog2_rat n d \<le> real n / real d" "real n / real d < 2 powi (ilog2_rat n d + 1)"
proof -
  define a b where "a = log2n n" and "b = log2n d"
  define e where "e = int a - int b"
  have a: "(2 :: real) powi int a \<le> real n" "real n < 2 powi (int a + 1)"
    using log2n_real [OF assms(1)] unfolding a_def by simp_all
  have b: "(2 :: real) powi int b \<le> real d" "real d < 2 powi (int b + 1)"
    using log2n_real [OF assms(2)] unfolding b_def by simp_all
  have d: "0 < real d" using assms by simp
  have hi: "real n / real d < 2 powi (e + 1)"
  proof -
    have "real n < 2 powi (e + 1) * 2 powi int b"
      using a(2) power_int_add [of "2 :: real" "e + 1" "int b"] by (simp add: e_def algebra_simps)
    also have "\<dots> \<le> 2 powi (e + 1) * real d" using b(1) by simp
    finally show ?thesis using d by (simp add: field_simps)
  qed
  have lo: "2 powi (e - 1) \<le> real n / real d"
  proof -
    have "2 powi (e - 1) * real d \<le> 2 powi (e - 1) * 2 powi (int b + 1)"
      using b(2) by simp
    also have "\<dots> = 2 powi int a"
      using power_int_add [of "2 :: real" "e - 1" "int b + 1"] by (simp add: e_def)
    also have "\<dots> \<le> real n" by (rule a(1))
    finally show ?thesis using d by (simp add: field_simps)
  qed
  have test: "d * pow2_num e \<le> n * pow2_den e \<longleftrightarrow> 2 powi e \<le> real n / real d"
  proof -
    have "d * pow2_num e \<le> n * pow2_den e \<longleftrightarrow>
        real d * real (pow2_num e) \<le> real n * real (pow2_den e)"
      by (simp only: of_nat_mult [symmetric] of_nat_le_iff)
    also have "\<dots> \<longleftrightarrow> real d * 2 powi e * real (pow2_den e) \<le> real n * real (pow2_den e)"
      by (simp add: pow2_num_real)
    also have "\<dots> \<longleftrightarrow> real d * 2 powi e \<le> real n" by simp
    finally show ?thesis using d by (simp add: field_simps)
  qed
  have eq: "ilog2_rat n d = (if d * pow2_num e \<le> n * pow2_den e then e else e - 1)"
    by (simp add: ilog2_rat_def e_def a_def b_def Let_def)
  show "2 powi ilog2_rat n d \<le> real n / real d"
    using lo by (simp add: eq test)
  show "real n / real d < 2 powi (ilog2_rat n d + 1)"
    using hi by (simp add: eq test)
qed

lemma ilog2_rat_unique:
  assumes "0 < n" "0 < d" "2 powi e \<le> real n / real d" "real n / real d < 2 powi (e + 1)"
  shows "ilog2_rat n d = e"
  using ilog2_rat_bounds [OF assms(1,2)] assms(3,4)
    two_powi_less [of e "ilog2_rat n d + 1"] two_powi_less [of "ilog2_rat n d" "e + 1"]
  by linarith

lemma round_div_err:
  assumes "0 < b"
  shows "\<bar>real (round_div a b) - real a / real b\<bar> \<le> 1 / 2"
proof -
  define q r where "q = a div b" and "r = a mod b"
  have a: "real a = real b * real q + real r"
    by (simp add: q_def r_def of_nat_mult [symmetric] of_nat_add [symmetric] del: of_nat_mult of_nat_add)
  have r: "r < b" using assms by (simp add: r_def)
  have b: "0 < real b" using assms by simp
  have "real a / real b = real q + real r / real b" using b by (simp add: a field_simps)
  moreover have "0 \<le> real r / real b" "real r / real b \<le> 1" using r b by (simp_all add: field_simps)
  moreover have "b < 2 * r \<or> b = 2 * r \<Longrightarrow> 1 / 2 \<le> real r / real b" using b by (auto simp: field_simps)
  moreover have "\<not> b < 2 * r \<Longrightarrow> real r / real b \<le> 1 / 2" using b by (simp add: field_simps)
  ultimately show ?thesis
    unfolding round_div_def Let_def q_def [symmetric] r_def [symmetric] using assms
    by (auto simp: abs_le_iff)
qed

lemma round_div_exact: "0 < b \<Longrightarrow> b dvd a \<Longrightarrow> real (round_div a b) = real a / real b"
  by (auto simp: round_div_def Let_def real_of_nat_div dvd_def)

subsection \<open>Unpacking what was packed\<close>

lemma unpack_bits:
  assumes "0 < E" "E < 2 ^ eb - 1" "m < 2 ^ mb"
  shows "fp_unpack mb eb (fp_sign_bit mb eb s + (E * 2 ^ mb + m)) =
         FFin s (m + 2 ^ mb) (int E - fp_bias eb - int mb)"
    and "fp_sign_bit mb eb s + (E * 2 ^ mb + m) < 2 ^ (mb + eb + 1)"
proof -
  have lt: "E * 2 ^ mb + m < 2 ^ (mb + eb)"
  proof -
    have "E * 2 ^ mb + m < (E + 1) * 2 ^ mb" using assms(3) by simp
    also have "\<dots> \<le> 2 ^ eb * 2 ^ mb" using assms(2) by (intro mult_right_mono) auto
    finally show ?thesis by (simp add: power_add mult.commute)
  qed
  then show "fp_sign_bit mb eb s + (E * 2 ^ mb + m) < 2 ^ (mb + eb + 1)"
    by (simp add: fp_sign_bit_def)
  define w where "w = fp_sign_bit mb eb s + (E * 2 ^ mb + m)"
  have s: "w div 2 ^ (mb + eb) = (if s then 1 else 0)"
    using lt by (simp add: w_def fp_sign_bit_def)
  have dm: "w div 2 ^ mb = (if s then 2 ^ eb else 0) + E" "w mod 2 ^ mb = m"
  proof -
    have "w = ((if s then 2 ^ eb else 0) + E) * 2 ^ mb + m"
      by (simp add: w_def fp_sign_bit_def power_add algebra_simps)
    then show "w div 2 ^ mb = (if s then 2 ^ eb else 0) + E" "w mod 2 ^ mb = m"
      using assms(3) by simp_all
  qed
  have e: "(w div 2 ^ mb) mod 2 ^ eb = E" using assms(2) by (simp add: dm)
  show "fp_unpack mb eb (fp_sign_bit mb eb s + (E * 2 ^ mb + m)) =
      FFin s (m + 2 ^ mb) (int E - fp_bias eb - int mb)"
    using assms s e dm(2) by (simp add: fp_unpack_def Let_def w_def)
qed

lemma fp_round_normal:
  assumes n: "0 < n" and d: "0 < d" and eb: "2 \<le> eb"
    and lo: "1 - fp_bias eb \<le> ilog2_rat n d" and hi: "ilog2_rat n d < fp_bias eb"
  shows "\<exists>M K. fp_unpack mb eb (fp_round_rat mb eb s n d) = FFin s M K \<and> 2 ^ mb \<le> M \<and>
           \<bar>fp_real M K - real n / real d\<bar> \<le> (real n / real d) / 2 ^ (mb + 1) \<and>
           (d * pow2_num (fp_quantum mb eb n d) dvd n * pow2_den (fp_quantum mb eb n d) \<longrightarrow>
              fp_real M K = real n / real d) \<and>
           fp_round_rat mb eb s n d < 2 ^ (mb + eb + 1)"
proof -
  define e k r where "e = ilog2_rat n d" and "k = fp_quantum mb eb n d" and "r = real n / real d"
  define q where "q = round_div (n * pow2_den k) (d * pow2_num k)"
  define N where "N = nat (e - 1 + fp_bias eb)"
  have k: "k = e - int mb" using lo by (simp add: k_def fp_quantum_def e_def)
  have bias: "2 * fp_bias eb = 2 ^ eb - 2"
    using eb by (cases eb) (auto simp: fp_bias_def)
  have N: "int N = e - 1 + fp_bias eb" using lo by (simp add: N_def e_def)
  have "int (N + 3) < 2 ^ eb" using hi N bias by (simp add: e_def)
  also have "\<dots> = int (2 ^ eb)" by simp
  finally have Nlt: "N + 3 < 2 ^ eb" by (simp only: of_nat_less_iff)
  have r: "2 powi e \<le> r" "r < 2 powi (e + 1)" "0 < r"
    using ilog2_rat_bounds [OF n d] n d by (simp_all add: e_def r_def)
  have quot: "real (n * pow2_den k) / real (d * pow2_num k) = r / 2 powi k"
    using d by (simp add: r_def pow2_num_real)
  have err: "\<bar>real q - r / 2 powi k\<bar> \<le> 1 / 2"
    using round_div_err [of "d * pow2_num k" "n * pow2_den k"] d by (simp add: q_def quot del: of_nat_mult)
  have scale: "(2 :: real) powi e = 2 ^ mb * 2 powi k" by (simp add: k power_int_diff)
  have rk: "2 ^ mb \<le> r / 2 powi k" "r / 2 powi k < 2 ^ (mb + 1)"
    using r scale two_powi_Suc [of e] by (simp_all add: field_simps)
  have "r / 2 powi k - 1 / 2 \<le> real q" "real q \<le> r / 2 powi k + 1 / 2"
    using err by linarith+
  then have "(2 :: real) ^ mb < real q + 1" "real q < 2 ^ (mb + 1) + 1"
    using rk by linarith+
  then have "real (2 ^ mb) < real (q + 1)" "real q < real (2 ^ (mb + 1) + 1)" by simp_all
  then have "2 ^ mb < q + 1" "q < 2 ^ (mb + 1) + 1" by (simp_all only: of_nat_less_iff)
  then have q: "2 ^ mb \<le> q" "q \<le> 2 ^ (mb + 1)" by simp_all
  have bits: "fp_round_rat mb eb s n d = fp_sign_bit mb eb s + min (N * 2 ^ mb + q) ((2 ^ eb - 1) * 2 ^ mb)"
  proof -
    have "nat (k + int mb - (1 - fp_bias eb)) = N"
      unfolding N_def k by (rule arg_cong [where f = nat]) simp
    then show ?thesis
      using n unfolding fp_round_rat_def Let_def k_def [symmetric] q_def [symmetric] by (simp only: gr_implies_not0 if_False)
  qed
  have "N * 2 ^ mb + q \<le> (N + 2) * 2 ^ mb" using q(2) by (simp add: algebra_simps)
  also have "\<dots> \<le> (2 ^ eb - 1) * 2 ^ mb" using Nlt by (intro mult_right_mono) auto
  finally have bits: "fp_round_rat mb eb s n d = fp_sign_bit mb eb s + (N * 2 ^ mb + q)"
    by (simp add: bits min_def)
  have val: "fp_real q k - r = (real q - r / 2 powi k) * 2 powi k"
    by (simp add: fp_real_def field_simps)
  have close: "\<bar>fp_real q k - r\<bar> \<le> r / 2 ^ (mb + 1)"
  proof -
    have "\<bar>fp_real q k - r\<bar> \<le> 1 / 2 * 2 powi k"
      unfolding val abs_mult using err by (intro mult_mono) auto
    also have "\<dots> = 2 powi e / 2 ^ (mb + 1)" by (simp add: scale)
    also have "\<dots> \<le> r / 2 ^ (mb + 1)" using r(1) by (simp add: divide_right_mono)
    finally show ?thesis .
  qed
  have exact: "d * pow2_num k dvd n * pow2_den k \<Longrightarrow> fp_real q k = r"
    using round_div_exact [of "d * pow2_num k" "n * pow2_den k"] d val
    by (simp add: q_def quot del: of_nat_mult)
  have "\<exists>M K. fp_unpack mb eb (fp_round_rat mb eb s n d) = FFin s M K \<and> 2 ^ mb \<le> M \<and>
      fp_real M K = fp_real q k \<and> fp_round_rat mb eb s n d < 2 ^ (mb + eb + 1)"
  proof (cases "q < 2 ^ (mb + 1)")
    case True
    have eq: "N * 2 ^ mb + q = (N + 1) * 2 ^ mb + (q - 2 ^ mb)" using q(1) by simp
    have "0 < N + 1" "N + 1 < 2 ^ eb - 1" "q - 2 ^ mb < 2 ^ mb" using Nlt True q(1) by auto
    note ub = unpack_bits [OF this, of s]
    show ?thesis
      unfolding bits eq using ub q(1) by (simp add: N k)
  next
    case False
    then have qe: "q = 2 ^ (mb + 1)" using q(2) by simp
    have eq: "N * 2 ^ mb + q = (N + 2) * 2 ^ mb + 0" by (simp add: qe)
    have "0 < N + 2" "N + 2 < 2 ^ eb - 1" "(0 :: nat) < 2 ^ mb" using Nlt by auto
    note ub = unpack_bits [OF this, of s]
    have K: "int (N + 2) - fp_bias eb - int mb = k + 1" by (simp add: N k)
    have "fp_real (2 ^ mb) (k + 1) = fp_real q k" by (simp add: fp_real_def qe two_powi_Suc)
    then show ?thesis
      unfolding bits eq using ub unfolding K
      by (intro exI [of _ "2 ^ mb"] exI [of _ "k + 1"]) simp
  qed
  then show ?thesis using close exact by (auto simp: r_def k_def)
qed

end
