(* ===== verification/Grid_Stable.thy ===== *)
theory Grid_Stable
  imports Slots Ieee_Round
begin

section \<open>A decoded grid value has the quantum it was decoded from\<close>

text \<open>
  The server steps a grid slot from the quantum of the value it read, the client from the quantum
  of the value it decoded, \<open>(double) q * grid\<close>. The stream stays right only if the division by
  \<open>grid\<close> in \<open>grid_q\<close> undoes that multiplication in floating point. It does while the quantum's
  rounding errors stay under half a quantum: for a \<open>double\<close> slot up to \<open>2 ^ 50\<close> quanta, for a
  \<open>Vector3\<close> slot, whose components are rounded to \<open>float\<close>, up to \<open>2 ^ 21\<close>.
\<close>

subsection \<open>One rounding\<close>

lemma f64_of_round:
  assumes "0 < n" "0 < d" "2 powi (-1022) \<le> real n / real d" "real n / real d < 2 powi 1023"
  shows "\<exists>M K. f64_val (of_nat (fp_round_rat 52 11 s n d)) = FFin s M K \<and> 0 < M \<and>
           \<bar>fp_real M K - real n / real d\<bar> \<le> (real n / real d) / 2 ^ 53 \<and>
           (d * pow2_num (fp_quantum 52 11 n d) dvd n * pow2_den (fp_quantum 52 11 n d) \<longrightarrow>
              fp_real M K = real n / real d)"
proof -
  have b: "fp_bias 11 = 1023" by (simp add: fp_bias_def)
  have "- 1022 < ilog2_rat n d + 1" "ilog2_rat n d < 1023"
    using ilog2_rat_bounds [OF assms(1,2)] assms(3,4)
    by (intro two_powi_less; linarith)+
  then have "1 - fp_bias 11 \<le> ilog2_rat n d" "ilog2_rat n d < fp_bias 11"
    by (simp_all add: b)
  from fp_round_normal [OF assms(1,2) _ this, of 52 s]
  obtain M K where X: "fp_unpack 52 11 (fp_round_rat 52 11 s n d) = FFin s M K" "2 ^ 52 \<le> M"
      "\<bar>fp_real M K - real n / real d\<bar> \<le> (real n / real d) / 2 ^ 53"
      "d * pow2_num (fp_quantum 52 11 n d) dvd n * pow2_den (fp_quantum 52 11 n d) \<longrightarrow>
         fp_real M K = real n / real d" "fp_round_rat 52 11 s n d < 2 ^ 64"
    by auto
  then have "f64_val (of_nat (fp_round_rat 52 11 s n d)) = FFin s M K"
    by (simp add: f64_val_def unat_of_nat take_bit_nat_eq_self)
  moreover have "0 < M" using X(2) by (rule less_le_trans [rotated]) simp
  ultimately show ?thesis using X(3,4) by auto
qed

lemma f32_of_round:
  assumes "0 < n" "0 < d" "2 powi (-126) \<le> real n / real d" "real n / real d < 2 powi 127"
  shows "\<exists>M K. f32_val (of_nat (fp_round_rat 23 8 s n d)) = FFin s M K \<and> 0 < M \<and>
           2 ^ 23 \<le> M \<and> \<bar>fp_real M K - real n / real d\<bar> \<le> (real n / real d) / 2 ^ 24"
proof -
  have b: "fp_bias 8 = 127" by (simp add: fp_bias_def)
  have "- 126 < ilog2_rat n d + 1" "ilog2_rat n d < 127"
    using ilog2_rat_bounds [OF assms(1,2)] assms(3,4)
    by (intro two_powi_less; linarith)+
  then have "1 - fp_bias 8 \<le> ilog2_rat n d" "ilog2_rat n d < fp_bias 8"
    by (simp_all add: b)
  from fp_round_normal [OF assms(1,2) _ this, of 23 s]
  obtain M K where X: "fp_unpack 23 8 (fp_round_rat 23 8 s n d) = FFin s M K" "2 ^ 23 \<le> M"
      "\<bar>fp_real M K - real n / real d\<bar> \<le> (real n / real d) / 2 ^ 24"
      "fp_round_rat 23 8 s n d < 2 ^ 32"
    by auto
  then have "f32_val (of_nat (fp_round_rat 23 8 s n d)) = FFin s M K"
    by (simp add: f32_val_def unat_of_nat take_bit_nat_eq_self)
  moreover have "0 < M" using X(2) by (rule less_le_trans [rotated]) simp
  ultimately show ?thesis using X(2,3) by auto
qed

lemma fp_real_pos [simp]: "0 < m \<Longrightarrow> 0 < fp_real m e"
  by (simp add: fp_real_def)

lemma f64_of_int_exact:
  assumes "i \<noteq> 0" "\<bar>i\<bar> \<le> 2 ^ 52"
  shows "\<exists>M K. f64_val (f64_of_int i) = FFin (i < 0) M K \<and> 0 < M \<and> fp_real M K = real_of_int \<bar>i\<bar>"
proof -
  define n where "n = nat \<bar>i\<bar>"
  have "int n \<le> int (2 ^ 52)" using assms(2) by (simp add: n_def)
  then have "real n \<le> real (2 ^ 52)" by (simp only: of_nat_le_iff)
  then have le: "real n \<le> 2 ^ 52" by simp
  have n: "0 < n" using assms(1) by (simp add: n_def)
  have "(2 :: real) powi (-1022) \<le> 2 powi 0" "(2 :: real) powi 52 < 2 powi 1023"
    by (rule two_powi_mono; simp) (rule power_int_strict_increasing; simp)
  then have r: "2 powi (-1022) \<le> real n / real 1" "real n / real 1 < 2 powi 1023"
    using n le by simp_all
  have "ilog2_rat n 1 < 53"
    using ilog2_rat_bounds(1) [OF n, of 1] le by (intro two_powi_less) simp
  then have "fp_quantum 52 11 n 1 \<le> 0"
    by (simp add: fp_quantum_def fp_bias_def)
  then have "pow2_num (fp_quantum 52 11 n 1) = 1" by (simp add: pow2_num_def)
  with f64_of_round [OF n _ r, of "i < 0"] show ?thesis
    by (auto simp: f64_of_int_def f64_of_def n_def pow2_num_def pow2_den_def)
qed

lemma f64_mul_rounds:
  assumes "f64_val a = FFin s m e" "f64_val b = FFin t n f" "0 < m" "0 < n"
    and "2 powi (-1022) \<le> fp_real m e * fp_real n f" "fp_real m e * fp_real n f < 2 powi 1023"
  shows "\<exists>M K. f64_val (f64_mul a b) = FFin (s \<noteq> t) M K \<and> 0 < M \<and>
           \<bar>fp_real M K - fp_real m e * fp_real n f\<bar> \<le> fp_real m e * fp_real n f / 2 ^ 53"
proof -
  have v: "real (m * n * pow2_num (e + f)) / real (pow2_den (e + f)) = fp_real m e * fp_real n f"
    unfolding fp_real_frac by (simp add: fp_real_def power_int_add)
  from assms(3,4) have p: "0 < m * n * pow2_num (e + f)" "0 < pow2_den (e + f)" by simp_all
  from f64_of_round [OF p, unfolded v, OF assms(5,6), of "s \<noteq> t"] show ?thesis
    by (auto simp: f64_mul_def assms(1,2))
qed

lemma f64_div_rounds:
  assumes "f64_val a = FFin s m e" "f64_val b = FFin t n f" "0 < m" "0 < n"
    and "2 powi (-1022) \<le> fp_real m e / fp_real n f" "fp_real m e / fp_real n f < 2 powi 1023"
  shows "\<exists>M K. f64_val (f64_div a b) = FFin (s \<noteq> t) M K \<and> 0 < M \<and>
           \<bar>fp_real M K - fp_real m e / fp_real n f\<bar> \<le> fp_real m e / fp_real n f / 2 ^ 53"
proof -
  have v: "real (m * pow2_num (e - f)) / real (n * pow2_den (e - f)) = fp_real m e / fp_real n f"
    using assms(4) by (simp add: fp_real_def pow2_num_real power_int_diff)
  from assms(3,4) have p: "0 < m * pow2_num (e - f)" "0 < n * pow2_den (e - f)" by simp_all
  from f64_of_round [OF p, unfolded v, OF assms(5,6), of "s \<noteq> t"] assms(4) show ?thesis
    by (auto simp: f64_div_def assms(1,2))
qed

lemma fp_round_away_near:
  assumes "\<bar>fp_real m e - real q\<bar> < 1 / 2"
  shows "fp_round_away (FFin s m e) = Some (signed_num s q)"
proof -
  define N D where "N = m * pow2_num e" and "D = pow2_den e"
  have D: "0 < real D" "0 < D" by (simp_all add: D_def)
  have x: "fp_real m e = real N / real D"
    by (simp add: N_def D_def fp_real_frac [symmetric])
  have "real q < fp_real m e + 1 / 2" "fp_real m e + 1 / 2 < real q + 1"
    using assms by linarith+
  then have "real q * (2 * real D) < 2 * real N + real D" "2 * real N + real D < (real q + 1) * (2 * real D)"
    using D by (simp_all add: x field_simps)
  then have "real (q * (2 * D)) < real (2 * N + D)" "real (2 * N + D) < real (Suc q * (2 * D))"
    by (simp_all add: algebra_simps)
  then have "q * (2 * D) < 2 * N + D" "2 * N + D < Suc q * (2 * D)"
    by (simp_all only: of_nat_less_iff)
  then have "(2 * N + D) div (2 * D) = q"
    by (intro div_nat_eqI) (simp_all add: algebra_simps)
  then show ?thesis by (simp add: N_def D_def)
qed

lemma f64_llround_near:
  assumes "f64_val x = FFin s m e" "\<bar>fp_real m e - real q\<bar> < 1 / 2" "q < 2 ^ 63"
  shows "f64_llround x = Some (word_of_int (signed_num s q))"
proof -
  have "int q < int (2 ^ 63)" using assms(3) by (simp only: of_nat_less_iff)
  then show ?thesis
    using fp_round_away_near [OF assms(2), of s]
    by (auto simp: f64_llround_def assms(1) signed_num_def)
qed

subsection \<open>The grids the theorem covers\<close>

definition grid_within :: "int \<Rightarrow> f64 \<Rightarrow> bool" where
  "grid_within b grid =
     (case f64_val grid of
        FFin s m e \<Rightarrow>
          \<not> s \<and> 0 < m \<and> \<bar>ilog2_rat (m * pow2_num e) (pow2_den e)\<bar> \<le> b
      | _ \<Rightarrow> False)"

lemma grid_withinE:
  assumes "grid_within b grid"
  obtains m e where "f64_val grid = FFin False m e" "0 < m"
    "2 powi (- b) \<le> fp_real m e" "fp_real m e < 2 powi (b + 1)"
proof -
  from assms obtain m e where g: "f64_val grid = FFin False m e" "0 < m"
      "\<bar>ilog2_rat (m * pow2_num e) (pow2_den e)\<bar> \<le> b"
    by (auto simp: grid_within_def split: fpval.splits)
  define l where "l = ilog2_rat (m * pow2_num e) (pow2_den e)"
  have "2 powi l \<le> fp_real m e" "fp_real m e < 2 powi (l + 1)"
    using ilog2_rat_bounds [of "m * pow2_num e" "pow2_den e"] g(2)
    by (simp_all add: l_def fp_real_frac del: of_nat_mult)
  moreover have "(2 :: real) powi (- b) \<le> 2 powi l" "(2 :: real) powi (l + 1) \<le> 2 powi (b + 1)"
    using g(3) by (auto simp: l_def intro!: two_powi_mono)
  ultimately show thesis using that [OF g(1,2)] by linarith
qed

lemma grid_value_zero: "f64_val g = FFin False m e \<Longrightarrow> grid_value 0 g = 0"
  by (simp add: grid_value_def f64_of_int_def f64_of_def fp_round_rat_def fp_sign_bit_def Let_def
      f64_mul_def f64_val_def fp_unpack_def)

lemma grid_q_zero: "f64_val g = FFin False m e \<Longrightarrow> 0 < m \<Longrightarrow> grid_q E 0 g = 0"
  by (simp add: grid_q_def f64_div_def f64_val_def fp_unpack_def fp_round_rat_def fp_sign_bit_def
      f64_isfinite_def f64_llround_def pow2_num_def pow2_den_def signed_num_def)

text \<open>A number within a quarter of \<open>q\<close> quanta is \<open>q\<close>'s: the division adds the last rounding.\<close>

lemma grid_q_near:
  assumes x: "f64_val x = FFin s m e" "0 < m" and g: "f64_val g = FFin False n f" "0 < n"
    and q: "0 < q" "q \<le> 2 ^ 50" and near: "\<bar>fp_real m e / fp_real n f - real q\<bar> \<le> 1 / 4"
  shows "grid_q E x g = word_of_int (signed_num s q)"
proof -
  define y where "y = fp_real m e / fp_real n f"
  have "real q \<le> real (2 ^ 50)" using q(2) by (simp only: of_nat_le_iff)
  then have qr: "1 \<le> real q" "real q \<le> 2 ^ 50" using q(1) by simp_all
  have y: "1 / 2 \<le> y" "y \<le> 2 ^ 50 + 1" using near qr unfolding y_def [symmetric] by linarith+
  have "(2 :: real) powi (-1022) \<le> 2 powi (-1)" "(2 :: real) powi 51 < 2 powi 1023"
    by (rule two_powi_mono; simp) (rule power_int_strict_increasing; simp)
  then have "2 powi (-1022) \<le> y" "y < 2 powi 1023" using y by simp_all
  from f64_div_rounds [OF x(1) g(1) x(2) g(2) this [unfolded y_def]]
  obtain M K where d: "f64_val (f64_div x g) = FFin s M K" "\<bar>fp_real M K - y\<bar> \<le> y / 2 ^ 53"
    by (auto simp: y_def)
  have "y / 2 ^ 53 < 1 / 4" using y(2) by simp
  then have "\<bar>fp_real M K - real q\<bar> < 1 / 2"
    using d(2) near unfolding y_def [symmetric] by linarith
  moreover have "q < 2 ^ 63" using q(2) by (rule le_less_trans) simp
  ultimately have "f64_llround (f64_div x g) = Some (word_of_int (signed_num s q))"
    by (rule f64_llround_near [OF d(1)])
  then show ?thesis by (simp add: grid_q_def f64_isfinite_def d(1))
qed

lemma sint_nonzero: "sint (q :: u64) = 0 \<longleftrightarrow> q = 0"
  by (simp add: signed_eq_0_iff)

lemma sint_as_signed: "word_of_int (signed_num (sint q < 0) (nat \<bar>sint q\<bar>)) = (q :: u64)"
  by (simp add: signed_num_def)

lemma grid_value_rounds:
  assumes g: "f64_val g = FFin False m e" "0 < m" "2 powi (- b) \<le> fp_real m e"
      "fp_real m e < 2 powi (b + 1)" "b \<le> 900"
    and q: "q \<noteq> 0" "\<bar>sint q\<bar> \<le> 2 ^ 50"
  shows "\<exists>M K. f64_val (grid_value q g) = FFin (sint q < 0) M K \<and> 0 < M \<and>
           \<bar>fp_real M K - real_of_int \<bar>sint q\<bar> * fp_real m e\<bar> \<le>
             real_of_int \<bar>sint q\<bar> * fp_real m e / 2 ^ 53"
proof -
  have nz: "sint q \<noteq> 0" using q(1) by (simp add: sint_nonzero)
  have "\<bar>sint q\<bar> \<le> 2 ^ 52" using q(2) by simp
  from f64_of_int_exact [OF nz this] obtain M K where
    i: "f64_val (f64_of_int (sint q)) = FFin (sint q < 0) M K" "0 < M"
       "fp_real M K = real_of_int \<bar>sint q\<bar>" by auto
  have "1 \<le> \<bar>sint q\<bar>" using nz by simp
  then have lo: "1 \<le> real_of_int \<bar>sint q\<bar>" by linarith
  have hi: "real_of_int \<bar>sint q\<bar> \<le> 2 powi 50"
    using q(2) by (simp add: of_int_le_iff [where 'a = real, symmetric] del: of_int_le_iff)
  have "(2 :: real) powi (-1022) \<le> 2 powi (- b)"
    by (rule two_powi_mono) (use g(5) in simp)
  also have "\<dots> = 1 * 2 powi (- b)" by (simp only: mult_1_left)
  also have "\<dots> \<le> real_of_int \<bar>sint q\<bar> * fp_real m e"
    using lo g(3) by (intro mult_mono) auto
  finally have l: "2 powi (-1022) \<le> fp_real M K * fp_real m e" by (simp add: i(3))
  have "real_of_int \<bar>sint q\<bar> * fp_real m e < 2 powi 50 * 2 powi (b + 1)"
    using hi lo g(4) fp_real_pos [OF g(2), of e] by (intro mult_le_less_imp_less) linarith+
  also have "\<dots> \<le> 2 powi 1023"
    using g(5) by (simp add: power_int_add [symmetric] two_powi_mono del: power_int_numeral)
  finally have h: "fp_real M K * fp_real m e < 2 powi 1023" by (simp add: i(3))
  from f64_mul_rounds [OF i(1) g(1) i(2) g(2) l h] show ?thesis
    by (simp add: grid_value_def i(3))
qed

lemma int_bound_real:
  "1 \<le> z \<Longrightarrow> z \<le> 2 ^ k \<Longrightarrow>
     1 \<le> real_of_int z \<and> real_of_int z \<le> 2 ^ k \<and> 0 < nat z \<and> nat z \<le> 2 ^ k"
proof -
  assume a: "1 \<le> z" "z \<le> 2 ^ k"
  then have "real_of_int z \<le> real_of_int (2 ^ k)" by (simp only: of_int_le_iff)
  moreover from a(2) have "nat z \<le> nat (2 ^ k)" by (rule nat_mono)
  ultimately show ?thesis using a(1) by (simp add: nat_power_eq)
qed

lemma sint_bound_real: "q \<noteq> (0 :: u64) \<Longrightarrow> \<bar>sint q\<bar> \<le> 2 ^ k \<Longrightarrow>
    1 \<le> real_of_int \<bar>sint q\<bar> \<and> real_of_int \<bar>sint q\<bar> \<le> 2 ^ k \<and>
    0 < nat \<bar>sint q\<bar> \<and> nat \<bar>sint q\<bar> \<le> 2 ^ k"
  using sint_nonzero [of q] by (intro int_bound_real) linarith

lemma grid_q_of_value:
  assumes "grid_within 900 g" "\<bar>sint q\<bar> \<le> 2 ^ 50"
  shows "grid_q E (grid_value q g) g = q"
proof -
  from assms(1) obtain m e where g: "f64_val g = FFin False m e" "0 < m"
    "2 powi (- 900) \<le> fp_real m e" "fp_real m e < 2 powi (900 + 1)" by (rule grid_withinE)
  show ?thesis
  proof (cases "q = 0")
    case True
    then show ?thesis using g by (simp add: grid_value_zero grid_q_zero)
  next
    case False
    define Q where "Q = real_of_int \<bar>sint q\<bar>"
    have Q: "1 \<le> Q" "Q \<le> 2 ^ 50" "0 < nat \<bar>sint q\<bar>" "nat \<bar>sint q\<bar> \<le> 2 ^ 50"
      using sint_bound_real [OF False assms(2)] by (simp_all add: Q_def)
    from grid_value_rounds [OF g _ False assms(2)] obtain M K where
      x: "f64_val (grid_value q g) = FFin (sint q < 0) M K" "0 < M"
         "\<bar>fp_real M K - Q * fp_real m e\<bar> \<le> Q * fp_real m e / 2 ^ 53"
      by (auto simp: Q_def)
    have "\<bar>fp_real M K / fp_real m e - Q\<bar> = \<bar>fp_real M K - Q * fp_real m e\<bar> / fp_real m e"
      using fp_real_pos [OF g(2), of e] by (simp add: field_simps abs_divide)
    also have "\<dots> \<le> Q / 2 ^ 53"
      using x(3) fp_real_pos [OF g(2), of e] by (simp add: field_simps)
    also have "\<dots> \<le> 1 / 4" using Q(2) by simp
    finally have "\<bar>fp_real M K / fp_real m e - real (nat \<bar>sint q\<bar>)\<bar> \<le> 1 / 4" by (simp add: Q_def)
    from grid_q_near [OF x(1,2) g(1,2) Q(3,4) this] show ?thesis by (simp add: sint_as_signed)
  qed
qed

subsection \<open>Through a \<open>float\<close>\<close>

lemma narrow_rounds:
  assumes "f64_val x = FFin s m e" "0 < m" "2 powi (-126) \<le> fp_real m e" "fp_real m e < 2 powi 127"
  shows "\<exists>M K. f32_val (narrow x) = FFin s M K \<and> 0 < M \<and>
           \<bar>fp_real M K - fp_real m e\<bar> \<le> fp_real m e / 2 ^ 24"
proof -
  have p: "0 < m * pow2_num e" "0 < pow2_den e" using assms(2) by simp_all
  from f32_of_round [OF p, unfolded fp_real_frac, OF assms(3,4), of s] show ?thesis
    by (auto simp: narrow_def f32_of_def assms(1))
qed

lemma widen_rounds:
  assumes "f32_val x = FFin s m e" "0 < m" "2 powi (-1022) \<le> fp_real m e" "fp_real m e < 2 powi 1023"
  shows "\<exists>M K. f64_val (widen x) = FFin s M K \<and> 0 < M \<and>
           \<bar>fp_real M K - fp_real m e\<bar> \<le> fp_real m e / 2 ^ 53"
proof -
  have p: "0 < m * pow2_num e" "0 < pow2_den e" using assms(2) by simp_all
  from f64_of_round [OF p, unfolded fp_real_frac, OF assms(3,4), of s] show ?thesis
    by (auto simp: widen_def f64_of_def assms(1))
qed

lemma grid_q_zero_float: "f64_val g = FFin False m e \<Longrightarrow> 0 < m \<Longrightarrow> grid_q E (widen (narrow 0)) g = 0"
proof -
  have "widen (narrow 0) = 0"
    by (simp add: widen_def narrow_def f64_of_def f32_of_def f32_val_def f64_val_def fp_unpack_def
        fp_round_rat_def fp_sign_bit_def Let_def)
  then show "f64_val g = FFin False m e \<Longrightarrow> 0 < m \<Longrightarrow> grid_q E (widen (narrow 0)) g = 0"
    by (simp add: grid_q_zero)
qed

lemma grid_q_of_float_value:
  assumes "grid_within 100 g" "\<bar>sint q\<bar> \<le> 2 ^ 21"
  shows "grid_q E (widen (narrow (grid_value q g))) g = q"
proof -
  from assms(1) obtain m e where g: "f64_val g = FFin False m e" "0 < m"
    "2 powi (- 100) \<le> fp_real m e" "fp_real m e < 2 powi (100 + 1)" by (rule grid_withinE)
  show ?thesis
  proof (cases "q = 0")
    case True
    then show ?thesis using g by (simp add: grid_value_zero grid_q_zero_float)
  next
    case False
    define Q G t where "Q = real_of_int \<bar>sint q\<bar>" and "G = fp_real m e" and "t = Q * G"
    have q50: "\<bar>sint q\<bar> \<le> 2 ^ 50" using assms(2) by simp
    have Q: "1 \<le> Q" "Q \<le> 2 ^ 21" "0 < nat \<bar>sint q\<bar>" "nat \<bar>sint q\<bar> \<le> 2 ^ 50"
      using sint_bound_real [OF False assms(2)] sint_bound_real [OF False q50] by (simp_all add: Q_def)
    have G: "0 < G" "2 powi (- 100) \<le> G" "G < 2 powi 101" using g by (simp_all add: G_def)
    have t: "2 powi (- 100) \<le> t" "t < 2 powi 122"
    proof -
      have "1 * 2 powi (- 100) \<le> Q * G" using Q(1) G(2) by (intro mult_mono) auto
      then show "2 powi (- 100) \<le> t" by (simp add: t_def)
      have "Q * G < 2 ^ 21 * 2 powi 101" using Q G by (intro mult_le_less_imp_less) auto
      also have "\<dots> = 2 powi 122" by simp
      finally show "t < 2 powi 122" by (simp add: t_def)
    qed
    have t0: "0 < t" using t(1) two_powi_pos [of "- 100"] by linarith
    from grid_value_rounds [OF g _ False q50] obtain M1 K1 where
      x1: "f64_val (grid_value q g) = FFin (sint q < 0) M1 K1" "0 < M1" "\<bar>fp_real M1 K1 - t\<bar> \<le> t / 2 ^ 53"
      by (auto simp: Q_def t_def G_def)
    have e1: "t / 2 ^ 53 \<le> t / 8" using t0 by (simp add: field_simps)
    have b: "(2 :: real) powi (- 126) \<le> 2 powi (- 100) / 4" "(2 :: real) powi 122 * 2 \<le> 2 powi 127"
      "(2 :: real) powi (- 1022) \<le> 2 powi (- 126)" "(2 :: real) powi 127 \<le> 2 powi 1023"
      using two_powi_mono [of "- 126" "- 102"] power_int_diff [of "2 :: real" "- 100" 2]
      by (simp_all add: two_powi_mono)
    have v1: "2 powi (- 126) \<le> fp_real M1 K1" "fp_real M1 K1 < 2 powi 127" "fp_real M1 K1 \<le> 9 / 8 * t"
      using x1(3) e1 t b(1,2) t0 by linarith+
    from narrow_rounds [OF x1(1,2) v1(1,2)] obtain M2 K2 where
      x2: "f32_val (narrow (grid_value q g)) = FFin (sint q < 0) M2 K2" "0 < M2"
          "\<bar>fp_real M2 K2 - fp_real M1 K1\<bar> \<le> fp_real M1 K1 / 2 ^ 24" by auto
    have e2: "fp_real M1 K1 / 2 ^ 24 \<le> 9 / 8 * t / 2 ^ 24" using v1(3) by simp
    have "\<bar>fp_real M2 K2 - t\<bar> \<le> t / 2 ^ 53 + 9 / 8 * t / 2 ^ 24" using x1(3) x2(3) e2 by linarith
    moreover have "t / 2 ^ 53 + 9 / 8 * t / 2 ^ 24 \<le> t / 8" using t0 by (simp add: field_simps)
    ultimately have v2: "\<bar>fp_real M2 K2 - t\<bar> \<le> t / 2 ^ 53 + 9 / 8 * t / 2 ^ 24"
      "\<bar>fp_real M2 K2 - t\<bar> \<le> t / 8" by linarith+
    have v2r: "2 powi (- 1022) \<le> fp_real M2 K2" "fp_real M2 K2 < 2 powi 1023" "fp_real M2 K2 \<le> 9 / 8 * t"
      using v2(2) t b t0 by linarith+
    from widen_rounds [OF x2(1,2) v2r(1,2)] obtain M3 K3 where
      x3: "f64_val (widen (narrow (grid_value q g))) = FFin (sint q < 0) M3 K3" "0 < M3"
          "\<bar>fp_real M3 K3 - fp_real M2 K2\<bar> \<le> fp_real M2 K2 / 2 ^ 53" by auto
    have "fp_real M2 K2 / 2 ^ 53 \<le> 9 / 8 * t / 2 ^ 53" using v2r(3) by simp
    moreover have "t / 2 ^ 53 + 9 / 8 * t / 2 ^ 24 + 9 / 8 * t / 2 ^ 53 \<le> t / 2 ^ 23"
      using t0 by (simp add: field_simps)
    ultimately have "\<bar>fp_real M3 K3 - Q * G\<bar> \<le> Q * G / 2 ^ 23"
      using x3(3) v2(1) unfolding t_def [symmetric] by linarith
    then have "\<bar>fp_real M3 K3 / G - Q\<bar> \<le> Q / 2 ^ 23"
      using G(1) by (simp add: abs_le_iff field_simps)
    also have "Q / 2 ^ 23 \<le> 1 / 4" using Q(2) by simp
    finally have "\<bar>fp_real M3 K3 / fp_real m e - real (nat \<bar>sint q\<bar>)\<bar> \<le> 1 / 4"
      by (simp add: Q_def G_def)
    from grid_q_near [OF x3(1,2) g(1,2) Q(3,4) this] show ?thesis by (simp add: sint_as_signed)
  qed
qed

text \<open>A grid of a half is within any bound the theorems ask for.\<close>

lemma half_grid_within: "1 \<le> b \<Longrightarrow> grid_within b 0x3FE0000000000000"
  by (simp add: grid_within_def f64_val_def fp_unpack_def fp_bias_def) (simp add: fp_eval)

lemma half_grid_q:
  "grid_q E 0x4004CCCCCCCCCCCD 0x3FE0000000000000 = 5"
  "grid_q E 0xBFF0000000000000 0x3FE0000000000000 = - 2"
  "grid_q E 0 0x3FE0000000000000 = 0"
  by (simp_all add: grid_q_def fp_eval)

subsection \<open>Properties\<close>

text \<open>C24: decoding a grid slot and coding the decoded value again changes nothing: for every grid
  between \<open>2 ^ -900\<close> and \<open>2 ^ 900\<close> and every value within \<open>2 ^ 50\<close> steps of zero, the value the client
  rebuilt codes to the same bytes, against any baseline, as the value the server read. The rounding of
  the multiplication and of the division is never enough to move a step.\<close>

theorem grid_recode_same:
  assumes "engine_ok E" "grid_within 900 grid" "\<bar>sint (grid_q E d grid)\<bar> \<le> 2 ^ 50"
  shows "put_slot W E SK_FLOAT_GRID grid quant (VFloat (grid_value (grid_q E d grid) grid)) base now =
         put_slot W E SK_FLOAT_GRID grid quant (VFloat d) base now"
  using assms by (simp add: put_slot_def grid_q_of_value)

lemma grid_recode_same_witness:
  "put_slot demo_wire demo_engine SK_FLOAT_GRID 0x3FE0000000000000 QUANT_AUTO
     (VFloat (grid_value (grid_q demo_engine 0x4004CCCCCCCCCCCD 0x3FE0000000000000) 0x3FE0000000000000))
     None 0 =
   put_slot demo_wire demo_engine SK_FLOAT_GRID 0x3FE0000000000000 QUANT_AUTO
     (VFloat 0x4004CCCCCCCCCCCD) None 0"
  by (rule grid_recode_same [OF demo_engine_ok])
    (simp_all add: half_grid_within half_grid_q)

end
