(* ===== verification/Slot_Stream.thy ===== *)
theory Slot_Stream
  imports Grid_Stable
begin

section \<open>A slot's stream of values across lost frames\<close>

text \<open>
  The core picks, for each frame it sends a peer, a baseline the peer holds: any earlier frame
  it acked, or none. The server then codes a slot from the value it read at that frame, and the
  client decodes it from the value it decoded at that frame. \<open>delta_stream\<close> runs both ends over
  any choice of baselines, and the locale \<open>delta_channel\<close> shows what one slot's stream gives; it
  is interpreted on \<open>put_slot\<close> and \<open>get_slot\<close>.
\<close>

definition held :: "'a list \<Rightarrow> nat option \<Rightarrow> 'a option" where
  "held xs b = (case b of Some i \<Rightarrow> if i < length xs then Some (xs ! i) else None | None \<Rightarrow> None)"

fun delta_stream ::
  "('a \<Rightarrow> 'a option \<Rightarrow> 'w) \<Rightarrow> ('a option \<Rightarrow> 'w \<Rightarrow> 'a) \<Rightarrow> ('a \<times> nat option) list \<Rightarrow> 'a list \<Rightarrow> 'a list \<Rightarrow> 'a list"
  where
  "delta_stream put get [] sent got = got"
| "delta_stream put get ((v, b) # frames) sent got =
     delta_stream put get frames (sent @ [v]) (got @ [get (held got b) (put v (held sent b))])"

locale delta_channel =
  fixes ok :: bool
    and put :: "'a \<Rightarrow> 'a option \<Rightarrow> 'w"
    and get :: "'a option \<Rightarrow> 'w \<Rightarrow> 'a"
    and view :: "'a \<Rightarrow> 'a"
    and valid :: "'a \<Rightarrow> bool"
  assumes whole: "ok \<Longrightarrow> valid v \<Longrightarrow> get None (put v None) = view v"
    and step: "ok \<Longrightarrow> valid v \<Longrightarrow> valid w \<Longrightarrow> get (Some (view w)) (put v (Some w)) = view v"
begin

lemma held_view: "held (map view xs) b = map_option view (held xs b)"
  by (simp add: held_def split: option.split)

lemma held_valid: "list_all valid xs \<Longrightarrow> held xs b = Some w \<Longrightarrow> valid w"
  by (auto simp: held_def list_all_length split: option.splits if_splits)

lemma one_frame:
  "ok \<Longrightarrow> valid v \<Longrightarrow> list_all valid xs \<Longrightarrow> get (held (map view xs) b) (put v (held xs b)) = view v"
  by (cases "held xs b") (auto simp: held_view whole step dest: held_valid)

lemma stream_from:
  "ok \<Longrightarrow> list_all valid xs \<Longrightarrow> list_all valid (map fst frames) \<Longrightarrow>
     delta_stream put get frames xs (map view xs) = map view (xs @ map fst frames)"
proof (induction frames arbitrary: xs)
  case (Cons f frames)
  then show ?case
    using Cons.IH [of "xs @ [fst f]"] by (cases f) (simp add: one_frame)
qed simp

lemma stream_views:
  "ok \<Longrightarrow> list_all valid (map fst frames) \<Longrightarrow>
     delta_stream put get frames [] [] = map view (map fst frames)"
  using stream_from [of "[]" frames] by simp

end

subsection \<open>The values a stream may carry\<close>

text \<open>A value whose decoding has its quantum: always for an int, within \<open>Grid_Stable\<close>'s bounds for
  a grid slot, and as far as goldnet's \<open>angle_quanta\<close> gives a decoded angle its step back.\<close>

definition slot_stable :: "wire \<Rightarrow> engine \<Rightarrow> u8 \<Rightarrow> f64 \<Rightarrow> variant \<Rightarrow> bool" where
  "slot_stable W E kind grid v =
     (if kind = SK_ANGLE16_STEP \<or> kind = SK_ANGLE8_STEP then
        (let bits = angle_bits kind; q = angle_quanta W (narrow (to_double E v)) bits
         in angle_quanta W (narrow (angle_value W bits q)) bits = q)
      else if kind = SK_FLOAT_GRID then
        grid_within 900 grid \<and> \<bar>sint (grid_q E (to_double E v) grid)\<bar> \<le> 2 ^ 50
      else if kind = SK_VEC3_GRID then
        grid_within 100 grid \<and>
        (case to_vec3 E v of (x, y, z) \<Rightarrow>
           \<bar>sint (grid_q E (widen x) grid)\<bar> \<le> 2 ^ 21 \<and>
           \<bar>sint (grid_q E (widen y) grid)\<bar> \<le> 2 ^ 21 \<and>
           \<bar>sint (grid_q E (widen z) grid)\<bar> \<le> 2 ^ 21)
      else True)"

lemma base_agrees_view:
  assumes "engine_ok E" "slot_stable W E kind grid v"
  shows "base_agrees W E kind grid (Some v) (Some (slot_view W E kind grid quant v))"
  using assms
  by (auto simp: base_agrees_def slot_view_def slot_stable_def grid_base_def grid_base3_def Let_def
      grid_q_of_value grid_q_of_float_value split: prod.splits)

lemma base_agrees_none: "base_agrees W E kind grid None None"
  by (simp add: base_agrees_def)

text \<open>One slot of one frame, end to end: the bytes the server writes and the value the client
  reads from them.\<close>

definition read_slot ::
  "wire \<Rightarrow> engine \<Rightarrow> u8 \<Rightarrow> f64 \<Rightarrow> u32 \<Rightarrow> variant option \<Rightarrow> bytes \<Rightarrow> variant" where
  "read_slot W E kind grid now base bs = fst (get_slot W E kind grid base now (reader_of bs))"

interpretation slots: delta_channel "wire_ok W \<and> angle_ok W \<and> engine_ok E"
    "\<lambda>v base. put_slot W E kind grid quant v base now" "read_slot W E kind grid now"
    "slot_view W E kind grid quant" "\<lambda>v. slot_ok E kind quant v \<and> slot_stable W E kind grid v"
  for W E kind grid quant now
proof unfold_locales
  fix v
  assume "wire_ok W \<and> angle_ok W \<and> engine_ok E" "slot_ok E kind quant v \<and> slot_stable W E kind grid v"
  then show "read_slot W E kind grid now None (put_slot W E kind grid quant v None now) =
      slot_view W E kind grid quant v"
    using get_put_slot [of W E kind quant v grid None None now "[]"]
    by (simp add: read_slot_def base_agrees_none)
next
  fix v w
  assume "wire_ok W \<and> angle_ok W \<and> engine_ok E" "slot_ok E kind quant v \<and> slot_stable W E kind grid v"
    "slot_ok E kind quant w \<and> slot_stable W E kind grid w"
  then show "read_slot W E kind grid now (Some (slot_view W E kind grid quant w))
      (put_slot W E kind grid quant v (Some w) now) = slot_view W E kind grid quant v"
    using get_put_slot
      [of W E kind quant v grid "Some w" "Some (slot_view W E kind grid quant w)" now "[]"]
    by (simp add: read_slot_def base_agrees_view)
qed

subsection \<open>Properties\<close>

text \<open>Over a lossy link a slot never drifts. Whatever baseline the core picks for each frame
  (any earlier frame, or none), the client's decoded values are, frame by frame, the slot's view of the
  value the server read at that frame: a function of that value alone, whatever was lost before.\<close>

theorem slot_stream_never_drifts:
  assumes "wire_ok W" "angle_ok W" "engine_ok E"
    and "list_all (\<lambda>v. slot_ok E kind quant v \<and> slot_stable W E kind grid v) (map fst frames)"
  shows "delta_stream (\<lambda>v base. put_slot W E kind grid quant v base now) (read_slot W E kind grid now)
           frames [] [] = map (slot_view W E kind grid quant) (map fst frames)"
  using assms by (intro slots.stream_views) simp_all

lemma slot_stream_never_drifts_witness:
  "delta_stream
     (\<lambda>v base. put_slot demo_wire demo_engine SK_FLOAT_GRID 0x3FE0000000000000 QUANT_AUTO v base 0)
     (read_slot demo_wire demo_engine SK_FLOAT_GRID 0x3FE0000000000000 0)
     [(VFloat 0x4004CCCCCCCCCCCD, None), (VFloat 0xBFF0000000000000, Some 0), (VFloat 0, Some 0)] [] [] =
   map (slot_view demo_wire demo_engine SK_FLOAT_GRID 0x3FE0000000000000 QUANT_AUTO)
     (map fst [(VFloat 0x4004CCCCCCCCCCCD, None), (VFloat 0xBFF0000000000000, Some 0), (VFloat 0, Some (0 :: nat))])"
  by (rule slot_stream_never_drifts [OF demo_wire_ok demo_angle_ok demo_engine_ok])
    (simp add: slot_ok_def slot_kind_stepped_def slot_stable_def engine_okD [OF demo_engine_ok]
      half_grid_within half_grid_q)

end
