(* ===== verification/Entity.thy ===== *)
theory Entity
  imports World Slot_Stream
begin

section \<open>One entity's state: read, sent, and set\<close>

text \<open>
  The entity half of \<open>ServerHost\<close> and \<open>ClientHost\<close> in \<open>goldnet_multiplayer.cpp\<close>. The server's core calls
  \<open>live\<close>, \<open>read\<close>, \<open>visible\<close>, \<open>spawn_visible\<close> and \<open>encode\<close>; the client's calls \<open>entity\<close> with an
  update: the changed slots, a baseline for each and a reader at their bytes. Which slots those are and
  which baselines is the core's choice, so they are arguments. The result says what \<open>u.set\<close> recorded
  and which properties \<open>set_indexed\<close> wrote, in order.

  The lemmas show that the server's cached object lookup reads what uncached lookups would, that the
  loop over the changed slots is one decoder run over their list, and, with \<open>Slots\<close> and \<open>Slot_Plan\<close>,
  that the state the server read is what the client's properties are set to.
\<close>

subsection \<open>Server: reading and encoding\<close>

record sync_data =
  sd_objid :: objid
  sd_plan :: "(objid \<times> node_path) list"
  sd_coding :: slot_coding

definition host_live :: "world \<Rightarrow> sync_data \<Rightarrow> bool" where
  "host_live Wd d =
     (case sync_from_objid Wd (sd_objid d) of
        None \<Rightarrow> False
      | Some sy \<Rightarrow> wd_in_tree Wd sy \<and> wd_authority Wd sy)"

text \<open>\<open>read\<close>: the loop keeps the last target's id and object. What it stamps, slot by slot.\<close>

fun host_read ::
  "world \<Rightarrow> bool \<Rightarrow> (nat \<Rightarrow> bool) \<Rightarrow> (nat \<times> objid \<times> node_path) list \<Rightarrow> objid \<Rightarrow> objid option \<Rightarrow>
   (nat \<times> variant) list" where
  "host_read Wd polled_only pushed [] last_id last_obj = []"
| "host_read Wd polled_only pushed ((s, i, prop) # rest) last_id last_obj =
     (if polled_only \<and> pushed s then host_read Wd polled_only pushed rest last_id last_obj
      else
        let (last_id1, last_obj1) =
              (if i \<noteq> last_id then (i, if i \<noteq> 0 \<and> alive Wd i then Some i else None)
               else (last_id, last_obj))
        in (s, case last_obj1 of Some ob \<Rightarrow> wd_get Wd ob prop | None \<Rightarrow> VNil)
           # host_read Wd polled_only pushed rest last_id1 last_obj1)"

definition host_read_entity :: "world \<Rightarrow> bool \<Rightarrow> (nat \<Rightarrow> bool) \<Rightarrow> sync_data \<Rightarrow> (nat \<times> variant) list" where
  "host_read_entity Wd polled_only pushed d =
     host_read Wd polled_only pushed (zip [0..<length (sd_plan d)] (sd_plan d)) 0 None"

definition host_visible :: "world \<Rightarrow> sync_data \<Rightarrow> peer \<Rightarrow> bool" where
  "host_visible Wd d peer = (wd_public Wd (sd_objid d) \<or> wd_visible_for Wd (sd_objid d) peer)"

definition host_spawn_visible :: "world \<Rightarrow> net_ids \<Rightarrow> net_id \<Rightarrow> peer \<Rightarrow> bool" where
  "host_spawn_visible Wd ids i peer =
     (case sync_from_objid Wd (ids_object ids i) of
        None \<Rightarrow> False
      | Some sy \<Rightarrow> wd_public Wd sy \<or> wd_visible_for Wd sy peer)"

definition host_encode ::
  "wire \<Rightarrow> engine \<Rightarrow> slot_coding \<Rightarrow> nat \<Rightarrow> variant \<Rightarrow> variant option \<Rightarrow> u32 \<Rightarrow> bytes" where
  "host_encode W E c slot v base now =
     put_slot W E (kinds c ! slot) (grids c ! slot) (quant c ! slot) v base now"

subsection \<open>Client: an update\<close>

record entity_update =
  eu_net_id :: net_id
  eu_whole :: bool
  eu_kinds_check :: u8
  eu_changed :: "nat list"
  eu_base :: "nat \<Rightarrow> variant option"
  eu_server_time :: u32
  eu_reader :: reader

datatype entity_result = Entity_Skip | Entity_Not_Ready | Entity_Applied

record entity_out =
  eo_result :: entity_result
  eo_set :: "(nat \<times> variant) list"
  eo_written :: "(objid \<times> node_path \<times> variant) list"
  eo_synchronized :: bool

record entity_client =
  ec_codings :: "(objid, slot_coding) hash_map"
  ec_warned :: "net_id hash_set"

definition refused :: "entity_result \<Rightarrow> entity_out" where
  "refused res = \<lparr>eo_result = res, eo_set = [], eo_written = [], eo_synchronized = False\<rparr>"

text \<open>The loop over \<open>u.changed()\<close>. \<open>rt\<close> is the synchronizer's root node.\<close>

fun entity_slots ::
  "wire \<Rightarrow> engine \<Rightarrow> scene \<Rightarrow> objid option \<Rightarrow> node_path list \<Rightarrow> slot_coding \<Rightarrow> (nat \<Rightarrow> variant option) \<Rightarrow>
   u32 \<Rightarrow> nat list \<Rightarrow> reader \<Rightarrow> (nat \<times> variant) list \<times> (objid \<times> node_path \<times> variant) list" where
  "entity_slots W E S rt slots c base now [] r = ([], [])"
| "entity_slots W E S rt slots c base now (s # ss) r =
     (if length slots \<le> s \<or> length (kinds c) \<le> s then ([], [])
      else
        let (v, r1) = get_slot W E (kinds c ! s) (grids c ! s) (base s) now r
        in if rd_failed r1 then ([], [])
           else
             let target = (case rt of None \<Rightarrow> None | Some n \<Rightarrow> resolve_property S n (slots ! s));
                 (sets, writes) = entity_slots W E S rt slots c base now ss r1
             in ((s, v) # sets, (case target of Some (t, prop) \<Rightarrow> [(t, prop, v)] | None \<Rightarrow> []) @ writes))"

text \<open>The synchronizer's coding, made on first use.\<close>

definition client_coding ::
  "engine \<Rightarrow> nat \<Rightarrow> world \<Rightarrow> objid \<Rightarrow> entity_client \<Rightarrow> slot_coding \<times> entity_client" where
  "client_coding E cap Wd so st =
     (case hm_get (ec_codings st) so of
        Some c \<Rightarrow> (c, st)
      | None \<Rightarrow>
          (let sy = wd_sync Wd so;
               c = make_slot_coding cap (wd_scene Wd) E sy (cache_slot_plan cap (wd_scene Wd) sy)
           in (c, st\<lparr>ec_codings := hm_put so c (ec_codings st)\<rparr>)))"

definition client_entity ::
  "wire \<Rightarrow> engine \<Rightarrow> nat \<Rightarrow> world \<Rightarrow> net_ids \<Rightarrow> entity_update \<Rightarrow> entity_client \<Rightarrow> entity_out \<times> entity_client" where
  "client_entity W E cap Wd ids u st =
     (let objid = ids_object ids (eu_net_id u) in
      case sync_from_objid Wd objid of
        None \<Rightarrow> (refused Entity_Skip, st)
      | Some so \<Rightarrow>
          if \<not> wd_in_tree Wd so then (refused Entity_Not_Ready, st)
          else
            let sy = wd_sync Wd so;
                slots = get_sync_slots cap sy;
                (c, st1) = client_coding E cap Wd so st
            in if eu_whole u \<and> eu_kinds_check u \<noteq> check c
               then (refused Entity_Skip, st1\<lparr>ec_warned := hs_insert (eu_net_id u) (ec_warned st1)\<rparr>)
               else
                 let (sets, writes) =
                       entity_slots W E (wd_scene Wd) (sy_root sy) slots c (eu_base u) (eu_server_time u)
                         (eu_changed u) (eu_reader u)
                 in (\<lparr>eo_result = Entity_Applied, eo_set = sets, eo_written = writes,
                      eo_synchronized = (writes \<noteq> [])\<rparr>, st1))"

text \<open>\<open>relevance_lost\<close>: the synchronizer the signal carries, if it is emitted.\<close>

definition client_relevance_lost :: "world \<Rightarrow> net_ids \<Rightarrow> net_id \<Rightarrow> objid option" where
  "client_relevance_lost Wd ids i = sync_from_objid Wd (ids_object ids i)"

subsection \<open>The cached lookup changes nothing\<close>

definition read_now :: "world \<Rightarrow> objid \<Rightarrow> node_path \<Rightarrow> variant" where
  "read_now Wd i prop = (if i \<noteq> 0 \<and> alive Wd i then wd_get Wd i prop else VNil)"

lemma host_read_uncached:
  "last_obj = (if last_id \<noteq> 0 \<and> alive Wd last_id then Some last_id else None) \<Longrightarrow>
     host_read Wd polled_only pushed items last_id last_obj =
     map (\<lambda>(s, i, prop). (s, read_now Wd i prop))
       (filter (\<lambda>(s, i, prop). \<not> (polled_only \<and> pushed s)) items)"
  by (induction Wd polled_only pushed items last_id last_obj rule: host_read.induct)
    (auto simp: read_now_def Let_def)

subsection \<open>The client's loop decodes the server's bytes\<close>

definition entity_bytes ::
  "wire \<Rightarrow> engine \<Rightarrow> slot_coding \<Rightarrow> (nat \<Rightarrow> variant) \<Rightarrow> (nat \<Rightarrow> variant option) \<Rightarrow> u32 \<Rightarrow> nat list \<Rightarrow> bytes" where
  "entity_bytes W E c v base now ss = concat (map (\<lambda>s. host_encode W E c s (v s) (base s) now) ss)"

definition slot_seen :: "wire \<Rightarrow> engine \<Rightarrow> slot_coding \<Rightarrow> (nat \<Rightarrow> variant) \<Rightarrow> nat \<Rightarrow> variant" where
  "slot_seen W E c v s = slot_view W E (kinds c ! s) (grids c ! s) (quant c ! s) (v s)"

text \<open>What a slot's change may be: a slot of both ends, a value its kind carries, baselines in step.\<close>

definition change_ok ::
  "wire \<Rightarrow> engine \<Rightarrow> slot_coding \<Rightarrow> (nat \<Rightarrow> variant) \<Rightarrow> (nat \<Rightarrow> variant option) \<Rightarrow> (nat \<Rightarrow> variant option) \<Rightarrow>
   nat \<Rightarrow> bool" where
  "change_ok W E c v sbase cbase s =
     (s < length (kinds c) \<and> slot_ok E (kinds c ! s) (quant c ! s) (v s) \<and>
      base_agrees W E (kinds c ! s) (grids c ! s) (sbase s) (cbase s))"

definition slot_writes ::
  "scene \<Rightarrow> objid option \<Rightarrow> node_path list \<Rightarrow> (nat \<Rightarrow> variant) \<Rightarrow> nat list \<Rightarrow> (objid \<times> node_path \<times> variant) list" where
  "slot_writes S rt slots seen ss =
     concat (map (\<lambda>s. case (case rt of None \<Rightarrow> None | Some n \<Rightarrow> resolve_property S n (slots ! s)) of
                        Some (t, prop) \<Rightarrow> [(t, prop, seen s)] | None \<Rightarrow> []) ss)"

lemma entity_slots_decode:
  assumes "wire_ok W" "angle_ok W" "length slots = length (kinds c)"
    and "list_all (change_ok W E c v sbase cbase) ss"
  shows "entity_slots W E S rt slots c cbase now ss
      (reader_of (entity_bytes W E c v sbase now ss @ bs)) =
    (map (\<lambda>s. (s, slot_seen W E c v s)) ss, slot_writes S rt slots (slot_seen W E c v) ss)"
  using assms(4)
proof (induction ss)
  case (Cons s ss)
  then have "get_slot W E (kinds c ! s) (grids c ! s) (cbase s) now
      (reader_of (host_encode W E c s (v s) (sbase s) now @ entity_bytes W E c v sbase now ss @ bs)) =
      (slot_seen W E c v s, reader_of (entity_bytes W E c v sbase now ss @ bs))"
    using get_put_slot [OF assms(1,2)] by (simp add: change_ok_def host_encode_def slot_seen_def)
  then show ?case
    using Cons assms(3)
    by (simp add: entity_bytes_def slot_writes_def change_ok_def)
qed (simp add: entity_bytes_def slot_writes_def)

text \<open>Whatever the bytes, only replicated properties are written.\<close>

lemma entity_slots_confined:
  "(t, prop, v) \<in> set (snd (entity_slots W E S rt slots c base now ss r)) \<Longrightarrow>
     \<exists>p \<in> set slots. \<exists>n. rt = Some n \<and> resolve_property S n p = Some (t, prop)"
proof (induction ss arbitrary: r)
  case (Cons s ss)
  then show ?case
    by (auto simp: Let_def split_beta split: if_splits option.splits)
qed simp

lemma length_coding [simp]:
  "length (kinds (make_slot_coding cap S E sy (cache_slot_plan cap S sy))) = length (get_sync_slots cap sy)"
  by (simp add: make_slot_coding_uncached slot_items_def Let_def)

lemma slots_of_config: "sy_config sy = sy_config sy' \<Longrightarrow> get_sync_slots cap sy = get_sync_slots cap sy'"
  by (simp add: get_sync_slots_def)

text \<open>The values of an entity at a tick, slot by slot, and the codings a client may have kept: those
  it would make now.\<close>

definition entity_value :: "world \<Rightarrow> sync_data \<Rightarrow> nat \<Rightarrow> variant" where
  "entity_value Wd d s = read_now Wd (fst (sd_plan d ! s)) (snd (sd_plan d ! s))"

definition made_coding :: "engine \<Rightarrow> nat \<Rightarrow> world \<Rightarrow> objid \<Rightarrow> slot_coding" where
  "made_coding E cap Wd so =
     make_slot_coding cap (wd_scene Wd) E (wd_sync Wd so) (cache_slot_plan cap (wd_scene Wd) (wd_sync Wd so))"

definition codings_fresh :: "engine \<Rightarrow> nat \<Rightarrow> world \<Rightarrow> entity_client \<Rightarrow> objid \<Rightarrow> bool" where
  "codings_fresh E cap Wd st so =
     (case hm_get (ec_codings st) so of None \<Rightarrow> True | Some c \<Rightarrow> c = made_coding E cap Wd so)"

lemma client_coding_fresh:
  "codings_fresh E cap Wd st so \<Longrightarrow> fst (client_coding E cap Wd so st) = made_coding E cap Wd so"
  by (simp add: codings_fresh_def client_coding_def made_coding_def Let_def split: option.splits)

lemma client_entity_applies:
  assumes "sync_from_objid Wd (ids_object ids (eu_net_id u)) = Some so" "wd_in_tree Wd so"
    and "codings_fresh E cap Wd st so" "eu_kinds_check u = check (made_coding E cap Wd so)"
    and "entity_slots W E (wd_scene Wd) (sy_root (wd_sync Wd so)) (get_sync_slots cap (wd_sync Wd so))
           (made_coding E cap Wd so) (eu_base u) (eu_server_time u) (eu_changed u) (eu_reader u) = (sets, writes)"
  shows "fst (client_entity W E cap Wd ids u st) =
    \<lparr>eo_result = Entity_Applied, eo_set = sets, eo_written = writes, eo_synchronized = (writes \<noteq> [])\<rparr>"
  using assms client_coding_fresh [OF assms(3)]
  by (simp add: client_entity_def Let_def split_beta)

subsection \<open>A concrete entity on two ends\<close>

definition demo_server_world :: world where
  "demo_server_world = world0\<lparr>
     wd_class := (\<lambda>o1. if o1 = 7 then Some Plain_Node else if o1 = 20 then Some Sync_Node else None),
     wd_sync := (\<lambda>_. demo_sync),
     wd_get := (\<lambda>_ p. if np_subs p = [''a''] then VInt 5 else VBool True),
     wd_scene := demo_scene 7 T_INT T_BOOL\<rparr>"

definition demo_client_world :: world where
  "demo_client_world = world0\<lparr>
     wd_class := (\<lambda>o1. if o1 = 7 then Some Plain_Node else if o1 = 30 then Some Sync_Node else None),
     wd_sync := (\<lambda>_. demo_sync),
     wd_scene := demo_scene 7 T_INT T_BOOL\<rparr>"

definition demo_entity :: sync_data where
  "demo_entity = \<lparr>sd_objid = 20, sd_plan = cache_slot_plan 32 (demo_scene 7 T_INT T_BOOL) demo_sync,
     sd_coding = make_slot_coding 32 (demo_scene 7 T_INT T_BOOL) demo_engine demo_sync
       (cache_slot_plan 32 (demo_scene 7 T_INT T_BOOL) demo_sync)\<rparr>"

definition demo_client_ids :: net_ids where
  "demo_client_ids = ids_bind 4 30 net_ids0"

lemma demo_kinds: "kinds (sd_coding demo_entity) = [SK_INT_STEP, TAG_BOOL]"
  by (simp add: demo_entity_def make_slot_coding_uncached slot_items_def demo_slots demo_plan
      upt_rec coded_def declared_type_def)
    (simp add: demo_scene_def slot_kind_def quant_at_def read_quant_def leaf_meta_def demo_sync_def)

lemma demo_values: "entity_value demo_server_world demo_entity 0 = VInt 5"
  "entity_value demo_server_world demo_entity 1 = VBool True"
  by (simp_all add: entity_value_def demo_entity_def demo_plan read_now_def alive_def demo_server_world_def)

lemma demo_worlds:
  "sync_from_objid demo_client_world 30 = Some 30" "wd_in_tree demo_client_world o1"
  "wd_sync demo_client_world o1 = demo_sync" "wd_scene demo_client_world = demo_scene 7 T_INT T_BOOL"
  "wd_scene demo_server_world = demo_scene 7 T_INT T_BOOL"
  "sd_plan demo_entity = cache_slot_plan 32 (demo_scene 7 T_INT T_BOOL) demo_sync"
  by (simp_all add: sync_from_objid_def demo_client_world_def demo_server_world_def world0_def demo_entity_def)

lemma demo_coding:
  "sd_coding demo_entity = make_slot_coding 32 (demo_scene 7 T_INT T_BOOL) demo_engine demo_sync
     (cache_slot_plan 32 (demo_scene 7 T_INT T_BOOL) demo_sync)"
  by (simp add: demo_entity_def)

lemma demo_client_id: "ids_object demo_client_ids 4 = 30"
  by (simp add: demo_client_ids_def ids_bind_names ids_inv0)

subsection \<open>Properties\<close>

text \<open>The server's cached lookup is transparent: reading an entity through the last target's id and
  object stamps, in slot order, exactly what looking every target up afresh would, leaving out in a
  poll the slots the game pushes; a slot with no target or a freed one reads as nil.\<close>

theorem cached_read_is_plain:
  "host_read_entity Wd polled_only pushed d =
     map (\<lambda>s. (s, entity_value Wd d s))
       (filter (\<lambda>s. \<not> (polled_only \<and> pushed s)) [0..<length (sd_plan d)])"
proof -
  have "zip [0..<n] xs = map (\<lambda>s. (s, xs ! s)) [0..<n]" if "n = length xs" for n and xs :: "(objid \<times> node_path) list"
    using that by (intro nth_equalityI) simp_all
  then show ?thesis
    by (simp add: host_read_entity_def host_read_uncached filter_map comp_def split_beta entity_value_def)
qed

text \<open>An entity's state arrives: for a synchronizer with the same configuration, metas and declared
  types on both ends, the client that has it in its tree decodes from the server's bytes, slot by slot,
  the view of what the server read in its scene, keeps it as the slot's value, and writes it to the
  properties its own scene resolves the slots to; whole or against baselines in step with the server's,
  and whatever follows in the packet.\<close>

theorem entity_state_arrives:
  assumes "wire_ok W" "angle_ok W"
    and "sync_from_objid Wd' (ids_object ids i) = Some so" "wd_in_tree Wd' so" "codings_fresh E cap Wd' st so"
    and "sy_config (wd_sync Wd' so) = sy_config sy" "sy_meta (wd_sync Wd' so) = sy_meta sy"
    and "map (declared_type (wd_scene Wd')) (cache_slot_plan cap (wd_scene Wd') (wd_sync Wd' so)) =
      map (declared_type (wd_scene Wd)) (sd_plan d)"
    and "sd_plan d = cache_slot_plan cap (wd_scene Wd) sy"
    and "sd_coding d = make_slot_coding cap (wd_scene Wd) E sy (sd_plan d)"
    and "list_all (change_ok W E (sd_coding d) (entity_value Wd d) sbase cbase) ss"
  shows "fst (client_entity W E cap Wd' ids
       \<lparr>eu_net_id = i, eu_whole = whole, eu_kinds_check = check (sd_coding d), eu_changed = ss,
        eu_base = cbase, eu_server_time = now,
        eu_reader = reader_of (entity_bytes W E (sd_coding d) (entity_value Wd d) sbase now ss @ bs)\<rparr> st) =
     (let seen = slot_seen W E (sd_coding d) (entity_value Wd d);
          writes = slot_writes (wd_scene Wd') (sy_root (wd_sync Wd' so)) (get_sync_slots cap sy) seen ss
      in \<lparr>eo_result = Entity_Applied, eo_set = map (\<lambda>s. (s, seen s)) ss, eo_written = writes,
          eo_synchronized = (writes \<noteq> [])\<rparr>)"
proof -
  have made: "made_coding E cap Wd' so = sd_coding d"
    unfolding made_coding_def assms(10) by (rule both_ends_coding) (use assms(6-9) in simp_all)
  have slots: "get_sync_slots cap (wd_sync Wd' so) = get_sync_slots cap sy"
    by (rule slots_of_config) (rule assms(6))
  have "length (get_sync_slots cap sy) = length (kinds (sd_coding d))"
    by (simp add: assms(9,10))
  note decode = entity_slots_decode [OF assms(1,2) this assms(11)]
  show ?thesis
    unfolding Let_def
    by (rule client_entity_applies [OF _ assms(4,5)]) (simp_all add: assms(3) made slots decode)
qed

lemma entity_state_arrives_witness:
  "eo_set (fst (client_entity demo_wire demo_engine 32 demo_client_world demo_client_ids
       \<lparr>eu_net_id = 4, eu_whole = True, eu_kinds_check = check (sd_coding demo_entity), eu_changed = [0, 1],
        eu_base = (\<lambda>_. None), eu_server_time = 9,
        eu_reader = reader_of (entity_bytes demo_wire demo_engine (sd_coding demo_entity)
          (entity_value demo_server_world demo_entity) (\<lambda>_. None) 9 [0, 1] @ [])\<rparr>
       \<lparr>ec_codings = [], ec_warned = []\<rparr>)) = [(0, VInt 5), (1, VBool True)]"
proof -
  have ok: "list_all (change_ok demo_wire demo_engine (sd_coding demo_entity)
      (entity_value demo_server_world demo_entity) (\<lambda>_. None) (\<lambda>_. None)) [0, 1]"
    by (simp add: change_ok_def demo_kinds demo_values [unfolded One_nat_def] slot_ok_def
        slot_kind_stepped_def base_agrees_none payload_ok_def tag_opaque_def)
  have seen: "slot_seen demo_wire demo_engine (sd_coding demo_entity)
      (entity_value demo_server_world demo_entity) 0 = VInt 5"
    "slot_seen demo_wire demo_engine (sd_coding demo_entity)
      (entity_value demo_server_world demo_entity) 1 = VBool True"
    by (simp_all add: slot_seen_def demo_kinds demo_values [unfolded One_nat_def] slot_view_def
        payload_view_def engine_okD [OF demo_engine_ok])
  show ?thesis
    by (subst entity_state_arrives [OF demo_wire_ok demo_angle_ok, where so = 30 and sy = demo_sync and
          sbase = "\<lambda>_. None" and d = demo_entity and Wd = demo_server_world])
      (use ok in \<open>simp_all only: demo_client_id demo_worlds\<close>,
       simp_all add: demo_coding [symmetric] codings_fresh_def seen [unfolded One_nat_def] Let_def)
qed

text \<open>C21: whatever an update says and whatever bytes it carries, the client writes only properties of its
  own configuration's slots, at the nodes its own scene resolves them to; and a whole entity whose check
  byte is not its own coding's writes nothing at all.\<close>

theorem client_writes_confined:
  assumes "codings_fresh E cap Wd st (ids_object ids (eu_net_id u))"
  shows "set (eo_written (fst (client_entity W E cap Wd ids u st))) \<subseteq>
       {(t, prop, v). \<exists>p \<in> set (get_sync_slots cap (wd_sync Wd (ids_object ids (eu_net_id u)))).
          \<exists>n. sy_root (wd_sync Wd (ids_object ids (eu_net_id u))) = Some n \<and>
              resolve_property (wd_scene Wd) n p = Some (t, prop)} \<and>
     (\<not> (eu_whole u \<and> eu_kinds_check u \<noteq> check (made_coding E cap Wd (ids_object ids (eu_net_id u)))) \<or>
      eo_written (fst (client_entity W E cap Wd ids u st)) = [])"
proof (cases "sync_from_objid Wd (ids_object ids (eu_net_id u))")
  case None
  then show ?thesis by (simp add: client_entity_def refused_def)
next
  case (Some so)
  then have so: "ids_object ids (eu_net_id u) = so"
    by (simp add: sync_from_objid_def split: if_splits)
  have "fst (client_coding E cap Wd so st) = made_coding E cap Wd so"
    using assms so by (simp add: client_coding_fresh)
  then show ?thesis
    using Some by (auto simp: client_entity_def Let_def so refused_def split_beta dest: entity_slots_confined)
qed

lemma client_writes_confined_witness:
  "eo_written (fst (client_entity demo_wire demo_engine 32 demo_client_world demo_client_ids
       \<lparr>eu_net_id = 4, eu_whole = True, eu_kinds_check = check (sd_coding demo_entity) + 1, eu_changed = [0, 1],
        eu_base = (\<lambda>_. None), eu_server_time = 9, eu_reader = reader_of [1, 2, 3]\<rparr>
       \<lparr>ec_codings = [], ec_warned = []\<rparr>)) = []"
proof -
  have "made_coding demo_engine 32 demo_client_world 30 = sd_coding demo_entity"
    by (simp add: made_coding_def demo_client_world_def demo_entity_def)
  then show ?thesis
    using client_writes_confined [of demo_engine 32 demo_client_world "\<lparr>ec_codings = [], ec_warned = []\<rparr>"
        demo_client_ids "\<lparr>eu_net_id = 4, eu_whole = True, eu_kinds_check = check (sd_coding demo_entity) + 1,
          eu_changed = [0, 1], eu_base = (\<lambda>_. None), eu_server_time = 9, eu_reader = reader_of [1, 2, 3]\<rparr>"
        demo_wire]
    by (simp add: codings_fresh_def demo_client_id)
qed

end
