(* ===== verification/Cadence.thy ===== *)
theory Cadence
  imports Ieee
begin

section \<open>When snapshots go out\<close>

text \<open>
  The server's send cadence in \<open>goldnet_multiplayer.cpp\<close>: \<open>_min_interval_us\<close>, \<open>_refresh_interval\<close>,
  \<open>set_snapshot_rate\<close>, and the deadline arithmetic of \<open>_poll\<close>, all in microseconds. A cast of a double
  outside \<open>uint64_t\<close> is undefined in C++; the argument \<open>edge\<close> stands for what it gives. The lemmas show
  that the interval is never 0, that a server polled late never bursts, and that one polled often
  enough loses nothing to the polling: it sends exactly once per interval.
\<close>

subsection \<open>The interval\<close>

abbreviation DEFAULT_INTERVAL_MS :: u64 where "DEFAULT_INTERVAL_MS \<equiv> 33"
abbreviation f64_million :: f64 where "f64_million \<equiv> 0x412E848000000000" \<comment> \<open>\<open>1000000.0\<close>\<close>
abbreviation f64_half :: f64 where "f64_half \<equiv> 0x3FE0000000000000" \<comment> \<open>\<open>0.5\<close>\<close>

definition cast_u64 :: "(f64 \<Rightarrow> u64) \<Rightarrow> f64 \<Rightarrow> u64" where
  "cast_u64 edge d = (case f64_to_u64 d of Some n \<Rightarrow> n | None \<Rightarrow> edge d)"

definition sync_interval_us :: "(f64 \<Rightarrow> u64) \<Rightarrow> f64 \<Rightarrow> u64" where
  "sync_interval_us edge sec =
     (let us = (if f64_pos sec then cast_u64 edge (f64_add (f64_mul sec f64_million) f64_half)
                else DEFAULT_INTERVAL_MS * 1000)
      in if us = 0 then 1 else us)"

text \<open>\<open>secs\<close> are the replication intervals of the owned synchronizers that are alive, in the order of
  the set; the accumulator is \<open>best\<close>, 0 for none yet.\<close>

definition min_interval_us :: "(f64 \<Rightarrow> u64) \<Rightarrow> f64 \<Rightarrow> f64 list \<Rightarrow> u64" where
  "min_interval_us edge rate secs =
     (if f64_pos rate
      then max 1 (cast_u64 edge (f64_add (f64_div f64_million rate) f64_half))
      else
        let best = foldl (\<lambda>best sec. let us = sync_interval_us edge sec
                                     in if best = 0 \<or> us < best then us else best) 0 secs
        in if best = 0 then DEFAULT_INTERVAL_MS * 1000 else best)"

record cadence =
  snapshot_rate_setting :: f64
  cached_min_interval_us :: u64
  last_send_us :: u64

text \<open>The rate handed to the core's \<open>set_snapshot_rate\<close> comes with the new state.\<close>

definition refresh_interval :: "(f64 \<Rightarrow> u64) \<Rightarrow> f64 list \<Rightarrow> cadence \<Rightarrow> f64 \<times> cadence" where
  "refresh_interval edge secs c =
     (let us = min_interval_us edge (snapshot_rate_setting c) secs
      in (if f64_pos (snapshot_rate_setting c) then snapshot_rate_setting c
          else f64_div f64_million (f64_of_int (uint us)),
          c\<lparr>cached_min_interval_us := us\<rparr>))"

definition set_snapshot_rate :: "(f64 \<Rightarrow> u64) \<Rightarrow> f64 list \<Rightarrow> f64 \<Rightarrow> cadence \<Rightarrow> f64 \<times> cadence" where
  "set_snapshot_rate edge secs hz c =
     refresh_interval edge secs (c\<lparr>snapshot_rate_setting := (if f64_pos hz then hz else 0)\<rparr>)"

subsection \<open>The deadline\<close>

text \<open>\<open>_poll\<close>'s send branch, for a server that has peers and does not send manually: whether this poll
  sends, and the next state.\<close>

definition poll_send :: "u64 \<Rightarrow> cadence \<Rightarrow> bool \<times> cadence" where
  "poll_send now c =
     (let iv = (if 0 < cached_min_interval_us c then cached_min_interval_us c else 1);
          last0 = (if last_send_us c = 0 then now else last_send_us c)
      in if iv \<le> now - last0 then
           let last1 = last0 + iv
           in (True, c\<lparr>last_send_us := (if iv \<le> now - last1 then now else last1)\<rparr>)
         else (False, c\<lparr>last_send_us := last0\<rparr>))"

fun poll_run :: "cadence \<Rightarrow> u64 list \<Rightarrow> nat \<times> cadence" where
  "poll_run c [] = (0, c)"
| "poll_run c (now # ts) =
     (let (s, c1) = poll_send now c; (n, c2) = poll_run c1 ts in ((if s then 1 else 0) + n, c2))"

definition iv_of :: "cadence \<Rightarrow> nat" where
  "iv_of c = max 1 (unat (cached_min_interval_us c))"

text \<open>One poll, in natural numbers, for a clock that has not gone back.\<close>

lemma poll_send_nat:
  assumes "last_send_us c \<noteq> 0" "last_send_us c \<le> now"
  shows "fst (poll_send now c) = (iv_of c \<le> unat now - unat (last_send_us c))"
    and "unat (last_send_us (snd (poll_send now c))) =
      (if iv_of c \<le> unat now - unat (last_send_us c)
       then if 2 * iv_of c \<le> unat now - unat (last_send_us c) then unat now
            else unat (last_send_us c) + iv_of c
       else unat (last_send_us c))"
    and "iv_of (snd (poll_send now c)) = iv_of c"
proof -
  define iv where "iv = (if 0 < cached_min_interval_us c then cached_min_interval_us c else 1)"
  have iv: "unat iv = iv_of c"
    by (cases "cached_min_interval_us c = 0") (auto simp: iv_def iv_of_def max_def word_gt_0 unat_gt_0 Suc_le_eq)
  define l where "l = last_send_us c"
  have le: "unat l \<le> unat now" and sub: "unat (now - l) = unat now - unat l"
    using assms(2) unat_sub [OF assms(2)] by (simp_all add: l_def word_le_nat_alt)
  have ge: "iv \<le> now - l \<longleftrightarrow> iv_of c \<le> unat now - unat l"
    by (simp add: word_le_nat_alt sub iv)
  have add: "unat (l + iv) = unat l + iv_of c" and sub2: "unat (now - (l + iv)) = unat now - unat l - iv_of c"
    if "iv_of c \<le> unat now - unat l"
  proof -
    have "unat l + unat iv \<le> unat now" using that le iv by linarith
    then have "unat l + unat iv < 2 ^ 64" using unsigned_less [of now, where ?'a = nat] by simp
    then show a: "unat (l + iv) = unat l + iv_of c"
      by (simp add: unat_word_ariths take_bit_nat_eq_self iv)
    then have "l + iv \<le> now" using \<open>unat l + unat iv \<le> unat now\<close> iv by (simp add: word_le_nat_alt)
    then show "unat (now - (l + iv)) = unat now - unat l - iv_of c"
      using unat_sub [of "l + iv" now] a by simp
  qed
  have e: "poll_send now c = (if iv \<le> now - l then (True, c\<lparr>last_send_us := (if iv \<le> now - (l + iv) then now else l + iv)\<rparr>)
      else (False, c\<lparr>last_send_us := l\<rparr>))"
    using assms(1) by (simp add: poll_send_def iv_def [symmetric] Let_def l_def)
  show "fst (poll_send now c) = (iv_of c \<le> unat now - unat (last_send_us c))"
    unfolding e ge l_def [symmetric] by simp
  show "unat (last_send_us (snd (poll_send now c))) =
      (if iv_of c \<le> unat now - unat (last_send_us c)
       then if 2 * iv_of c \<le> unat now - unat (last_send_us c) then unat now
            else unat (last_send_us c) + iv_of c
       else unat (last_send_us c))"
    unfolding e ge l_def [symmetric]
    by (auto simp: add sub2 iv word_le_nat_alt)
  show "iv_of (snd (poll_send now c)) = iv_of c"
    unfolding e by (simp add: iv_of_def)
qed

lemma poll_send_keeps:
  assumes "last_send_us c \<noteq> 0" "last_send_us c \<le> now"
  shows "last_send_us (snd (poll_send now c)) \<noteq> 0" and "last_send_us (snd (poll_send now c)) \<le> now"
    and "last_send_us c \<le> last_send_us (snd (poll_send now c))"
proof -
  define a b n d where "a = unat (last_send_us c)" and "b = unat (last_send_us (snd (poll_send now c)))"
    and "n = unat now" and "d = iv_of c"
  have ab: "0 < a" "a \<le> n" "0 < d"
    using assms by (simp_all add: a_def n_def d_def iv_of_def unat_gt_0 word_le_nat_alt word_neq_0_conv)
  have "b = (if d \<le> n - a then if 2 * d \<le> n - a then n else a + d else a)"
    using poll_send_nat(2) [OF assms] by (simp only: a_def b_def n_def d_def)
  then have "0 < b" "b \<le> n" "a \<le> b"
    using ab by (cases "d \<le> n - a"; cases "2 * d \<le> n - a"; simp)+
  then show "last_send_us (snd (poll_send now c)) \<noteq> 0" and "last_send_us (snd (poll_send now c)) \<le> now"
    and "last_send_us c \<le> last_send_us (snd (poll_send now c))"
    by (auto simp: word_le_nat_alt a_def b_def n_def)
qed

text \<open>Each send moves the deadline by at least an interval, and never past the clock.\<close>

lemma poll_run_spent:
  assumes "last_send_us c \<noteq> 0" "sorted (last_send_us c # ts)"
  shows "unat (last_send_us c) + fst (poll_run c ts) * iv_of c \<le> unat (last (last_send_us c # ts))"
proof -
  have "unat (last_send_us c) + fst (poll_run c ts) * iv_of c \<le> unat (last_send_us (snd (poll_run c ts))) \<and>
     last_send_us (snd (poll_run c ts)) \<le> last (last_send_us c # ts)"
    using assms
  proof (induction ts arbitrary: c)
    case (Cons now ts)
    let ?c = "snd (poll_send now c)"
    have le: "last_send_us c \<le> now" using Cons.prems(2) by simp
    note K = poll_send_keeps [OF Cons.prems(1) le] and N = poll_send_nat [OF Cons.prems(1) le]
    have "sorted (last_send_us ?c # ts)"
      using Cons.prems(2) K(2) by (auto intro: order_trans)
    then have IH: "unat (last_send_us ?c) + fst (poll_run ?c ts) * iv_of c \<le> unat (last_send_us (snd (poll_run ?c ts)))"
      "last_send_us (snd (poll_run ?c ts)) \<le> last (last_send_us ?c # ts)"
      using Cons.IH [OF K(1)] N(3) by simp_all
    have "unat (last_send_us c) + (if fst (poll_send now c) then iv_of c else 0) \<le> unat (last_send_us ?c)"
      unfolding N(1,2) using le by (auto simp: iv_of_def word_le_nat_alt)
    moreover have "last (last_send_us ?c # ts) \<le> last (last_send_us c # now # ts)"
      using K(2) by simp
    ultimately show ?case
      using IH by (auto simp: split_beta Let_def add_mult_distrib)
  qed simp
  then show ?thesis by (simp add: word_le_nat_alt)
qed

lemma poll_run_bound:
  assumes "last_send_us c \<noteq> 0" "sorted (last_send_us c # ts)"
  shows "fst (poll_run c ts) \<le> (unat (last (last_send_us c # ts)) - unat (last_send_us c)) div iv_of c"
proof -
  have "fst (poll_run c ts) * iv_of c \<le> unat (last (last_send_us c # ts)) - unat (last_send_us c)"
    using poll_run_spent [OF assms] by linarith
  moreover have "0 < iv_of c" by (simp add: iv_of_def)
  ultimately show ?thesis by (simp add: less_eq_div_iff_mult_less_eq)
qed

text \<open>Polled at least once an interval, the deadline stays on its grid.\<close>

lemma poll_run_steady:
  assumes "last_send_us c \<noteq> 0" "sorted (t # ts)" "last_send_us c \<le> t"
    and "unat t - unat (last_send_us c) < iv_of c"
    and "successively (\<lambda>a b. unat b - unat a \<le> iv_of c) (t # ts)"
  shows "fst (poll_run c ts) = (unat (last (t # ts)) - unat (last_send_us c)) div iv_of c"
  using assms
proof (induction ts arbitrary: c t)
  case Nil
  then show ?case by simp
next
  case (Cons now ts)
  let ?c = "snd (poll_send now c)"
  have le: "last_send_us c \<le> now" using Cons.prems(2,3) by auto
  note K = poll_send_keeps [OF Cons.prems(1) le] and N = poll_send_nat [OF Cons.prems(1) le]
  have iv: "0 < iv_of c" by (simp add: iv_of_def)
  have lt: "unat (last_send_us c) \<le> unat t" "unat t \<le> unat now"
    using Cons.prems(2,3) by (simp_all add: word_le_nat_alt)
  moreover have "unat now - unat t \<le> iv_of c" using Cons.prems(5) by simp
  ultimately have small: "unat now - unat (last_send_us c) < 2 * iv_of c"
    using Cons.prems(4) by linarith
  have last: "unat now \<le> unat (last (now # ts))"
    using Cons.prems(2) by (cases ts) (auto simp: word_le_nat_alt [symmetric])
  have IH: "fst (poll_run ?c ts) = (unat (last (now # ts)) - unat (last_send_us ?c)) div iv_of c"
  proof -
    have "unat now - unat (last_send_us ?c) < iv_of ?c"
      unfolding N(2,3) using small iv lt by auto
    then show ?thesis
      using Cons.IH [OF K(1) _ K(2)] Cons.prems(2,5) by (simp add: N(3))
  qed
  show ?case
  proof (cases "iv_of c \<le> unat now - unat (last_send_us c)")
    case True
    then have l: "unat (last_send_us ?c) = unat (last_send_us c) + iv_of c"
      using small by (simp add: N(2))
    define k where "k = unat (last (now # ts)) - unat (last_send_us c)"
    have k: "iv_of c \<le> k" using True last by (simp add: k_def)
    have "fst (poll_run ?c ts) = (k - iv_of c) div iv_of c"
      unfolding IH l by (simp add: k_def)
    then have "Suc (fst (poll_run ?c ts)) = k div iv_of c"
      using le_div_geq [OF iv k] by simp
    then show ?thesis
      using True by (simp add: split_beta Let_def N(1) k_def)
  next
    case False
    then show ?thesis
      using IH by (simp add: split_beta Let_def N(1,2))
  qed
qed

lemma sync_interval_pos: "sync_interval_us edge sec \<noteq> 0"
  by (simp add: sync_interval_us_def Let_def)

subsection \<open>Properties\<close>

text \<open>With no rate set, the interval is the least of the owned synchronizers' (each rounded to a
  microsecond, at least one; 33 ms for a synchronizer that asks for none), and 33 ms when none is owned;
  it is never 0.\<close>

theorem interval_is_the_least:
  assumes "\<not> f64_pos rate"
  shows "min_interval_us edge rate secs =
      (if secs = [] then 33000 else Min (sync_interval_us edge ` set secs)) \<and>
    min_interval_us edge rate secs \<noteq> 0"
proof -
  define step where "step = (\<lambda>best sec. let us = sync_interval_us edge sec in if best = 0 \<or> us < best then us else best)"
  have fold: "foldl step b secs = (if b = 0 then if secs = [] then 0 else Min (sync_interval_us edge ` set secs)
      else Min (insert b (sync_interval_us edge ` set secs)))" for b
  proof (induction secs arbitrary: b)
    case (Cons s secs)
    let ?f = "sync_interval_us edge"
    show ?case
    proof (cases "b = 0")
      case True
      then have "step b s = ?f s" by (simp add: step_def Let_def)
      then show ?thesis using True Cons sync_interval_pos [of edge s] by simp
    next
      case False
      then have st: "step b s = min b (?f s)" by (auto simp: step_def Let_def min_def)
      then have nz: "step b s \<noteq> 0" using False sync_interval_pos [of edge s] by (simp add: min_def)
      have "insert (min b (?f s)) (?f ` set secs) \<subseteq> insert b (insert (?f s) (?f ` set secs))"
        by (auto simp: min_def)
      moreover have "Min (insert b (insert (?f s) (?f ` set secs))) = min b (Min (insert (?f s) (?f ` set secs)))"
        by simp
      moreover have "Min (insert (?f s) (?f ` set secs)) = (if secs = [] then ?f s else min (?f s) (Min (?f ` set secs)))"
        by simp
      moreover have "Min (insert (min b (?f s)) (?f ` set secs)) =
          (if secs = [] then min b (?f s) else min (min b (?f s)) (Min (?f ` set secs)))"
        by simp
      ultimately have "Min (insert (min b (?f s)) (?f ` set secs)) = Min (insert b (insert (?f s) (?f ` set secs)))"
        by (simp add: min.assoc)
      then show ?thesis using False Cons [of "step b s"] nz by (simp add: st)
    qed
  qed simp
  have pos: "Min (sync_interval_us edge ` set secs) \<noteq> 0" if "secs \<noteq> []"
    using Min_in [of "sync_interval_us edge ` set secs"] that sync_interval_pos by force
  show ?thesis
    using assms fold [of 0] pos by (auto simp: min_interval_us_def step_def Let_def)
qed

lemma interval_is_the_least_witness:
  "min_interval_us (\<lambda>d. 0) 0 [] = 33000"
  using interval_is_the_least [of 0 "\<lambda>d. 0" "[]"] by (simp add: f64_pos_def f64_val_def fp_unpack_def)

text \<open>C37: a stalled server never bursts to catch up. However long it was away before a poll \<open>t\<close>, and however the
  polls after it fall, on a clock that does not go back it sends, from that poll on, one snapshot and
  then at most one for each interval (or part of one) since \<open>t\<close>: of the intervals it missed
  it makes up none. Nor does it ever send more than one for each whole interval since its last deadline.\<close>

theorem cadence_never_bursts:
  assumes "last_send_us c \<noteq> 0" "sorted (last_send_us c # t # ts)"
  shows "fst (poll_run c (t # ts)) \<le> 1 + (unat (last (t # ts)) - unat t + iv_of c - 1) div iv_of c \<and>
    fst (poll_run c (t # ts)) \<le> (unat (last (t # ts)) - unat (last_send_us c)) div iv_of c"
proof -
  have iv: "0 < iv_of c" by (simp add: iv_of_def)
  have le: "last_send_us c \<le> t" using assms(2) by simp
  let ?c = "snd (poll_send t c)"
  note K = poll_send_keeps [OF assms(1) le] and N = poll_send_nat [OF assms(1) le]
  have sent: "fst (poll_run c (t # ts)) \<le> 1 + fst (poll_run ?c ts)" by (simp add: split_beta Let_def)
  have caught: "unat t - unat (last_send_us ?c) < iv_of c" unfolding N(2) using iv by auto
  have "sorted (last_send_us ?c # ts)" using assms(2) K(2) by (auto intro: order_trans)
  from poll_run_bound [OF K(1) this] have
    "fst (poll_run ?c ts) \<le> (unat (last (last_send_us ?c # ts)) - unat (last_send_us ?c)) div iv_of c"
    by (simp only: N(3))
  also have "\<dots> \<le> (unat (last (t # ts)) - unat t + iv_of c - 1) div iv_of c"
  proof (cases ts)
    case (Cons u us)
    then have "unat t \<le> unat (last ts)" using assms(2) by (auto simp: word_le_nat_alt [symmetric])
    then show ?thesis using caught Cons by (intro div_le_mono) simp
  qed simp
  finally show ?thesis using sent poll_run_bound [OF assms] by simp
qed

lemma cadence_never_bursts_witness:
  "fst (poll_run \<lparr>snapshot_rate_setting = 0, cached_min_interval_us = 10, last_send_us = 100\<rparr> [900, 900, 901, 903, 912]) \<le> 3"
  using cadence_never_bursts [of "\<lparr>snapshot_rate_setting = 0, cached_min_interval_us = 10, last_send_us = 100\<rparr>" 900
      "[900, 901, 903, 912]"]
  by (simp add: iv_of_def)

text \<open>C38: a server polled at least once an interval keeps its rate exactly: the number of snapshots it
  sends is the number of whole intervals passed, with no remainder lost to the polling, whatever the
  polls' spacing. (Taking the clock for the next deadline would round every period up to a poll.)\<close>

theorem cadence_does_not_drift:
  assumes "last_send_us c \<noteq> 0" "sorted (last_send_us c # ts)"
    and "successively (\<lambda>a b. unat b - unat a \<le> iv_of c) (last_send_us c # ts)"
  shows "fst (poll_run c ts) = (unat (last (last_send_us c # ts)) - unat (last_send_us c)) div iv_of c"
  using assms by (intro poll_run_steady) (simp_all add: iv_of_def)

lemma cadence_does_not_drift_witness:
  "fst (poll_run \<lparr>snapshot_rate_setting = 0, cached_min_interval_us = 10, last_send_us = 100\<rparr> [107, 114, 121, 128, 135]) = 3"
  using cadence_does_not_drift [of "\<lparr>snapshot_rate_setting = 0, cached_min_interval_us = 10, last_send_us = 100\<rparr>"
      "[107, 114, 121, 128, 135]"]
  by (simp add: iv_of_def)

end
