(* ===== verification/Spawn_Data.thy ===== *)
theory Spawn_Data
  imports Args
begin

section \<open>Spawn records\<close>

text \<open>
  \<open>put_spawn_data\<close> and \<open>get_spawn_data\<close> of \<open>goldnet_multiplayer.cpp\<close>: the data of a spawn record, which
  names the ids of the spawned node's synchronizers by their paths and carries what the game's spawn
  function was given. The list of names is the counted list of the \<open>codec\<close> locale.
\<close>

record spawn_sync =
  ss_net_id :: u32
  ss_path :: string

definition put_spawn_sync :: "wire \<Rightarrow> engine \<Rightarrow> spawn_sync \<Rightarrow> bytes" where
  "put_spawn_sync W E s = w_uvarint W (ss_net_id s) @ put_str W E (ss_path s)"

definition get_spawn_sync :: "wire \<Rightarrow> engine \<Rightarrow> reader \<Rightarrow> spawn_sync \<times> reader" where
  "get_spawn_sync W E r =
     (let (i, r1) = r_uvarint W r; (p, r2) = get_str W E r1
      in (\<lparr>ss_net_id = i, ss_path = p\<rparr>, r2))"

definition put_spawn_data :: "wire \<Rightarrow> engine \<Rightarrow> spawn_sync list \<Rightarrow> variant \<Rightarrow> bytes" where
  "put_spawn_data W E syncs v =
     w_uvarint W (of_nat (length syncs)) @ concat (map (put_spawn_sync W E) syncs) @ var_to_bytes E v"

text \<open>\<open>None\<close> is false: the record can't be read.\<close>

definition get_spawn_data :: "wire \<Rightarrow> engine \<Rightarrow> bytes \<Rightarrow> (spawn_sync list \<times> variant) option" where
  "get_spawn_data W E bs =
     (let (n, r) = r_uvarint W (reader_of bs);
          (syncs, r1) = get_many (get_spawn_sync W E) (unat n) r
      in if rd_failed r1 then None else Some (syncs, bytes_to_var E (rd_bytes r1)))"

interpretation spawn_sync: codec "wire_ok W" "put_spawn_sync W E" "get_spawn_sync W E" "\<lambda>s. s"
    "\<lambda>s. str_ok E (ss_path s)" for W E
  by unfold_locales (simp add: put_spawn_sync_def get_spawn_sync_def Let_def wire_simps)

lemma get_put_spawn_data [wire_simps]:
  assumes "wire_ok W" "list_all (\<lambda>s. str_ok E (ss_path s)) syncs" "length syncs < 2 ^ 32"
    and "bytes_to_var E (var_to_bytes E v) = v"
  shows "get_spawn_data W E (put_spawn_data W E syncs v) = Some (syncs, v)"
  using spawn_sync.many_reads_back [OF assms(1,2), of "var_to_bytes E v"] assms
  by (simp add: get_spawn_data_def put_spawn_data_def wire_simps unat_of_nat_u32)

subsection \<open>Properties\<close>

text \<open>A spawn record carries its spawn: what the server wrote (any number of named synchronizers
  under \<open>2 ^ 32\<close>, and data the engine's serialisation restores) is what the client reads, the names in
  order and the data exactly.\<close>

theorem spawn_data_round_trip:
  assumes "wire_ok W" "list_all (\<lambda>s. str_ok E (ss_path s)) syncs" "length syncs < 2 ^ 32"
    and "bytes_to_var E (var_to_bytes E v) = v"
  shows "get_spawn_data W E (put_spawn_data W E syncs v) = Some (syncs, v)"
  using assms by (rule get_put_spawn_data)

lemma spawn_data_round_trip_witness:
  "get_spawn_data demo_wire demo_engine (put_spawn_data demo_wire demo_engine
     [\<lparr>ss_net_id = 3, ss_path = ''Sync''\<rparr>, \<lparr>ss_net_id = 4, ss_path = ''Gun/Sync''\<rparr>] (VOther 9 [1, 2])) =
   Some ([\<lparr>ss_net_id = 3, ss_path = ''Sync''\<rparr>, \<lparr>ss_net_id = 4, ss_path = ''Gun/Sync''\<rparr>], VOther 9 [1, 2])"
  using demo_opaque_ok [of 9 "[1, 2]"]
  by (intro spawn_data_round_trip [OF demo_wire_ok]) (simp_all add: demo_str_ok opaque_ok_def)

end
