(* ===== verification/Registry.thy ===== *)
theory Registry
  imports Entity Cadence Spawn_Data
begin

section \<open>What is replicated: synchronizers, spawners, spawned nodes\<close>

text \<open>
  The registries of \<open>GoldNetMultiplayer\<close> and the operations on them: a spawner's \<open>spawn_function\<close>
  wrapped and its spawns captured, synchronizers registered and unregistered by the engine, and what a
  server's tick hands goldnet's core: spawn and bind records, entities, despawns. The core is the
  submodule's, so a call into it is an entry of \<open>rg_calls\<close>, in order; nothing is assumed of what it
  does with one. The scene of each operation is its \<open>world\<close>.

  The client's half, which applies the records, is \<open>Replica\<close>; both work on this one state, as both
  do on the one object of the class.
\<close>

subsection \<open>State\<close>

datatype callable = Game_Fn nat | Trampoline objid

record pending_spawn =
  ps_spawner :: objid
  ps_data :: variant

record spawn_record =
  sr_spawner :: net_id
  sr_data :: bytes
  sr_entities :: "net_id list"

record entity_layout =
  el_push :: "u8 list"
  el_priority :: f32
  el_slots :: nat
  el_stepped :: "u8 list"
  el_kinds_check :: u8

datatype core_call =
    Add_Spawn net_id spawn_record
  | Add_Entity net_id entity_layout sync_data "spawn_record option"
  | Despawn net_id
  | Remove_Entity net_id
  | Client_Forget net_id
  | Core_Rate f64
  | Core_Tick u32

record registry =
  rg_ids :: net_ids
  rg_owned :: "objid hash_set"
  rg_bind_ids :: "net_id hash_set"
  rg_to_add :: "objid hash_set"
  rg_spawners :: "(objid, callable) hash_map"
  rg_spawn_fn :: "objid \<Rightarrow> callable"
  rg_scanned :: bool
  rg_pending :: "(objid, pending_spawn) hash_map"
  rg_spawned :: "net_id hash_set"
  rg_client_spawned :: "net_id hash_set"
  rg_entity :: entity_client
  rg_cadence :: cadence
  rg_calls :: "core_call list"

abbreviation (input) BIND_SPAWNER :: net_id where "BIND_SPAWNER \<equiv> 0"

definition core :: "core_call \<Rightarrow> registry \<Rightarrow> registry" where
  "core c st = st\<lparr>rg_calls := rg_calls st @ [c]\<rparr>"

subsection \<open>Spawners\<close>

text \<open>\<open>rg_spawn_fn\<close> is each spawner's \<open>spawn_function\<close> property.\<close>

definition wrap_spawner :: "objid \<Rightarrow> registry \<Rightarrow> registry" where
  "wrap_spawner sp st =
     (if hm_has (rg_spawners st) sp then st
      else st\<lparr>rg_spawners := hm_put sp (rg_spawn_fn st sp) (rg_spawners st),
              rg_spawn_fn := (rg_spawn_fn st)(sp := Trampoline sp)\<rparr>)"

definition on_node_added :: "world \<Rightarrow> objid \<Rightarrow> registry \<Rightarrow> registry" where
  "on_node_added Wd n st = (if wd_class Wd n = Some Spawner_Node then wrap_spawner n st else st)"

text \<open>\<open>tr\<close> is the tree's root with everything below it, once there is one; \<open>find_children\<close> does not
  give the root itself.\<close>

definition capture_spawners :: "world \<Rightarrow> node_tree option \<Rightarrow> registry \<Rightarrow> registry" where
  "capture_spawners Wd tr st =
     (if rg_scanned st then st
      else case tr of
             None \<Rightarrow> st
           | Some t \<Rightarrow>
               fold wrap_spawner (filter (\<lambda>n. wd_class Wd n = Some Spawner_Node) (tl (tree_nodes t)))
                 (st\<lparr>rg_scanned := True\<rparr>))"

text \<open>\<open>call_fn\<close> is the game's: the node a callable gives for the data, if it gives a node.\<close>

definition spawn_trampoline ::
  "(callable \<Rightarrow> variant \<Rightarrow> objid option) \<Rightarrow> variant \<Rightarrow> objid \<Rightarrow> registry \<Rightarrow> objid option \<times> registry" where
  "spawn_trampoline call_fn data sp st =
     (let node = (case hm_get (rg_spawners st) sp of Some fn \<Rightarrow> call_fn fn data | None \<Rightarrow> None)
      in (node,
          case node of
            Some n \<Rightarrow> st\<lparr>rg_pending := hm_put n \<lparr>ps_spawner = sp, ps_data = data\<rparr> (rg_pending st)\<rparr>
          | None \<Rightarrow> st))"

subsection \<open>Records\<close>

definition bind_record :: "engine \<Rightarrow> world \<Rightarrow> objid \<Rightarrow> net_id \<Rightarrow> bool \<Rightarrow> spawn_record" where
  "bind_record E Wd n i gated =
     \<lparr>sr_spawner = BIND_SPAWNER, sr_data = utf8 E (wd_path Wd n), sr_entities = (if gated then [i] else [])\<rparr>"

definition spawner_net_id :: "engine \<Rightarrow> world \<Rightarrow> objid \<Rightarrow> registry \<Rightarrow> net_id \<times> registry" where
  "spawner_net_id E Wd sp st =
     (let i0 = ids_id (rg_ids st) sp
      in if i0 \<noteq> 0 then (i0, st)
         else
           let (i, ids1) = ids_assign sp (rg_ids st);
               st1 = st\<lparr>rg_ids := ids1\<rparr>
           in (i, if alive Wd sp
                  then (core (Add_Spawn i (bind_record E Wd sp i False)) st1)
                    \<lparr>rg_bind_ids := hs_insert i (rg_bind_ids st1)\<rparr>
                  else st1))"

definition under_spawned :: "world \<Rightarrow> registry \<Rightarrow> objid \<Rightarrow> bool" where
  "under_spawned Wd st n = list_ex (\<lambda>a. ids_id (rg_ids st) a \<in> set (rg_spawned st)) (wd_up Wd n)"

text \<open>The loop over a spawned node's synchronizers: an id for each, and a name for those owned.\<close>

fun name_syncs ::
  "world \<Rightarrow> objid \<Rightarrow> objid hash_set \<Rightarrow> objid list \<Rightarrow> net_ids \<Rightarrow> net_id list \<times> spawn_sync list \<times> net_ids" where
  "name_syncs Wd n owned [] ids = ([], [], ids)"
| "name_syncs Wd n owned (sy # sys) ids =
     (let (i, ids1) = ids_assign sy ids;
          (es, named, ids2) = name_syncs Wd n owned sys ids1
      in (i # es,
          (if sy \<in> set owned then [\<lparr>ss_net_id = i, ss_path = wd_path_to Wd n sy\<rparr>] else []) @ named,
          ids2))"

text \<open>One captured spawn: whether it is done with, and the state.\<close>

definition drain_one ::
  "wire \<Rightarrow> engine \<Rightarrow> world \<Rightarrow> objid \<Rightarrow> pending_spawn \<Rightarrow> registry \<Rightarrow> bool \<times> registry" where
  "drain_one W E Wd n ps st =
     (if \<not> alive Wd n then (True, st)
      else if \<not> wd_in_tree Wd n then (False, st)
      else if \<not> hm_has (rg_spawners st) (ps_spawner ps) then (True, st)
      else
        let (sp_id, st1) = spawner_net_id E Wd (ps_spawner ps) st;
            (es, named, ids1) =
              name_syncs Wd n (rg_owned st1) (collect_syncs Wd (wd_tree Wd n)) (rg_ids st1);
            (i, ids2) = ids_assign n ids1;
            rec = \<lparr>sr_spawner = sp_id, sr_data = put_spawn_data W E named (ps_data ps), sr_entities = es\<rparr>
        in (True, (core (Add_Spawn i rec) (st1\<lparr>rg_ids := ids2\<rparr>))
                    \<lparr>rg_spawned := hs_insert i (rg_spawned st1)\<rparr>))"

fun drain_loop ::
  "wire \<Rightarrow> engine \<Rightarrow> world \<Rightarrow> (objid \<times> pending_spawn) list \<Rightarrow> registry \<Rightarrow> objid list \<times> registry" where
  "drain_loop W E Wd [] st = ([], st)"
| "drain_loop W E Wd ((n, ps) # rest) st =
     (let (fin, st1) = drain_one W E Wd n ps st; (ns, st2) = drain_loop W E Wd rest st1
      in ((if fin then [n] else []) @ ns, st2))"

definition drain_pending_spawns :: "wire \<Rightarrow> engine \<Rightarrow> world \<Rightarrow> registry \<Rightarrow> registry" where
  "drain_pending_spawns W E Wd st =
     (if rg_pending st = [] then st
      else let (fin, st1) = drain_loop W E Wd (rg_pending st) st
           in st1\<lparr>rg_pending := fold hm_erase fin (rg_pending st1)\<rparr>)"

definition despawn_spawned :: "net_id \<Rightarrow> registry \<Rightarrow> registry" where
  "despawn_spawned i st =
     core (Despawn i) (st\<lparr>rg_spawned := hs_erase i (rg_spawned st), rg_ids := ids_drop i (rg_ids st)\<rparr>)"

definition despawn_bound :: "net_id \<Rightarrow> registry \<Rightarrow> registry" where
  "despawn_bound i st =
     core (Despawn i) (st\<lparr>rg_bind_ids := hs_erase i (rg_bind_ids st), rg_ids := ids_drop i (rg_ids st)\<rparr>)"

definition gone_ids :: "world \<Rightarrow> net_ids \<Rightarrow> net_id list \<Rightarrow> net_id list" where
  "gone_ids Wd ids is = filter (\<lambda>i. \<not> alive Wd (ids_object ids i)) is"

definition detect_despawns :: "world \<Rightarrow> registry \<Rightarrow> registry" where
  "detect_despawns Wd st =
     (let st1 = fold despawn_spawned (gone_ids Wd (rg_ids st) (rg_spawned st)) st
      in fold despawn_bound (gone_ids Wd (rg_ids st1) (rg_bind_ids st1)) st1)"

subsection \<open>Entities\<close>

definition make_layout :: "engine \<Rightarrow> nat \<Rightarrow> synchronizer \<Rightarrow> sync_data \<Rightarrow> entity_layout" where
  "make_layout E cap sy d =
     \<lparr>el_push = read_push cap sy, el_priority = gn_read_priority E (map_of (sy_meta sy) ''gn_priority''),
      el_slots = length (sd_plan d),
      el_stepped = map (\<lambda>k. if slot_kind_stepped k then 1 else 0) (kinds (sd_coding d)),
      el_kinds_check = check (sd_coding d)\<rparr>"

definition make_sync_data :: "engine \<Rightarrow> nat \<Rightarrow> world \<Rightarrow> objid \<Rightarrow> sync_data" where
  "make_sync_data E cap Wd so =
     (let sy = wd_sync Wd so; plan = cache_slot_plan cap (wd_scene Wd) sy
      in \<lparr>sd_objid = so, sd_plan = plan, sd_coding = make_slot_coding cap (wd_scene Wd) E sy plan\<rparr>)"

definition add_entity :: "engine \<Rightarrow> nat \<Rightarrow> world \<Rightarrow> objid \<Rightarrow> registry \<Rightarrow> bool \<times> registry" where
  "add_entity E cap Wd so st =
     (if sync_from_objid Wd so = None then (True, st)
      else if \<not> wd_in_tree Wd so \<or> \<not> wd_authority Wd so then (False, st)
      else
        let d = make_sync_data E cap Wd so;
            layout = make_layout E cap (wd_sync Wd so) d;
            (i, ids1) = ids_assign so (rg_ids st);
            st1 = st\<lparr>rg_ids := ids1\<rparr>
        in (True,
            if under_spawned Wd st1 so then core (Add_Entity i layout d None) st1
            else (core (Add_Entity i layout d (Some (bind_record E Wd so i True))) st1)
                   \<lparr>rg_bind_ids := hs_insert i (rg_bind_ids st1)\<rparr>))"

fun add_loop :: "engine \<Rightarrow> nat \<Rightarrow> world \<Rightarrow> objid list \<Rightarrow> registry \<Rightarrow> objid list \<times> registry" where
  "add_loop E cap Wd [] st = ([], st)"
| "add_loop E cap Wd (so # sos) st =
     (let (fin, st1) = add_entity E cap Wd so st; (ns, st2) = add_loop E cap Wd sos st1
      in ((if fin then [so] else []) @ ns, st2))"

definition add_entities :: "engine \<Rightarrow> nat \<Rightarrow> world \<Rightarrow> registry \<Rightarrow> registry" where
  "add_entities E cap Wd st =
     (let (fin, st1) = add_loop E cap Wd (rg_to_add st) st
      in st1\<lparr>rg_to_add := fold hs_erase fin (rg_to_add st1)\<rparr>)"

text \<open>\<open>_server_tick\<close>, where the tree has a root to carry the link (\<open>tr\<close>); \<open>_ensure_link\<close> captures
  spawners on the way.\<close>

definition server_tick :: "engine \<Rightarrow> nat \<Rightarrow> world \<Rightarrow> node_tree option \<Rightarrow> u32 \<Rightarrow> registry \<Rightarrow> registry" where
  "server_tick E cap Wd tr now st =
     (if tr = None then st
      else core (Core_Tick now) (add_entities E cap Wd (capture_spawners Wd tr st)))"

text \<open>\<open>hosting\<close>: a peer is set, its id is 1 and it has peers.\<close>

definition send_snapshots ::
  "wire \<Rightarrow> engine \<Rightarrow> nat \<Rightarrow> world \<Rightarrow> node_tree option \<Rightarrow> u32 \<Rightarrow> bool \<Rightarrow> registry \<Rightarrow> registry" where
  "send_snapshots W E cap Wd tr now hosting st =
     (if \<not> hosting then st
      else server_tick E cap Wd tr now (detect_despawns Wd (drain_pending_spawns W E Wd st)))"

subsection \<open>The engine's announcements\<close>

text \<open>\<open>_refresh_interval\<close>, over the owned synchronizers that are alive.\<close>

definition refresh :: "(f64 \<Rightarrow> u64) \<Rightarrow> world \<Rightarrow> registry \<Rightarrow> registry" where
  "refresh edge Wd st =
     (let secs = map (wd_interval Wd) (filter (\<lambda>so. sync_from_objid Wd so \<noteq> None) (rg_owned st));
          (hz, c) = refresh_interval edge secs (rg_cadence st)
      in core (Core_Rate hz) (st\<lparr>rg_cadence := c\<rparr>))"

datatype claim = Claimed | Forwarded \<comment> \<open>to the inner API\<close>

definition config_add ::
  "(f64 \<Rightarrow> u64) \<Rightarrow> world \<Rightarrow> bool \<Rightarrow> objid option \<Rightarrow> objid \<Rightarrow> registry \<Rightarrow> claim \<times> registry" where
  "config_add edge Wd on_server object cfg st =
     (case wd_class Wd cfg of
        Some Spawner_Node \<Rightarrow>
          (Claimed,
           if object \<noteq> None \<and> on_server \<and> \<not> hm_has (rg_spawners st) cfg then wrap_spawner cfg st else st)
      | Some Sync_Node \<Rightarrow>
          if should_intercept (wd_sync Wd cfg)
          then (Claimed, refresh edge Wd (st\<lparr>rg_owned := hs_insert cfg (rg_owned st),
                                            rg_to_add := hs_insert cfg (rg_to_add st)\<rparr>))
          else (Forwarded, st)
      | _ \<Rightarrow> (Forwarded, st))"

definition config_remove :: "(f64 \<Rightarrow> u64) \<Rightarrow> world \<Rightarrow> objid \<Rightarrow> registry \<Rightarrow> claim \<times> registry" where
  "config_remove edge Wd cfg st =
     (case wd_class Wd cfg of
        Some Spawner_Node \<Rightarrow> (Claimed, st)
      | Some Sync_Node \<Rightarrow>
          (let (i, ids1) = ids_release cfg (rg_ids st);
               st1 = st\<lparr>rg_entity := (rg_entity st)\<lparr>ec_codings := hm_erase cfg (ec_codings (rg_entity st))\<rparr>,
                        rg_ids := ids1\<rparr>
           in if cfg \<in> set (rg_owned st) then
                let st2 = st1\<lparr>rg_owned := hs_erase cfg (rg_owned st1), rg_to_add := hs_erase cfg (rg_to_add st1)\<rparr>;
                    st3 = (if i \<noteq> 0
                           then (core (Remove_Entity i) (core (Client_Forget i) st2))
                                  \<lparr>rg_bind_ids := hs_erase i (rg_bind_ids st2)\<rparr>
                           else st2)
                in (Claimed, refresh edge Wd st3)
              else (Forwarded, st1))
      | _ \<Rightarrow> (Forwarded, st))"

definition registry0 :: registry where
  "registry0 =
     \<lparr>rg_ids = net_ids0, rg_owned = [], rg_bind_ids = [], rg_to_add = [], rg_spawners = [],
      rg_spawn_fn = (\<lambda>_. Game_Fn 0), rg_scanned = False, rg_pending = [], rg_spawned = [],
      rg_client_spawned = [], rg_entity = \<lparr>ec_codings = [], ec_warned = []\<rparr>,
      rg_cadence = \<lparr>snapshot_rate_setting = 0, cached_min_interval_us = 33000, last_send_us = 0\<rparr>,
      rg_calls = []\<rparr>"

subsection \<open>Calls and ids\<close>

lemma core_simps [simp]:
  "rg_ids (core c st) = rg_ids st" "rg_owned (core c st) = rg_owned st"
  "rg_bind_ids (core c st) = rg_bind_ids st" "rg_to_add (core c st) = rg_to_add st"
  "rg_spawners (core c st) = rg_spawners st" "rg_spawn_fn (core c st) = rg_spawn_fn st"
  "rg_scanned (core c st) = rg_scanned st" "rg_pending (core c st) = rg_pending st"
  "rg_spawned (core c st) = rg_spawned st" "rg_client_spawned (core c st) = rg_client_spawned st"
  "rg_entity (core c st) = rg_entity st" "rg_cadence (core c st) = rg_cadence st"
  "rg_calls (core c st) = rg_calls st @ [c]"
  by (simp_all add: core_def)

definition ids_ext :: "net_ids \<Rightarrow> net_ids \<Rightarrow> bool" where
  "ids_ext s s' = (\<forall>ob i. hm_get (by_obj s) ob = Some i \<longrightarrow> hm_get (by_obj s') ob = Some i)"

lemma ids_ext_refl [simp]: "ids_ext s s"
  by (simp add: ids_ext_def)

lemma ids_ext_trans: "ids_ext s t \<Longrightarrow> ids_ext t u \<Longrightarrow> ids_ext s u"
  by (simp add: ids_ext_def)

lemma assign_by_obj:
  "hm_get (by_obj (snd (ids_assign ob s))) p = (if p = ob then Some (fst (ids_assign ob s)) else hm_get (by_obj s) p)"
  by (auto simp: ids_assign_def Let_def ids_put_def hm_get_put split: option.splits)

lemma ids_ext_assign [simp]: "ids_ext s (snd (ids_assign ob s))"
  by (auto simp: ids_ext_def assign_by_obj) (simp add: ids_assign_def)

lemma assign_names: "ids_ext (snd (ids_assign ob s)) s' \<Longrightarrow> ids_id s' ob = fst (ids_assign ob s)"
  by (simp add: ids_ext_def ids_id_def assign_by_obj)

lemma name_syncs_spec:
  "name_syncs Wd n owned sys ids = (es, named, ids1) \<Longrightarrow> ids_ext ids1 ids2 \<Longrightarrow>
     ids_ext ids ids1 \<and> es = map (ids_id ids2) sys \<and>
     named = map (\<lambda>sy. \<lparr>ss_net_id = ids_id ids2 sy, ss_path = wd_path_to Wd n sy\<rparr>)
       (filter (\<lambda>sy. sy \<in> set owned) sys)"
proof (induction sys arbitrary: ids es named)
  case (Cons sy sys)
  obtain es' named' where r: "name_syncs Wd n owned sys (snd (ids_assign sy ids)) = (es', named', ids1)"
    using Cons.prems(1) by (auto simp: split_beta prod_eq_iff)
  note IH = Cons.IH [OF r Cons.prems(2)]
  then have "ids_id ids2 sy = fst (ids_assign sy ids)"
    using Cons.prems(2) by (blast intro: assign_names ids_ext_trans)
  then show ?case
    using IH Cons.prems(1) r by (auto simp: split_beta intro: ids_ext_trans [OF ids_ext_assign])
qed simp

lemma spawner_net_id_spec:
  assumes "spawner_net_id E Wd sp st = (i, st1)"
  shows "ids_ext (rg_ids st) (rg_ids st1)" "hm_get (by_obj (rg_ids st1)) sp = Some i"
    "rg_owned st1 = rg_owned st" "rg_spawners st1 = rg_spawners st" "rg_pending st1 = rg_pending st"
    "rg_spawned st1 = rg_spawned st" "rg_to_add st1 = rg_to_add st"
    "rg_calls st1 = rg_calls st @ (if ids_id (rg_ids st) sp = 0 \<and> alive Wd sp
       then [Add_Spawn i (bind_record E Wd sp i False)] else [])"
    "set (rg_bind_ids st1) = set (rg_bind_ids st) \<union> (if ids_id (rg_ids st) sp = 0 \<and> alive Wd sp then {i} else {})"
  using assms
  by (auto simp: spawner_net_id_def Let_def split_beta assign_by_obj ids_id_def split: if_splits option.splits)

text \<open>What a drained spawn adds to the calls, in terms of the ids as they are later on.\<close>

definition spawn_call :: "wire \<Rightarrow> engine \<Rightarrow> world \<Rightarrow> objid hash_set \<Rightarrow> net_ids \<Rightarrow> objid \<Rightarrow> pending_spawn \<Rightarrow> core_call" where
  "spawn_call W E Wd owned ids n ps =
     (let syncs = collect_syncs Wd (wd_tree Wd n)
      in Add_Spawn (ids_id ids n)
           \<lparr>sr_spawner = ids_id ids (ps_spawner ps),
            sr_data = put_spawn_data W E
              (map (\<lambda>sy. \<lparr>ss_net_id = ids_id ids sy, ss_path = wd_path_to Wd n sy\<rparr>)
                (filter (\<lambda>sy. sy \<in> set owned) syncs)) (ps_data ps),
            sr_entities = map (ids_id ids) syncs\<rparr>)"

definition drainable :: "world \<Rightarrow> registry \<Rightarrow> objid \<times> pending_spawn \<Rightarrow> bool" where
  "drainable Wd st item =
     (alive Wd (fst item) \<and> wd_in_tree Wd (fst item) \<and> hm_has (rg_spawners st) (ps_spawner (snd item)))"

lemma drain_one_skips:
  "\<not> drainable Wd st (n, ps) \<Longrightarrow>
     drain_one W E Wd n ps st = (\<not> alive Wd n \<or> wd_in_tree Wd n, st)"
  by (auto simp: drain_one_def drainable_def)

lemma drain_one_spec:
  assumes "drain_one W E Wd n ps st = (fin, st1)" "drainable Wd st (n, ps)" "ids_ext (rg_ids st1) ids"
  shows "fin" "ids_ext (rg_ids st) (rg_ids st1)" "rg_owned st1 = rg_owned st"
    "rg_spawners st1 = rg_spawners st" "rg_pending st1 = rg_pending st" "rg_to_add st1 = rg_to_add st"
    "set (rg_spawned st1) = insert (ids_id ids n) (set (rg_spawned st))"
    "set (rg_bind_ids st1) = set (rg_bind_ids st) \<union>
       (if ids_id (rg_ids st) (ps_spawner ps) = 0 \<and> alive Wd (ps_spawner ps) then {ids_id ids (ps_spawner ps)} else {})"
    "rg_calls st1 = rg_calls st @
       (if ids_id (rg_ids st) (ps_spawner ps) = 0 \<and> alive Wd (ps_spawner ps)
        then [Add_Spawn (ids_id ids (ps_spawner ps))
                (bind_record E Wd (ps_spawner ps) (ids_id ids (ps_spawner ps)) False)] else []) @
       [spawn_call W E Wd (rg_owned st) ids n ps]"
proof -
  obtain sp_id s1 where sp: "spawner_net_id E Wd (ps_spawner ps) st = (sp_id, s1)"
    by (cases "spawner_net_id E Wd (ps_spawner ps) st")
  obtain es named ids1 where ns: "name_syncs Wd n (rg_owned s1) (collect_syncs Wd (wd_tree Wd n)) (rg_ids s1) = (es, named, ids1)"
    by (metis prod_cases3)
  have st1: "fin" "rg_ids st1 = snd (ids_assign n ids1)"
    "st1 = (core (Add_Spawn (fst (ids_assign n ids1))
        \<lparr>sr_spawner = sp_id, sr_data = put_spawn_data W E named (ps_data ps), sr_entities = es\<rparr>)
        (s1\<lparr>rg_ids := snd (ids_assign n ids1)\<rparr>))\<lparr>rg_spawned := hs_insert (fst (ids_assign n ids1)) (rg_spawned s1)\<rparr>"
    using assms(1,2) sp ns by (auto simp: drain_one_def drainable_def split_beta)
  have e1: "ids_ext ids1 ids"
    using ids_ext_trans [OF ids_ext_assign assms(3)[unfolded st1(2)]] by this
  note n2 = name_syncs_spec [OF ns e1] and n1 = name_syncs_spec [OF ns ids_ext_assign [of ids1 n]]
  note s = spawner_net_id_spec [OF sp]
  have i: "fst (ids_assign n ids1) = ids_id ids n"
    by (rule assign_names [symmetric]) (use assms(3) st1(2) in simp)
  have spid: "sp_id = ids_id ids (ps_spawner ps)"
    using s(2) n2 e1 by (auto simp: ids_ext_def ids_id_def)
  show "ids_ext (rg_ids st) (rg_ids st1)"
    using s(1) n1 unfolding st1(2) by (blast intro: ids_ext_trans ids_ext_assign)
  show "fin" "rg_owned st1 = rg_owned st" "rg_spawners st1 = rg_spawners st"
    "rg_pending st1 = rg_pending st" "rg_to_add st1 = rg_to_add st"
    using st1 s by simp_all
  show "set (rg_spawned st1) = insert (ids_id ids n) (set (rg_spawned st))"
    using st1(3) s i by simp
  show "set (rg_bind_ids st1) = set (rg_bind_ids st) \<union>
       (if ids_id (rg_ids st) (ps_spawner ps) = 0 \<and> alive Wd (ps_spawner ps) then {ids_id ids (ps_spawner ps)} else {})"
    using st1(3) s spid by simp
  show "rg_calls st1 = rg_calls st @
       (if ids_id (rg_ids st) (ps_spawner ps) = 0 \<and> alive Wd (ps_spawner ps)
        then [Add_Spawn (ids_id ids (ps_spawner ps))
                (bind_record E Wd (ps_spawner ps) (ids_id ids (ps_spawner ps)) False)] else []) @
       [spawn_call W E Wd (rg_owned st) ids n ps]"
    using st1(3) s spid i n2 by (simp add: spawn_call_def Let_def)
qed

end
