(* ===== verification/Spawn_Capture.thy ===== *)
theory Spawn_Capture
  imports Registry
begin

section \<open>From a spawn to its record\<close>

text \<open>
  What \<open>_drain_pending_spawns\<close> and \<open>_detect_despawns\<close> of \<open>Registry\<close> do, over all the captured spawns
  at once: which ids the records name, in which order they reach the core, and what a freed node takes
  back. Wrapping a spawner is shown to keep the game's own function, however often it is found.
\<close>

subsection \<open>Draining\<close>

lemma name_syncs_other:
  "ob \<notin> set sys \<Longrightarrow> hm_get (by_obj (snd (snd (name_syncs Wd n owned sys ids)))) ob = hm_get (by_obj ids) ob"
  by (induction sys arbitrary: ids) (simp_all add: split_beta assign_by_obj)

text \<open>An object that is no synchronizer is named by a drained spawn only along with a record of its own.\<close>

lemma drain_one_names:
  assumes "drain_one W E Wd n ps st = (fin, st1)" "drainable Wd st (n, ps)"
    and "wd_class Wd ob \<noteq> Some Sync_Node" "alive Wd ob" "ids_id (rg_ids st) ob = 0"
    and "hm_get (by_obj (rg_ids st1)) ob \<noteq> hm_get (by_obj (rg_ids st)) ob"
  shows "\<exists>new rec. rg_calls st1 = rg_calls st @ new \<and> Add_Spawn (ids_id (rg_ids st1) ob) rec \<in> set new"
proof -
  note spec = drain_one_spec [OF assms(1,2) ids_ext_refl]
  have "ob = n \<or> ob = ps_spawner ps"
  proof (rule ccontr)
    have nin: "ob \<notin> set (collect_syncs Wd (wd_tree Wd n))"
      using assms(3) collect_syncs_class by blast
    assume "\<not> ?thesis"
    then have "hm_get (by_obj (rg_ids st1)) ob = hm_get (by_obj (rg_ids st)) ob"
      using assms(1,2)
      by (auto simp: drain_one_def drainable_def split_beta assign_by_obj spawner_net_id_def Let_def
          name_syncs_other [OF nin] split: if_splits)
    then show False using assms(6) by simp
  qed
  then show ?thesis
    using spec(9) assms(4,5) by (auto simp: spawn_call_def Let_def)
qed

lemma drain_loop_spec:
  assumes "drain_loop W E Wd items st = (fin, st1)" "ids_ext (rg_ids st1) ids"
  shows "ids_ext (rg_ids st) (rg_ids st1) \<and> rg_owned st1 = rg_owned st \<and> rg_spawners st1 = rg_spawners st \<and>
    rg_pending st1 = rg_pending st \<and> rg_to_add st1 = rg_to_add st \<and>
    fin = map fst (filter (\<lambda>item. \<not> alive Wd (fst item) \<or> wd_in_tree Wd (fst item)) items) \<and>
    set (rg_spawned st) \<subseteq> set (rg_spawned st1) \<and> (\<exists>more. rg_calls st1 = rg_calls st @ more)"
  using assms
proof (induction items arbitrary: st fin)
  case (Cons item items)
  obtain n ps where item: "item = (n, ps)" by (cases item)
  obtain f s1 where one: "drain_one W E Wd n ps st = (f, s1)" by (cases "drain_one W E Wd n ps st")
  obtain fs where rest: "drain_loop W E Wd items s1 = (fs, st1)" and fin: "fin = (if f then [n] else []) @ fs"
    using Cons.prems(1) item one by (auto simp: split_beta prod_eq_iff)
  note IH = Cons.IH [OF rest Cons.prems(2)]
  show ?case
  proof (cases "drainable Wd st (n, ps)")
    case True
    have "ids_ext (rg_ids s1) ids" using IH Cons.prems(2) by (blast intro: ids_ext_trans)
    note spec = drain_one_spec [OF one True this]
    obtain more where "rg_calls st1 = rg_calls s1 @ more" using IH by blast
    then have "\<exists>m. rg_calls st1 = rg_calls st @ m" by (simp add: spec(9))
    moreover have "ids_ext (rg_ids st) (rg_ids st1)" using IH spec(2) by (blast intro: ids_ext_trans)
    moreover have "set (rg_spawned st) \<subseteq> set (rg_spawned st1)" using IH spec(7) by auto
    ultimately show ?thesis
      using IH fin item True spec by (simp add: drainable_def)
  next
    case False
    then show ?thesis using IH fin item one by (auto simp: drain_one_skips)
  qed
qed simp

lemma drain_loop_calls:
  assumes "drain_loop W E Wd items st = (fin, st1)" "ids_ext (rg_ids st1) ids"
    and "item \<in> set items" "drainable Wd st item"
    and "alive Wd (ps_spawner (snd item))" "wd_class Wd (ps_spawner (snd item)) \<noteq> Some Sync_Node"
  shows "ids_id ids (fst item) \<in> set (rg_spawned st1) \<and>
    (\<exists>pre post. rg_calls st1 = rg_calls st @ pre @ spawn_call W E Wd (rg_owned st) ids (fst item) (snd item) # post \<and>
      (ids_id (rg_ids st) (ps_spawner (snd item)) = 0 \<longrightarrow>
        (\<exists>rec. Add_Spawn (ids_id ids (ps_spawner (snd item))) rec \<in> set pre)))"
  using assms
proof (induction items arbitrary: st fin)
  case (Cons it items)
  obtain n ps where it: "it = (n, ps)" by (cases it)
  obtain f s1 where one: "drain_one W E Wd n ps st = (f, s1)" by (cases "drain_one W E Wd n ps st")
  obtain fs where rest: "drain_loop W E Wd items s1 = (fs, st1)"
    using Cons.prems(1) it one by (auto simp: split_beta prod_eq_iff)
  have e: "ids_ext (rg_ids s1) ids"
    using drain_loop_spec [OF rest Cons.prems(2)] Cons.prems(2) by (blast intro: ids_ext_trans)
  obtain more where more: "rg_calls st1 = rg_calls s1 @ more" and sp: "set (rg_spawned s1) \<subseteq> set (rg_spawned st1)"
    using drain_loop_spec [OF rest Cons.prems(2)] by blast
  show ?case
  proof (cases "drainable Wd st (n, ps)")
    case False
    then have "s1 = st" using one by (simp add: drain_one_skips)
    moreover from False have "item \<in> set items" using Cons.prems(3,4) it by auto
    ultimately show ?thesis using Cons.IH [OF rest] Cons.prems by simp
  next
    case True
    note spec = drain_one_spec [OF one True e]
    show ?thesis
    proof (cases "item = it")
      case True
      then have "rg_calls st1 = rg_calls st @ (if ids_id (rg_ids st) (ps_spawner (snd item)) = 0
           then [Add_Spawn (ids_id ids (ps_spawner ps)) (bind_record E Wd (ps_spawner ps) (ids_id ids (ps_spawner ps)) False)]
           else []) @ spawn_call W E Wd (rg_owned st) ids (fst item) (snd item) # more"
        using spec(9) Cons.prems(5) more it by simp
      moreover have "ids_id ids (fst item) \<in> set (rg_spawned st1)" using True spec(7) sp it by auto
      ultimately show ?thesis using True it by (intro conjI exI) auto
    next
      case False
      have keep: "drainable Wd s1 item" "rg_owned s1 = rg_owned st"
        using Cons.prems(4) spec by (simp_all add: drainable_def)
      obtain pre post where IH: "ids_id ids (fst item) \<in> set (rg_spawned st1)"
        "rg_calls st1 = rg_calls s1 @ pre @ spawn_call W E Wd (rg_owned st) ids (fst item) (snd item) # post"
        "ids_id (rg_ids s1) (ps_spawner (snd item)) = 0 \<Longrightarrow>
          \<exists>rec. Add_Spawn (ids_id ids (ps_spawner (snd item))) rec \<in> set pre"
        using Cons.IH [OF rest Cons.prems(2)] Cons.prems(3,5,6) keep False by auto
      obtain new where new: "rg_calls s1 = rg_calls st @ new" using spec(9) by blast
      have "\<exists>rec. Add_Spawn (ids_id ids (ps_spawner (snd item))) rec \<in> set (new @ pre)"
        if none: "ids_id (rg_ids st) (ps_spawner (snd item)) = 0"
      proof (cases "hm_get (by_obj (rg_ids s1)) (ps_spawner (snd item)) = hm_get (by_obj (rg_ids st)) (ps_spawner (snd item))")
        case True
        then show ?thesis using IH(3) none by (auto simp: ids_id_def)
      next
        case False
        from drain_one_names [OF one \<open>drainable Wd st (n, ps)\<close> Cons.prems(6,5) none False]
        obtain rec where "Add_Spawn (ids_id (rg_ids s1) (ps_spawner (snd item))) rec \<in> set new"
          using new by auto
        moreover have "ids_id ids (ps_spawner (snd item)) = ids_id (rg_ids s1) (ps_spawner (snd item))"
          using False e spec(2)
          by (cases "hm_get (by_obj (rg_ids st)) (ps_spawner (snd item))";
              cases "hm_get (by_obj (rg_ids s1)) (ps_spawner (snd item))")
            (auto simp: ids_ext_def ids_id_def)
        ultimately show ?thesis by auto
      qed
      then show ?thesis using IH new by (intro conjI exI [of _ "new @ pre"] exI [of _ post]) auto
    qed
  qed
qed simp


lemma fold_hm_erase: "hm_get (fold hm_erase ks m) k = (if k \<in> set ks then None else hm_get m k)"
  by (induction ks arbitrary: m) (auto simp: hm_get_erase)

subsection \<open>Despawns\<close>

lemma fold_despawn_spawned:
  "rg_spawned (fold despawn_spawned is st) = filter (\<lambda>i. i \<notin> set is) (rg_spawned st)"
  "rg_bind_ids (fold despawn_spawned is st) = rg_bind_ids st"
  "rg_ids (fold despawn_spawned is st) = fold ids_drop is (rg_ids st)"
  "rg_calls (fold despawn_spawned is st) = rg_calls st @ map Despawn is"
  "rg_owned (fold despawn_spawned is st) = rg_owned st"
  "rg_to_add (fold despawn_spawned is st) = rg_to_add st"
  "rg_pending (fold despawn_spawned is st) = rg_pending st"
  by (induction "is" arbitrary: st) (auto simp: despawn_spawned_def hs_erase_def intro: filter_cong)

lemma fold_despawn_bound:
  "rg_spawned (fold despawn_bound is st) = rg_spawned st"
  "rg_bind_ids (fold despawn_bound is st) = filter (\<lambda>i. i \<notin> set is) (rg_bind_ids st)"
  "rg_ids (fold despawn_bound is st) = fold ids_drop is (rg_ids st)"
  "rg_calls (fold despawn_bound is st) = rg_calls st @ map Despawn is"
  "rg_owned (fold despawn_bound is st) = rg_owned st"
  "rg_to_add (fold despawn_bound is st) = rg_to_add st"
  "rg_pending (fold despawn_bound is st) = rg_pending st"
  by (induction "is" arbitrary: st) (auto simp: despawn_bound_def hs_erase_def intro: filter_cong)

definition id_dead :: "world \<Rightarrow> net_ids \<Rightarrow> net_id \<Rightarrow> bool" where
  "id_dead Wd ids i = (\<not> alive Wd (ids_object ids i))"

lemma object_after_drops:
  "ids_object (fold ids_drop is s) i = (if i \<in> set is then 0 else ids_object s i)"
  by (simp add: ids_object_def drops_by_id)

lemma detect_despawns_spec:
  assumes "world_ok Wd" "st1 = detect_despawns Wd st"
  shows "set (rg_spawned st1) = {i \<in> set (rg_spawned st). \<not> id_dead Wd (rg_ids st) i} \<and>
    set (rg_bind_ids st1) = {i \<in> set (rg_bind_ids st). \<not> id_dead Wd (rg_ids st) i} \<and>
    (\<exists>gone. rg_calls st1 = rg_calls st @ map Despawn gone \<and>
       set gone = {i \<in> set (rg_spawned st) \<union> set (rg_bind_ids st). id_dead Wd (rg_ids st) i} \<and>
       rg_ids st1 = fold ids_drop gone (rg_ids st) \<and> rg_owned st1 = rg_owned st \<and>
       rg_to_add st1 = rg_to_add st \<and> rg_pending st1 = rg_pending st)"
proof -
  let ?g = "gone_ids Wd (rg_ids st) (rg_spawned st)"
  let ?h = "gone_ids Wd (fold ids_drop ?g (rg_ids st)) (rg_bind_ids st)"
  have g: "set ?g = {i \<in> set (rg_spawned st). id_dead Wd (rg_ids st) i}"
    by (auto simp: gone_ids_def id_dead_def)
  have h: "set ?h = {i \<in> set (rg_bind_ids st). id_dead Wd (rg_ids st) i}"
    using assms(1) g by (auto simp: gone_ids_def id_dead_def object_after_drops world_ok_def)
  have st1: "st1 = fold despawn_bound ?h (fold despawn_spawned ?g st)"
    by (simp add: assms(2) detect_despawns_def Let_def fold_despawn_spawned)
  show ?thesis
    using g h by (intro conjI exI [of _ "?g @ ?h"]) (auto simp: st1 fold_despawn_spawned fold_despawn_bound)
qed

subsection \<open>Wrapping\<close>

datatype wrap_op =
    Found_Added world objid
  | Found_Scan world "node_tree option"
  | Found_Announced world bool "objid option" objid

fun wrap_step :: "(f64 \<Rightarrow> u64) \<Rightarrow> registry \<Rightarrow> wrap_op \<Rightarrow> registry" where
  "wrap_step edge st (Found_Added Wd n) = on_node_added Wd n st"
| "wrap_step edge st (Found_Scan Wd tr) = capture_spawners Wd tr st"
| "wrap_step edge st (Found_Announced Wd on_server object cfg) = snd (config_add edge Wd on_server object cfg st)"

definition wrapped_ok :: "(objid \<Rightarrow> callable) \<Rightarrow> registry \<Rightarrow> bool" where
  "wrapped_ok game st =
     (\<forall>sp. (hm_get (rg_spawners st) sp = None \<and> rg_spawn_fn st sp = game sp) \<or>
           (hm_get (rg_spawners st) sp = Some (game sp) \<and> rg_spawn_fn st sp = Trampoline sp))"

lemma wrapped_ok_cong:
  "rg_spawners st1 = rg_spawners st \<Longrightarrow> rg_spawn_fn st1 = rg_spawn_fn st \<Longrightarrow> wrapped_ok game st1 = wrapped_ok game st"
  by (simp add: wrapped_ok_def)

lemma wrapped_ok_wrap: "wrapped_ok game st \<Longrightarrow> wrapped_ok game (wrap_spawner sp st)"
  by (auto simp: wrapped_ok_def wrap_spawner_def hm_get_put hm_has_def)

lemma wrapped_ok_wraps: "wrapped_ok game st \<Longrightarrow> wrapped_ok game (fold wrap_spawner sps st)"
  by (induction sps arbitrary: st) (simp_all add: wrapped_ok_wrap)

lemma wrapped_ok_step: "wrapped_ok game st \<Longrightarrow> wrapped_ok game (wrap_step edge st op)"
  by (cases op)
    (auto simp: on_node_added_def capture_spawners_def config_add_def refresh_def split_beta Let_def
      intro!: wrapped_ok_wrap wrapped_ok_wraps cong: wrapped_ok_cong
      split: option.splits node_class.splits)


interpretation wrap: machine "wrap_step edge" "\<lambda>_ _. True" "wrapped_ok game" for edge game
  by unfold_locales (rule wrapped_ok_step)

subsection \<open>A concrete spawn\<close>

definition demo_spawn_world :: world where
  "demo_spawn_world = world0\<lparr>
     wd_class := (\<lambda>ob. if ob = 50 then Some Spawner_Node else if ob = 60 then Some Plain_Node
                      else if ob = 61 then Some Sync_Node else None),
     wd_sync := (\<lambda>_. demo_sync), wd_up := (\<lambda>ob. if ob = 61 then [61, 60] else [ob]),
     wd_tree := (\<lambda>ob. if ob = 60 then Node_Tree 60 [Node_Tree 61 []] else Node_Tree ob []),
     wd_path := (\<lambda>ob. if ob = 50 then ''/root/S'' else ''/root/N''),
     wd_path_to := (\<lambda>_ ob. if ob = 60 then ''.'' else ''Sync''),
     wd_scene := demo_scene 7 T_INT T_BOOL\<rparr>"

text \<open>A wrapped spawner's spawn, whose node has entered the tree with its synchronizer.\<close>

definition demo_captured :: registry where
  "demo_captured = snd (config_add (\<lambda>_. 0) demo_spawn_world True (Some 60) 61
     (snd (spawn_trampoline (\<lambda>_ _. Some 60) (VInt 3) 50 (wrap_spawner 50 registry0))))"

lemma demo_intercepted: "should_intercept demo_sync"
  by (simp add: should_intercept_def demo_sync_def get_properties_def is_replicated_slot_def demo_prop_def)

lemma demo_captured:
  "rg_pending demo_captured = [(60, \<lparr>ps_spawner = 50, ps_data = VInt 3\<rparr>)]" "rg_owned demo_captured = [61]"
  "rg_to_add demo_captured = [61]" "rg_ids demo_captured = net_ids0"
  "rg_spawners demo_captured = [(50, Game_Fn 0)]" "rg_spawned demo_captured = []"
  "\<exists>hz. rg_calls demo_captured = [Core_Rate hz]"
  by (simp_all add: demo_captured_def config_add_def demo_spawn_world_def demo_intercepted refresh_def
      split_beta Let_def spawn_trampoline_def wrap_spawner_def registry0_def hm_has_def hm_get_def hm_put_def hs_insert_def)

subsection \<open>Properties\<close>

text \<open>C18: a captured spawn reaches the core once its node is in the tree: it is no longer pending, its
  node's id is one of \<open>server_spawned\<close>, and the core is given a record that names, by the ids they have
  from then on, its spawner, every synchronizer below it (to gate it on) and, with their paths from the
  node, those the API owns; a spawner named for the first time is given a record of its own before it.\<close>

theorem spawn_reaches_core:
  assumes "hm_get (rg_pending st) n = Some ps"
    and "alive Wd n" "wd_in_tree Wd n" "hm_has (rg_spawners st) (ps_spawner ps)"
    and "wd_class Wd (ps_spawner ps) = Some Spawner_Node"
    and "st1 = drain_pending_spawns W E Wd st"
  shows "hm_get (rg_pending st1) n = None \<and> ids_id (rg_ids st1) n \<in> set (rg_spawned st1) \<and>
    (\<exists>pre post. rg_calls st1 = rg_calls st @ pre @ spawn_call W E Wd (rg_owned st) (rg_ids st1) n ps # post \<and>
      (if ids_id (rg_ids st) (ps_spawner ps) = 0
       then \<exists>rec. Add_Spawn (ids_id (rg_ids st1) (ps_spawner ps)) rec \<in> set pre else True))"
proof -
  obtain fin s1 where loop: "drain_loop W E Wd (rg_pending st) st = (fin, s1)"
    by (cases "drain_loop W E Wd (rg_pending st) st")
  have ne: "rg_pending st \<noteq> []" using assms(1) by auto
  have st1: "st1 = s1\<lparr>rg_pending := fold hm_erase fin (rg_pending s1)\<rparr>"
    using assms(6) ne loop by (simp add: drain_pending_spawns_def)
  have mem: "(n, ps) \<in> set (rg_pending st)" using assms(1) by (rule hm_get_mem)
  have "drainable Wd st (n, ps)" using assms(2-4) by (simp add: drainable_def)
  from drain_loop_calls [OF loop ids_ext_refl mem this] assms(5)
  obtain pre post where calls: "ids_id (rg_ids s1) n \<in> set (rg_spawned s1)"
    "rg_calls s1 = rg_calls st @ pre @ spawn_call W E Wd (rg_owned st) (rg_ids s1) n ps # post"
    "ids_id (rg_ids st) (ps_spawner ps) = 0 \<Longrightarrow>
        \<exists>rec. Add_Spawn (ids_id (rg_ids s1) (ps_spawner ps)) rec \<in> set pre"
    by (auto simp: alive_def)
  have "n \<in> set fin"
    using drain_loop_spec [OF loop ids_ext_refl] mem assms(3) by force
  then show ?thesis
    using calls by (intro conjI exI [of _ pre] exI [of _ post]) (simp_all add: st1 fold_hm_erase)
qed


lemma spawn_reaches_core_witness:
  "hm_get (rg_pending (drain_pending_spawns demo_wire demo_engine demo_spawn_world demo_captured)) 60 = None"
  using spawn_reaches_core [of demo_captured 60 "\<lparr>ps_spawner = 50, ps_data = VInt 3\<rparr>" demo_spawn_world, OF _ _ _ _ _ refl,
      of demo_wire demo_engine]
  by (simp add: demo_captured hm_get_def hm_has_def alive_def)
    (simp add: demo_spawn_world_def world0_def)

text \<open>C19: a spawner's own function is kept, however its spawner is found: by any mix of nodes added,
  scans of the tree and announcements by the engine, repeated or not, a spawner found has the trampoline
  installed, which calls the function the game had set (never another trampoline) on the data given,
  returns its node, and remembers the node with the data it was built from; one not found is untouched.\<close>

theorem wrapped_once:
  assumes "rg_spawners st = []" "st1 = run (wrap_step edge) st ops"
  shows "if hm_has (rg_spawners st1) sp
    then rg_spawn_fn st1 sp = Trampoline sp \<and>
      fst (spawn_trampoline call_fn data sp st1) = call_fn (rg_spawn_fn st sp) data \<and>
      (case call_fn (rg_spawn_fn st sp) data of
         Some n \<Rightarrow> hm_get (rg_pending (snd (spawn_trampoline call_fn data sp st1))) n =
           Some \<lparr>ps_spawner = sp, ps_data = data\<rparr>
       | None \<Rightarrow> snd (spawn_trampoline call_fn data sp st1) = st1)
    else rg_spawn_fn st1 sp = rg_spawn_fn st sp"
proof -
  have "wrapped_ok (rg_spawn_fn st) st" using assms(1) by (simp add: wrapped_ok_def)
  then have "wrapped_ok (rg_spawn_fn st) st1" unfolding assms(2) by (rule wrap.inv_run) simp
  then have "(hm_get (rg_spawners st1) sp = None \<and> rg_spawn_fn st1 sp = rg_spawn_fn st sp) \<or>
      (hm_get (rg_spawners st1) sp = Some (rg_spawn_fn st sp) \<and> rg_spawn_fn st1 sp = Trampoline sp)"
    by (simp add: wrapped_ok_def)
  then show ?thesis
    by (auto simp: hm_has_def spawn_trampoline_def Let_def split: option.split)
qed

lemma wrapped_once_witness:
  "rg_spawn_fn (run (wrap_step (\<lambda>_. 0)) registry0
     [Found_Added demo_spawn_world 50, Found_Scan demo_spawn_world (Some (Node_Tree 1 [Node_Tree 50 []]))]) 50 =
   Trampoline 50"
proof -
  have "hm_has (rg_spawners (run (wrap_step (\<lambda>_. 0)) registry0
     [Found_Added demo_spawn_world 50, Found_Scan demo_spawn_world (Some (Node_Tree 1 [Node_Tree 50 []]))])) 50"
    by (simp add: on_node_added_def capture_spawners_def wrap_spawner_def hm_has_put demo_spawn_world_def)
  then show ?thesis
    using wrapped_once [of registry0, OF _ refl, of "\<lambda>_. 0"
        "[Found_Added demo_spawn_world 50, Found_Scan demo_spawn_world (Some (Node_Tree 1 [Node_Tree 50 []]))]" 50]
    by (simp only: if_True) (simp add: registry0_def)
qed

text \<open>C20: a freed node is despawned once, and nothing else is: \<open>_detect_despawns\<close> tells the core of
  exactly the spawned and bound ids whose object is gone, takes them off both sets, and drops them and
  no other from the ids.\<close>

theorem despawns_exact:
  assumes "world_ok Wd" "st1 = detect_despawns Wd st"
  shows "set (rg_spawned st1) = {i \<in> set (rg_spawned st). \<not> id_dead Wd (rg_ids st) i} \<and>
    set (rg_bind_ids st1) = {i \<in> set (rg_bind_ids st). \<not> id_dead Wd (rg_ids st) i} \<and>
    (\<exists>gone. rg_calls st1 = rg_calls st @ map Despawn gone \<and>
       set gone = {i \<in> set (rg_spawned st) \<union> set (rg_bind_ids st). id_dead Wd (rg_ids st) i} \<and>
       rg_ids st1 = fold ids_drop gone (rg_ids st))"
  using detect_despawns_spec [OF assms] by blast

lemma despawns_exact_witness:
  "set (rg_spawned (detect_despawns world0 (registry0\<lparr>rg_spawned := [4]\<rparr>))) = {}"
  using despawns_exact [of world0, OF _ refl, of "registry0\<lparr>rg_spawned := [4]\<rparr>"]
  by (simp add: world_ok_def alive_def world0_def id_dead_def)

end
