(* ===== verification/Core_View.thy ===== *)
theory Core_View
  imports Spawn_Capture
begin

section \<open>The core and the scene\<close>

text \<open>
  What goldnet's core has been given over a run of the API's events, and how it follows the synchronizers
  the engine announces and unregisters (\<open>core_follows_scene\<close>). The events compose the operations of
  \<open>Registry\<close> the way the engine calls them; the invariant \<open>follows\<close> is kept by each and lifted to runs by
  the locale \<open>machine\<close>. The last section runs one scene, a spawned node whose synchronizer leaves the tree and
  comes back, for the witnesses here and of \<open>Late_Sync\<close>.
\<close>

subsection \<open>Room for ids\<close>

definition ids_room :: "nat \<Rightarrow> net_ids \<Rightarrow> bool" where
  "ids_room k s = (server_ids s \<and> unat (next_id s) + k < 2 ^ 32)"

lemma ids_room_less: "ids_room k s \<Longrightarrow> j \<le> k \<Longrightarrow> ids_room j s"
  by (simp add: ids_room_def)

lemma ids_room_assign:
  assumes "ids_room (Suc k) s"
  shows "ids_room k (snd (ids_assign ob s))"
proof -
  have "unat (next_id (snd (ids_assign ob s))) \<le> unat (next_id s) + 1"
    using assms
    by (auto simp: ids_room_def ids_assign_def Let_def ids_put_def u32_succ_less split: option.splits)
  then show ?thesis
    using assms server_ids_assign [of s ob] by (simp add: ids_room_def)
qed

lemma ids_room_drops: "ids_room k s \<Longrightarrow> ids_room k (fold ids_drop is s)"
  by (simp add: ids_room_def server_ids_drops)

lemma name_syncs_room:
  "ids_room (length sys + k) ids \<Longrightarrow> ids_room k (snd (snd (name_syncs Wd n owned sys ids)))"
  by (induction sys arbitrary: ids) (simp_all add: split_beta ids_room_assign)

lemma server_ids_inj:
  "server_ids s \<Longrightarrow> hm_get (by_obj s) a = Some i \<Longrightarrow> hm_get (by_obj s) b = Some i \<Longrightarrow> a = b"
  by (auto simp: server_ids_def ids_inv_iff)

lemma server_ids_pos: "server_ids s \<Longrightarrow> hm_get (by_obj s) ob = Some i \<Longrightarrow> 0 < i"
  by (force simp: server_ids_def ids_inv_iff)

lemma server_ids_by_obj_drop:
  "server_ids s \<Longrightarrow> hm_get (by_obj (ids_drop i s)) ob =
     (if hm_get (by_obj s) ob = Some i then None else hm_get (by_obj s) ob)"
  by (simp add: server_ids_def ids_drop_by_obj)

subsection \<open>What the core has been given and not told to take back\<close>

fun core_step :: "net_id set \<Rightarrow> core_call \<Rightarrow> net_id set" where
  "core_step A (Add_Entity i layout d rec) = insert i A"
| "core_step A (Remove_Entity i) = A - {i}"
| "core_step A (Despawn i) = A - {i}"
| "core_step A _ = A"

definition core_entities :: "core_call list \<Rightarrow> net_id set" where
  "core_entities calls = foldl core_step {} calls"

lemma core_entities_append: "core_entities (xs @ ys) = foldl core_step (core_entities xs) ys"
  by (simp add: core_entities_def)

lemma core_entities_despawns: "foldl core_step A (map Despawn is) = A - set is"
  by (induction "is" arbitrary: A) auto

lemma core_entities_spawns: "\<forall>c \<in> set cs. \<exists>i rec. c = Add_Spawn i rec \<Longrightarrow> foldl core_step A cs = A"
  by (induction cs arbitrary: A) auto

text \<open>Every id the core holds is the id of a synchronizer the API owns.\<close>

definition core_ok :: "registry \<Rightarrow> bool" where
  "core_ok st =
     (set (rg_to_add st) \<subseteq> set (rg_owned st) \<and>
      (\<forall>i \<in> core_entities (rg_calls st). \<exists>so \<in> set (rg_owned st). hm_get (by_obj (rg_ids st)) so = Some i))"

definition in_core :: "registry \<Rightarrow> objid \<Rightarrow> bool" where
  "in_core st so = (\<exists>i. hm_get (by_obj (rg_ids st)) so = Some i \<and> i \<in> core_entities (rg_calls st))"

lemma in_core_mono:
  "in_core st so \<Longrightarrow> ids_ext (rg_ids st) (rg_ids st1) \<Longrightarrow>
     core_entities (rg_calls st) \<subseteq> core_entities (rg_calls st1) \<Longrightarrow> in_core st1 so"
  by (auto simp: in_core_def ids_ext_def)

subsection \<open>Adding entities\<close>

lemma add_entity_spec:
  assumes "add_entity E cap Wd so st = (fin, st1)" "so \<in> set (rg_owned st)" "core_ok st"
  shows "core_ok st1 \<and> rg_owned st1 = rg_owned st \<and> rg_to_add st1 = rg_to_add st \<and>
    ids_ext (rg_ids st) (rg_ids st1) \<and> core_entities (rg_calls st) \<subseteq> core_entities (rg_calls st1) \<and>
    (fin \<and> wd_class Wd so = Some Sync_Node \<longrightarrow> in_core st1 so) \<and>
    (ids_room (Suc k) (rg_ids st) \<longrightarrow> ids_room k (rg_ids st1))"
proof (cases "sync_from_objid Wd so = None \<or> \<not> wd_in_tree Wd so \<or> \<not> wd_authority Wd so")
  case True
  then show ?thesis
    using assms by (auto simp: add_entity_def sync_from_objid_def ids_room_def split: if_splits)
next
  case False
  then have ids: "rg_ids st1 = snd (ids_assign so (rg_ids st))"
    and calls: "\<exists>layout d rec. rg_calls st1 = rg_calls st @ [Add_Entity (fst (ids_assign so (rg_ids st))) layout d rec]"
    and same: "rg_owned st1 = rg_owned st" "rg_to_add st1 = rg_to_add st"
    using assms(1) by (auto simp: add_entity_def Let_def split_beta split: if_splits)
  have ents: "core_entities (rg_calls st1) = insert (fst (ids_assign so (rg_ids st))) (core_entities (rg_calls st))"
    using calls by (auto simp: core_entities_append)
  have ext: "ids_ext (rg_ids st) (rg_ids st1)" by (simp add: ids)
  have "hm_get (by_obj (rg_ids st1)) so = Some (fst (ids_assign so (rg_ids st)))"
    by (simp add: ids assign_by_obj)
  moreover from this have "core_ok st1"
    using assms(2,3) ext unfolding core_ok_def ents same ids_ext_def by blast
  ultimately show ?thesis
    using ext by (auto simp: ents same in_core_def ids ids_room_assign)
qed

lemma add_loop_spec:
  assumes "add_loop E cap Wd sos st = (fins, st1)" "set sos \<subseteq> set (rg_owned st)" "core_ok st"
  shows "core_ok st1 \<and> rg_owned st1 = rg_owned st \<and> rg_to_add st1 = rg_to_add st \<and>
    ids_ext (rg_ids st) (rg_ids st1) \<and> core_entities (rg_calls st) \<subseteq> core_entities (rg_calls st1) \<and>
    (\<forall>so \<in> set fins. wd_class Wd so = Some Sync_Node \<longrightarrow> in_core st1 so) \<and>
    (ids_room (length sos + k) (rg_ids st) \<longrightarrow> ids_room k (rg_ids st1))"
  using assms
proof (induction sos arbitrary: st fins)
  case (Cons so sos)
  obtain f s1 where one: "add_entity E cap Wd so st = (f, s1)" by (cases "add_entity E cap Wd so st")
  obtain fs where rest: "add_loop E cap Wd sos s1 = (fs, st1)" and fins: "fins = (if f then [so] else []) @ fs"
    using Cons.prems(1) one by (auto simp: split_beta prod_eq_iff)
  have so: "so \<in> set (rg_owned st)" using Cons.prems(2) by simp
  note A = add_entity_spec [OF one so Cons.prems(3)]
  have "set sos \<subseteq> set (rg_owned s1)" using A Cons.prems(2) by simp
  note B = Cons.IH [OF rest this] 
  have "in_core st1 so" if "in_core s1 so"
    using that in_core_mono [of s1 so st1] A B by blast
  then show ?case
    using A [of "length sos + k"] B fins by (auto intro: ids_ext_trans)
qed (simp add: core_ok_def)


subsection \<open>Draining and despawning\<close>

definition ids_needed :: "world \<Rightarrow> (objid \<times> pending_spawn) list \<Rightarrow> nat" where
  "ids_needed Wd items = sum_list (map (\<lambda>item. length (collect_syncs Wd (wd_tree Wd (fst item))) + 2) items)"

lemma drain_one_room:
  assumes "drain_one W E Wd n ps st = (fin, st1)" "ids_room (length (collect_syncs Wd (wd_tree Wd n)) + 2 + k) (rg_ids st)"
  shows "ids_room k (rg_ids st1)"
proof (cases "drainable Wd st (n, ps)")
  case False
  then show ?thesis using assms by (auto simp: drain_one_skips intro: ids_room_less)
next
  case True
  obtain sp_id s1 where sp: "spawner_net_id E Wd (ps_spawner ps) st = (sp_id, s1)"
    by (cases "spawner_net_id E Wd (ps_spawner ps) st")
  have "ids_room (length (collect_syncs Wd (wd_tree Wd n)) + Suc k) (rg_ids s1)"
  proof (cases "ids_id (rg_ids st) (ps_spawner ps) = 0")
    case True
    then have "rg_ids s1 = snd (ids_assign (ps_spawner ps) (rg_ids st))"
      using sp by (auto simp: spawner_net_id_def Let_def split_beta)
    then show ?thesis using assms(2) by (simp add: ids_room_assign)
  next
    case False
    then have "s1 = st" using sp by (simp add: spawner_net_id_def)
    then show ?thesis using assms(2) by (auto intro: ids_room_less)
  qed
  from name_syncs_room [OF this] have "ids_room (Suc k)
      (snd (snd (name_syncs Wd n (rg_owned s1) (collect_syncs Wd (wd_tree Wd n)) (rg_ids s1))))" .
  then show ?thesis
    using assms(1) True sp by (auto simp: drain_one_def drainable_def split_beta ids_room_assign)
qed

lemma drain_one_core:
  assumes "drain_one W E Wd n ps st = (fin, st1)"
  shows "ids_ext (rg_ids st) (rg_ids st1) \<and> rg_owned st1 = rg_owned st \<and> rg_to_add st1 = rg_to_add st \<and>
    core_entities (rg_calls st1) = core_entities (rg_calls st)"
proof (cases "drainable Wd st (n, ps)")
  case True
  from drain_one_spec [OF assms True ids_ext_refl] show ?thesis
    by (simp add: core_entities_append core_entities_spawns spawn_call_def Let_def)
next
  case False
  then show ?thesis using assms by (simp add: drain_one_skips)
qed

lemma drain_loop_core:
  assumes "drain_loop W E Wd items st = (fins, st1)"
  shows "ids_ext (rg_ids st) (rg_ids st1) \<and> rg_owned st1 = rg_owned st \<and> rg_to_add st1 = rg_to_add st \<and>
    core_entities (rg_calls st1) = core_entities (rg_calls st) \<and>
    (ids_room (ids_needed Wd items + k) (rg_ids st) \<longrightarrow> ids_room k (rg_ids st1))"
  using assms
proof (induction items arbitrary: st fins)
  case (Cons item items)
  obtain n ps where item: "item = (n, ps)" by (cases item)
  obtain f s1 where one: "drain_one W E Wd n ps st = (f, s1)" by (cases "drain_one W E Wd n ps st")
  obtain fs where rest: "drain_loop W E Wd items s1 = (fs, st1)"
    using Cons.prems(1) item one by (auto simp: split_beta prod_eq_iff)
  have "ids_room (ids_needed Wd (item # items) + k) (rg_ids st) \<Longrightarrow> ids_room (ids_needed Wd items + k) (rg_ids s1)"
    using drain_one_room [OF one, of "ids_needed Wd items + k"] by (simp add: ids_needed_def item add.assoc)
  then show ?case
    using drain_one_core [OF one] Cons.IH [OF rest] by (auto intro: ids_ext_trans)
qed (simp add: ids_needed_def)

lemma core_ok_ext:
  "core_ok st \<Longrightarrow> ids_ext (rg_ids st) (rg_ids st1) \<Longrightarrow> rg_owned st1 = rg_owned st \<Longrightarrow>
     rg_to_add st1 = rg_to_add st \<Longrightarrow> core_entities (rg_calls st1) = core_entities (rg_calls st) \<Longrightarrow> core_ok st1"
  unfolding core_ok_def ids_ext_def by metis

text \<open>Dropping ids takes out of the core what it takes from the ids; one that names something else stays.\<close>

lemma drops_by_obj:
  "server_ids s \<Longrightarrow> hm_get (by_obj (fold ids_drop is s)) ob =
     (case hm_get (by_obj s) ob of Some i \<Rightarrow> if i \<in> set is then None else Some i | None \<Rightarrow> None)"
  by (induction "is" arbitrary: s)
    (auto simp: server_ids_by_obj_drop server_ids_drop split: option.split)

lemma core_ok_drops:
  assumes "core_ok st" "server_ids (rg_ids st)" "rg_ids st1 = fold ids_drop gone (rg_ids st)"
    and "core_entities (rg_calls st1) = core_entities (rg_calls st) - set gone"
    and "rg_owned st1 = rg_owned st" "rg_to_add st1 = rg_to_add st"
  shows "core_ok st1"
  unfolding core_ok_def
proof (intro conjI ballI)
  show "set (rg_to_add st1) \<subseteq> set (rg_owned st1)" using assms(1,5,6) by (simp add: core_ok_def)
  fix i assume "i \<in> core_entities (rg_calls st1)"
  then have i: "i \<in> core_entities (rg_calls st)" "i \<notin> set gone" using assms(4) by auto
  then obtain so where "so \<in> set (rg_owned st)" "hm_get (by_obj (rg_ids st)) so = Some i"
    using assms(1) unfolding core_ok_def by blast
  then show "\<exists>so\<in>set (rg_owned st1). hm_get (by_obj (rg_ids st1)) so = Some i"
    using i(2) by (intro bexI [of _ so]) (simp_all add: assms(3,5) drops_by_obj [OF assms(2)])
qed


subsection \<open>One event\<close>

datatype registry_event =
    Found wrap_op
  | Captured "objid option" variant objid
  | Unregistered world objid
  | Polled world
  | Ticked world "node_tree option" u32

fun registry_step ::
  "wire \<Rightarrow> engine \<Rightarrow> nat \<Rightarrow> (f64 \<Rightarrow> u64) \<Rightarrow> registry \<Rightarrow> registry_event \<Rightarrow> registry" where
  "registry_step W E cap edge st (Found op) = wrap_step edge st op"
| "registry_step W E cap edge st (Captured node data sp) = snd (spawn_trampoline (\<lambda>_ _. node) data sp st)"
| "registry_step W E cap edge st (Unregistered Wd cfg) = snd (config_remove edge Wd cfg st)"
| "registry_step W E cap edge st (Polled Wd) = detect_despawns Wd (drain_pending_spawns W E Wd st)"
| "registry_step W E cap edge st (Ticked Wd tr now) = send_snapshots W E cap Wd tr now True st"

text \<open>What the events of a run rely on: the counter of ids has not wrapped, and an owned synchronizer is
  alive until the engine unregisters it.\<close>

fun event_room :: "objid \<Rightarrow> registry \<Rightarrow> registry_event \<Rightarrow> bool" where
  "event_room so st (Polled Wd) =
     (world_ok Wd \<and> unat (next_id (rg_ids st)) + ids_needed Wd (rg_pending st) < 2 ^ 32 \<and>
      (so \<in> set (rg_owned st) \<longrightarrow> wd_class Wd so = Some Sync_Node))"
| "event_room so st (Ticked Wd tr now) =
     (world_ok Wd \<and>
      unat (next_id (rg_ids st)) + ids_needed Wd (rg_pending st) + length (rg_to_add st) < 2 ^ 32 \<and>
      (so \<in> set (rg_owned st) \<longrightarrow> wd_class Wd so = Some Sync_Node))"
| "event_room so st _ = True"

definition follows :: "objid \<Rightarrow> registry \<Rightarrow> bool" where
  "follows so st =
     (ids_room 0 (rg_ids st) \<and> core_ok st \<and>
      (so \<in> set (rg_owned st) \<longrightarrow> so \<in> set (rg_to_add st) \<or> in_core st so))"

lemma follows_cong:
  "rg_ids st1 = rg_ids st \<Longrightarrow> rg_owned st1 = rg_owned st \<Longrightarrow> rg_to_add st1 = rg_to_add st \<Longrightarrow>
     core_entities (rg_calls st1) = core_entities (rg_calls st) \<Longrightarrow> follows so st1 = follows so st"
  by (simp add: follows_def core_ok_def in_core_def)

lemma follows_core [simp]:
  "follows so (core (Core_Rate hz) st) = follows so st" "follows so (core (Core_Tick now) st) = follows so st"
  by (rule follows_cong; simp add: core_entities_append)+

lemma follows_wrap [simp]: "follows so (wrap_spawner sp st) = follows so st"
  by (rule follows_cong) (simp_all add: wrap_spawner_def)

lemma follows_wraps [simp]: "follows so (fold wrap_spawner sps st) = follows so st"
  by (induction sps arbitrary: st) simp_all

lemma follows_fields [simp]:
  "follows so (st\<lparr>rg_scanned := b\<rparr>) = follows so st" "follows so (st\<lparr>rg_pending := p\<rparr>) = follows so st"
  "follows so (st\<lparr>rg_cadence := c\<rparr>) = follows so st" "follows so (st\<lparr>rg_bind_ids := bi\<rparr>) = follows so st"
  by (rule follows_cong; simp)+

lemma follows_capture [simp]: "follows so (capture_spawners Wd tr st) = follows so st"
  by (simp add: capture_spawners_def split: option.split)

lemma follows_refresh [simp]: "follows so (refresh edge Wd st) = follows so st"
  by (simp add: refresh_def Let_def split_beta)

lemma follows_found: "follows so st \<Longrightarrow> follows so (wrap_step edge st op)"
proof (cases op)
  case (Found_Announced Wd on_server object cfg)
  assume "follows so st"
  moreover from this have "follows so (st\<lparr>rg_owned := hs_insert cfg (rg_owned st), rg_to_add := hs_insert cfg (rg_to_add st)\<rparr>)"
    unfolding follows_def core_ok_def in_core_def by auto
  ultimately show ?thesis
    by (simp add: Found_Announced config_add_def split: option.split node_class.split)
qed (auto simp: on_node_added_def)

lemma follows_drain:
  assumes "follows so st" "ids_room (ids_needed Wd (rg_pending st) + k) (rg_ids st)"
  shows "follows so (drain_pending_spawns W E Wd st) \<and> ids_room k (rg_ids (drain_pending_spawns W E Wd st)) \<and>
    rg_to_add (drain_pending_spawns W E Wd st) = rg_to_add st \<and>
    rg_owned (drain_pending_spawns W E Wd st) = rg_owned st"
proof (cases "rg_pending st = []")
  case True
  then show ?thesis using assms by (simp add: drain_pending_spawns_def ids_needed_def)
next
  case False
  obtain fins s1 where loop: "drain_loop W E Wd (rg_pending st) st = (fins, s1)"
    by (cases "drain_loop W E Wd (rg_pending st) st")
  note D = drain_loop_core [OF loop]
  have room: "ids_room k (rg_ids s1)" using D assms(2) by simp
  have "core_ok s1" using D assms(1) by (intro core_ok_ext [of st s1]) (simp_all add: follows_def)
  moreover have "in_core st so \<Longrightarrow> in_core s1 so" using D by (intro in_core_mono [of st so s1]) simp_all
  ultimately have "follows so s1" using assms(1) D room ids_room_less [of k "rg_ids s1" 0] by (auto simp: follows_def)
  then show ?thesis using False loop D room by (simp add: drain_pending_spawns_def)
qed

lemma follows_detect:
  assumes "follows so st" "world_ok Wd" "so \<in> set (rg_owned st) \<Longrightarrow> wd_class Wd so = Some Sync_Node" "ids_room k (rg_ids st)"
  shows "follows so (detect_despawns Wd st) \<and> ids_room k (rg_ids (detect_despawns Wd st)) \<and>
    rg_to_add (detect_despawns Wd st) = rg_to_add st \<and> rg_owned (detect_despawns Wd st) = rg_owned st"
proof -
  let ?s = "detect_despawns Wd st"
  obtain gone where g: "rg_calls ?s = rg_calls st @ map Despawn gone"
    "set gone = {i \<in> set (rg_spawned st) \<union> set (rg_bind_ids st). id_dead Wd (rg_ids st) i}"
    "rg_ids ?s = fold ids_drop gone (rg_ids st)" "rg_owned ?s = rg_owned st" "rg_to_add ?s = rg_to_add st"
    using detect_despawns_spec [OF assms(2) refl, of st] by blast
  have sv: "server_ids (rg_ids st)" using assms(1) by (simp add: follows_def ids_room_def)
  have ents: "core_entities (rg_calls ?s) = core_entities (rg_calls st) - set gone"
    by (simp add: g core_entities_append core_entities_despawns)
  have ok: "core_ok ?s"
    using assms(1) by (intro core_ok_drops [OF _ sv g(3) ents g(4,5)]) (simp add: follows_def)
  have "in_core ?s so" if core: "in_core st so" and own: "so \<in> set (rg_owned st)"
  proof -
    obtain i where i: "hm_get (by_obj (rg_ids st)) so = Some i" "i \<in> core_entities (rg_calls st)"
      using core unfolding in_core_def by blast
    have "ids_object (rg_ids st) i = so" using sv i(1) by (intro ids_object_id) (simp_all add: server_ids_def)
    then have "i \<notin> set gone" using assms(3) own by (simp add: g(2) id_dead_def alive_def)
    then show ?thesis using i by (auto simp: in_core_def ents g(3) drops_by_obj [OF sv])
  qed
  then show ?thesis
    using assms(1,4) ok g by (auto simp: follows_def ids_room_drops)
qed

lemma follows_add:
  assumes "follows so st" "ids_room (length (rg_to_add st)) (rg_ids st)"
    and "so \<in> set (rg_owned st) \<Longrightarrow> wd_class Wd so = Some Sync_Node"
  shows "follows so (add_entities E cap Wd st)"
proof -
  obtain fins s1 where loop: "add_loop E cap Wd (rg_to_add st) st = (fins, s1)"
    by (cases "add_loop E cap Wd (rg_to_add st) st")
  have "set (rg_to_add st) \<subseteq> set (rg_owned st)" "core_ok st" using assms(1) by (simp_all add: follows_def core_ok_def)
  note A = add_loop_spec [OF loop this]
  have erase: "set (fold hs_erase fins xs) = set xs - set fins" for xs :: "objid list"
    by (induction fins arbitrary: xs) auto
  have "in_core s1 so" if "in_core st so" using that A in_core_mono [of st so s1] by blast
  then show ?thesis
    using assms A [of 0] loop
    by (auto simp: add_entities_def follows_def core_ok_def erase in_core_def)
qed

lemma follows_unregister:
  assumes "follows so st"
  shows "follows so (snd (config_remove edge Wd cfg st))"
proof -
  let ?i = "ids_id (rg_ids st) cfg"
  have sv: "server_ids (rg_ids st)" and ok: "core_ok st" using assms by (simp_all add: follows_def ids_room_def)
  have key: "follows so st1"
    if ids: "rg_ids st1 = ids_drop ?i (rg_ids st)" and own: "set (rg_owned st1) = set (rg_owned st) - {cfg}"
      and add: "set (rg_to_add st1) = set (rg_to_add st) - {cfg}"
      and ents: "core_entities (rg_calls st1) = core_entities (rg_calls st) - {?i}" for st1
  proof -
    have keep: "hm_get (by_obj (rg_ids st1)) ob = Some j"
      if "hm_get (by_obj (rg_ids st)) ob = Some j" "j \<noteq> ?i" for ob j
      using that by (simp add: ids server_ids_by_obj_drop [OF sv])
    have other: "ob \<noteq> cfg" if "hm_get (by_obj (rg_ids st)) ob = Some j" "j \<noteq> ?i" for ob j
      using that by (auto simp: ids_id_def)
    have apart: "j \<noteq> ?i" if "hm_get (by_obj (rg_ids st)) so = Some j" "so \<noteq> cfg" for j
    proof
      assume j: "j = ?i"
      then have "0 < ?i" using that(1) server_ids_pos [OF sv] by blast
      then have "hm_get (by_obj (rg_ids st)) cfg = Some ?i" by (simp add: ids_id_def split: option.splits)
      then show False using that j server_ids_inj [OF sv] by blast
    qed
    have "core_ok st1"
      unfolding core_ok_def
    proof (intro conjI ballI)
      show "set (rg_to_add st1) \<subseteq> set (rg_owned st1)" using ok own add by (auto simp: core_ok_def)
      fix j assume "j \<in> core_entities (rg_calls st1)"
      then have j: "j \<in> core_entities (rg_calls st)" "j \<noteq> ?i" using ents by auto
      then obtain ob where "ob \<in> set (rg_owned st)" "hm_get (by_obj (rg_ids st)) ob = Some j"
        using ok unfolding core_ok_def by blast
      then show "\<exists>ob\<in>set (rg_owned st1). hm_get (by_obj (rg_ids st1)) ob = Some j"
        using keep other own j(2) by blast
    qed
    moreover have "in_core st1 so" if "in_core st so" "so \<noteq> cfg"
      using that keep apart unfolding in_core_def ents by blast
    ultimately show ?thesis
      using assms own add by (auto simp: follows_def ids ids_room_def server_ids_drop)
  qed
  show ?thesis
  proof (cases "wd_class Wd cfg = Some Sync_Node \<and> cfg \<in> set (rg_owned st)")
    case True
    have "0 \<notin> core_entities (rg_calls st)"
      using ok server_ids_pos [OF sv, where i = 0] unfolding core_ok_def by blast
    then have zero: "core_entities (rg_calls st) - {0} = core_entities (rg_calls st)" by simp
    show ?thesis
    proof (cases "?i = 0")
      case i: True
      show ?thesis
        by (simp add: config_remove_def ids_release_eq Let_def True i) (rule key; simp add: i zero)
    next
      case i: False
      show ?thesis
        by (simp add: config_remove_def ids_release_eq Let_def True i)
          (rule key; simp add: core_entities_append)
    qed
  next
    case False
    have "?i \<notin> core_entities (rg_calls st)" if "cfg \<notin> set (rg_owned st)"
    proof
      assume "?i \<in> core_entities (rg_calls st)"
      then obtain ob where ob: "ob \<in> set (rg_owned st)" "hm_get (by_obj (rg_ids st)) ob = Some ?i"
        using ok unfolding core_ok_def by blast
      then have "0 < ?i" using server_ids_pos [OF sv] by blast
      then have "hm_get (by_obj (rg_ids st)) cfg = Some ?i" by (simp add: ids_id_def split: option.splits)
      then show False using ob that server_ids_inj [OF sv] by blast
    qed
    moreover have "cfg \<notin> set (rg_to_add st)" if "cfg \<notin> set (rg_owned st)"
      using that ok by (auto simp: core_ok_def)
    ultimately have out: "follows so (st\<lparr>rg_entity := e, rg_ids := ids_drop ?i (rg_ids st)\<rparr>)"
      if "cfg \<notin> set (rg_owned st)" for e
      using that by (intro key) simp_all
    show ?thesis
      using False assms
      by (simp add: config_remove_def ids_release_eq Let_def out split: option.split node_class.split)
  qed
qed

lemma follows_step: "follows so st \<Longrightarrow> event_room so st ev \<Longrightarrow> follows so (registry_step W E cap edge st ev)"
proof (cases ev)
  case (Polled Wd)
  assume *: "follows so st" "event_room so st ev"
  let ?d = "drain_pending_spawns W E Wd st"
  have D: "follows so ?d \<and> ids_room 0 (rg_ids ?d) \<and> rg_to_add ?d = rg_to_add st \<and> rg_owned ?d = rg_owned st"
    using * Polled by (intro follows_drain) (simp_all add: follows_def ids_room_def)
  have "follows so (detect_despawns Wd ?d)"
    using * Polled D follows_detect [of so ?d Wd 0] by simp
  then show ?thesis by (simp add: Polled)
next
  case (Ticked Wd tr now)
  assume *: "follows so st" "event_room so st ev"
  let ?d = "drain_pending_spawns W E Wd st" and ?k = "length (rg_to_add st)"
  have D: "follows so ?d \<and> ids_room ?k (rg_ids ?d) \<and> rg_to_add ?d = rg_to_add st \<and> rg_owned ?d = rg_owned st"
    using * Ticked by (intro follows_drain) (simp_all add: follows_def ids_room_def)
  let ?e = "detect_despawns Wd ?d"
  have F: "follows so ?e \<and> ids_room ?k (rg_ids ?e) \<and> rg_to_add ?e = rg_to_add ?d \<and> rg_owned ?e = rg_owned ?d"
    using * Ticked D by (intro follows_detect) simp_all
  have cap: "rg_ids (capture_spawners Wd tr s) = rg_ids s \<and> rg_to_add (capture_spawners Wd tr s) = rg_to_add s \<and>
      rg_owned (capture_spawners Wd tr s) = rg_owned s" for s
  proof -
    have "rg_ids (fold wrap_spawner sps s) = rg_ids s \<and> rg_to_add (fold wrap_spawner sps s) = rg_to_add s \<and>
        rg_owned (fold wrap_spawner sps s) = rg_owned s" for sps s
      by (induction sps arbitrary: s) (simp_all add: wrap_spawner_def)
    then show ?thesis by (simp add: capture_spawners_def split: option.split)
  qed
  show ?thesis
    using * Ticked D F follows_add [of so "capture_spawners Wd tr ?e" Wd E cap]
    by (simp add: send_snapshots_def server_tick_def cap)
next
  case (Captured node data sp)
  assume "follows so st"
  then show ?thesis by (simp add: Captured spawn_trampoline_def Let_def split: option.split)
qed (simp_all add: follows_found follows_unregister)

interpretation registry: machine "registry_step W E cap edge" "event_room so" "follows so" for W E cap edge so
  by unfold_locales (rule follows_step)

lemma follows0: "follows so registry0"
  using server_ids0
  by (simp add: follows_def registry0_def core_ok_def ids_room_def core_entities_def) (simp add: net_ids0_def)

text \<open>Whether a call tells the peers which node an id names.\<close>

fun tells :: "wire \<Rightarrow> engine \<Rightarrow> net_id \<Rightarrow> core_call \<Rightarrow> bool" where
  "tells W E i (Add_Spawn j rec) =
     (i = j \<or> (sr_spawner rec \<noteq> BIND_SPAWNER \<and>
        (case get_spawn_data W E (sr_data rec) of
           None \<Rightarrow> False
         | Some (syncs, v) \<Rightarrow> i \<in> set (map ss_net_id syncs))))"
| "tells W E i (Add_Entity j layout d (Some rec)) = (i = j)"
| "tells W E i _ = False"


subsection \<open>A synchronizer that leaves and comes back\<close>

text \<open>The spawn of \<open>demo_captured\<close>, ticked; then its synchronizer leaves the tree and comes back (the
  game reparents it within the spawned node, say).\<close>

definition demo_spawn_events :: "registry_event list" where
  "demo_spawn_events =
     [Found (Found_Added demo_spawn_world 50), Captured (Some 60) VNil 50,
      Found (Found_Announced demo_spawn_world True (Some 60) 61)]"

definition demo_back_events :: "registry_event list" where
  "demo_back_events =
     [Unregistered demo_spawn_world 61, Found (Found_Announced demo_spawn_world True (Some 60) 61)]"

abbreviation demo_tick :: registry_event where
  "demo_tick \<equiv> Ticked demo_spawn_world (Some (Node_Tree 1 [])) 0"

definition demo_step :: "registry \<Rightarrow> registry_event \<Rightarrow> registry" where
  "demo_step = registry_step demo_wire demo_engine 32 (\<lambda>_. 0)"

lemma demo_spawn_world:
  "wd_class demo_spawn_world 50 = Some Spawner_Node" "wd_class demo_spawn_world 60 = Some Plain_Node"
  "wd_class demo_spawn_world 61 = Some Sync_Node" "wd_class demo_spawn_world 0 = None"
  "wd_in_tree demo_spawn_world ob" "wd_authority demo_spawn_world ob"
  "wd_sync demo_spawn_world ob = demo_sync" "wd_up demo_spawn_world 61 = [61, 60]"
  "wd_tree demo_spawn_world 60 = Node_Tree 60 [Node_Tree 61 []]" "wd_path_to demo_spawn_world a 61 = ''Sync''"
  "wd_path demo_spawn_world 50 = ''/root/S''"
  by (simp_all add: demo_spawn_world_def world0_def)

lemma demo_spawned:
  assumes "st = run demo_step registry0 demo_spawn_events"
  shows "rg_pending st = [(60, \<lparr>ps_spawner = 50, ps_data = VNil\<rparr>)]" "rg_owned st = [61]"
    "rg_to_add st = [61]" "rg_ids st = net_ids0" "rg_bind_ids st = []" "\<not> rg_scanned st"
    "rg_spawners st = [(50, Game_Fn 0)]" "rg_spawned st = []" "\<exists>hz. rg_calls st = [Core_Rate hz]"
  unfolding assms
  by (simp_all add: demo_step_def demo_spawn_events_def registry_step.simps wrap_step.simps on_node_added_def
      config_add_def demo_spawn_world demo_intercepted split_beta Let_def registry0_def spawn_trampoline_def
      wrap_spawner_def refresh_def hs_insert_def hm_has_def hm_get_def hm_put_def)

definition demo_ids :: "net_ids" where
  "demo_ids =
     \<lparr>by_id = [(1, \<lparr>e_obj = 50, e_learned = False\<rparr>), (2, \<lparr>e_obj = 61, e_learned = False\<rparr>),
               (3, \<lparr>e_obj = 60, e_learned = False\<rparr>)],
      by_obj = [(50, 1), (61, 2), (60, 3)], next_id = 4\<rparr>"

definition demo_spawn_record :: spawn_record where
  "demo_spawn_record =
     \<lparr>sr_spawner = 1, sr_data = put_spawn_data demo_wire demo_engine [\<lparr>ss_net_id = 2, ss_path = ''Sync''\<rparr>] VNil,
      sr_entities = [2]\<rparr>"

text \<open>Ticking it: the records of the spawner (1) and of the spawn (3), which names its synchronizer (2).\<close>

lemma demo_drained:
  assumes "st = run demo_step registry0 demo_spawn_events"
    and "st1 = drain_pending_spawns demo_wire demo_engine demo_spawn_world st"
  shows "rg_pending st1 = []" "rg_owned st1 = [61]" "rg_to_add st1 = [61]" "rg_spawned st1 = [3]"
    "rg_bind_ids st1 = [1]" "rg_ids st1 = demo_ids" "rg_spawners st1 = [(50, Game_Fn 0)]"
    "\<exists>hz. rg_calls st1 = [Core_Rate hz, Add_Spawn 1 (bind_record demo_engine demo_spawn_world 50 1 False),
       Add_Spawn 3 demo_spawn_record]"
  using demo_spawned [OF assms(1)] unfolding assms(2) 
  by (auto simp: demo_ids_def demo_spawn_record_def drain_pending_spawns_def drain_one_def alive_def demo_spawn_world split_beta Let_def
     spawner_net_id_def hm_has_def ids_id_def ids_assign_def hm_get_def hm_put_def net_ids0_def ids_put_def hs_insert_def hm_erase_def)


lemmas demo_look = ids_id_def ids_object_def hm_get_def hm_put_def hm_has_def hm_erase_def hs_insert_def hs_erase_def alive_def
  sync_from_objid_def demo_spawn_world split_beta Let_def

lemma demo_ticked:
  assumes "st = run demo_step registry0 demo_spawn_events"
  shows "rg_owned (demo_step st demo_tick) = [61]" "rg_to_add (demo_step st demo_tick) = []"
    "rg_pending (demo_step st demo_tick) = []" "rg_spawned (demo_step st demo_tick) = [3]"
    "rg_bind_ids (demo_step st demo_tick) = [1]" "rg_ids (demo_step st demo_tick) = demo_ids"
    "\<exists>hz layout d. rg_calls (demo_step st demo_tick) =
       [Core_Rate hz, Add_Spawn 1 (bind_record demo_engine demo_spawn_world 50 1 False),
        Add_Spawn 3 demo_spawn_record, Add_Entity 2 layout d None, Core_Tick 0]"
proof -
  define st1 where "st1 = drain_pending_spawns demo_wire demo_engine demo_spawn_world st"
  note d = demo_drained [OF assms st1_def]
  have "gone_ids demo_spawn_world demo_ids [3] = []" "gone_ids demo_spawn_world demo_ids [1] = []"
    by (simp_all add: gone_ids_def demo_ids_def demo_look)
  then have quiet: "detect_despawns demo_spawn_world st1 = st1"
    by (simp add: detect_despawns_def d)
  define st2 where "st2 = capture_spawners demo_spawn_world (Some (Node_Tree 1 [])) st1"
  have st2: "st2 = st1 \<or> st2 = st1\<lparr>rg_scanned := True\<rparr>"
    by (simp add: st2_def capture_spawners_def)
  have step: "demo_step st demo_tick = core (Core_Tick 0) (add_entities demo_engine 32 demo_spawn_world st2)"
    by (simp add: demo_step_def send_snapshots_def server_tick_def st2_def quiet flip: st1_def)
  have e: "rg_owned st2 = [61]" "rg_to_add st2 = [61]" "rg_pending st2 = []" "rg_spawned st2 = [3]"
    "rg_bind_ids st2 = [1]" "rg_ids st2 = demo_ids" "rg_calls st2 = rg_calls st1"
    using st2 d by auto
  note add = add_entities_def add_entity_def under_spawned_def ids_assign_def demo_look e demo_ids_def
  show "rg_owned (demo_step st demo_tick) = [61]" "rg_to_add (demo_step st demo_tick) = []"
    "rg_pending (demo_step st demo_tick) = []" "rg_spawned (demo_step st demo_tick) = [3]"
    "rg_bind_ids (demo_step st demo_tick) = [1]" "rg_ids (demo_step st demo_tick) = demo_ids"
    by (simp_all add: step add)
  obtain hz where "rg_calls st1 = [Core_Rate hz, Add_Spawn 1 (bind_record demo_engine demo_spawn_world 50 1 False),
       Add_Spawn 3 demo_spawn_record]" using d(8) by blast
  then show "\<exists>hz layout d. rg_calls (demo_step st demo_tick) =
       [Core_Rate hz, Add_Spawn 1 (bind_record demo_engine demo_spawn_world 50 1 False),
        Add_Spawn 3 demo_spawn_record, Add_Entity 2 layout d None, Core_Tick 0]"
    by (simp add: step add)
qed

lemma demo_returned:
  assumes "st = run demo_step registry0 (demo_spawn_events @ demo_tick # demo_back_events)"
  shows "rg_owned st = [61]" "rg_to_add st = [61]" "rg_pending st = []" "rg_spawned st = [3]" "rg_bind_ids st = [1]"
    "by_obj (rg_ids st) = [(50, 1), (60, 3)]" "ids_object (rg_ids st) 1 = 50" "ids_object (rg_ids st) 3 = 60"
    "next_id (rg_ids st) = 4" "hm_get (by_obj (rg_ids st)) 61 = None"
    "\<exists>hz layout d hz1 hz2. rg_calls st =
       [Core_Rate hz, Add_Spawn 1 (bind_record demo_engine demo_spawn_world 50 1 False),
        Add_Spawn 3 demo_spawn_record, Add_Entity 2 layout d None, Core_Tick 0,
        Client_Forget 2, Remove_Entity 2, Core_Rate hz1, Core_Rate hz2]"
proof -
  define s where "s = demo_step (run demo_step registry0 demo_spawn_events) demo_tick"
  note t = demo_ticked [OF refl, folded s_def]
  have st: "st = run demo_step s demo_back_events" by (simp add: assms run_append s_def)
  note ev = demo_back_events_def demo_step_def wrap_step.simps config_remove_def config_add_def refresh_def
     ids_release_def ids_drop_def demo_intercepted demo_ids_def demo_look t
  show "rg_owned st = [61]" "rg_to_add st = [61]" "rg_pending st = []" "rg_spawned st = [3]" "rg_bind_ids st = [1]"
    "by_obj (rg_ids st) = [(50, 1), (60, 3)]" "ids_object (rg_ids st) 1 = 50" "ids_object (rg_ids st) 3 = 60"
    "next_id (rg_ids st) = 4" "hm_get (by_obj (rg_ids st)) 61 = None"
    by (simp_all add: st ev)
  show "\<exists>hz layout d hz1 hz2. rg_calls st =
       [Core_Rate hz, Add_Spawn 1 (bind_record demo_engine demo_spawn_world 50 1 False),
        Add_Spawn 3 demo_spawn_record, Add_Entity 2 layout d None, Core_Tick 0,
        Client_Forget 2, Remove_Entity 2, Core_Rate hz1, Core_Rate hz2]"
    using t(7) by (auto simp: st ev)
qed


definition demo_moved :: "registry_event list" where
  "demo_moved = (demo_spawn_events @ demo_tick # demo_back_events) @ [demo_tick]"

lemma demo_moved:
  assumes "st = run demo_step registry0 demo_moved"
  shows "rg_owned st = [61]" "rg_to_add st = []" "hm_get (by_obj (rg_ids st)) 61 = Some 4"
    "\<exists>hz layout d hz1 hz2 layout1 d1. rg_calls st =
       [Core_Rate hz, Add_Spawn 1 (bind_record demo_engine demo_spawn_world 50 1 False),
        Add_Spawn 3 demo_spawn_record, Add_Entity 2 layout d None, Core_Tick 0,
        Client_Forget 2, Remove_Entity 2, Core_Rate hz1, Core_Rate hz2, Add_Entity 4 layout1 d1 None, Core_Tick 0]"
proof -
  define s where "s = run demo_step registry0 (demo_spawn_events @ demo_tick # demo_back_events)"
  note r = demo_returned [OF s_def]
  have quiet: "drain_pending_spawns demo_wire demo_engine demo_spawn_world s = s"
    by (simp add: drain_pending_spawns_def r)
  have "gone_ids demo_spawn_world (rg_ids s) [3] = []" "gone_ids demo_spawn_world (rg_ids s) [1] = []"
    by (simp_all add: gone_ids_def r alive_def demo_spawn_world)
  then have quiet2: "detect_despawns demo_spawn_world s = s" by (simp add: detect_despawns_def r)
  define s2 where "s2 = capture_spawners demo_spawn_world (Some (Node_Tree 1 [])) s"
  have s2: "s2 = s \<or> s2 = s\<lparr>rg_scanned := True\<rparr>"
    by (simp add: s2_def capture_spawners_def)
  have e: "rg_owned s2 = [61]" "rg_to_add s2 = [61]" "rg_spawned s2 = [3]" "rg_bind_ids s2 = [1]"
    "by_obj (rg_ids s2) = [(50, 1), (60, 3)]" "next_id (rg_ids s2) = 4" "rg_calls s2 = rg_calls s"
    using s2 r by auto
  have st: "st = core (Core_Tick 0) (add_entities demo_engine 32 demo_spawn_world s2)"
    by (simp add: assms demo_moved_def run_append [of _ _ "demo_spawn_events @ demo_tick # demo_back_events"]
        demo_step_def [symmetric] s_def [symmetric] del: append_assoc)
      (simp add: demo_step_def send_snapshots_def server_tick_def quiet quiet2 s2_def)
  note add = add_entities_def add_entity_def under_spawned_def ids_assign_def ids_put_def demo_look e
  show "rg_owned st = [61]" "rg_to_add st = []" "hm_get (by_obj (rg_ids st)) 61 = Some 4"
    by (simp_all add: st add)
  show "\<exists>hz layout d hz1 hz2 layout1 d1. rg_calls st =
       [Core_Rate hz, Add_Spawn 1 (bind_record demo_engine demo_spawn_world 50 1 False),
        Add_Spawn 3 demo_spawn_record, Add_Entity 2 layout d None, Core_Tick 0,
        Client_Forget 2, Remove_Entity 2, Core_Rate hz1, Core_Rate hz2, Add_Entity 4 layout1 d1 None, Core_Tick 0]"
    using r(11) by (auto simp: st add)
qed

lemma demo_nil: "bytes_to_var demo_engine (var_to_bytes demo_engine VNil) = VNil"
  by (simp add: demo_engine_def)

lemma demo_record_reads:
  "get_spawn_data demo_wire demo_engine (sr_data demo_spawn_record) = Some ([\<lparr>ss_net_id = 2, ss_path = ''Sync''\<rparr>], VNil)"
  unfolding demo_spawn_record_def
  using get_put_spawn_data [OF demo_wire_ok, of demo_engine "[\<lparr>ss_net_id = 2, ss_path = ''Sync''\<rparr>]" VNil]
  by (simp add: demo_str_ok demo_nil)

subsection \<open>Properties\<close>

text \<open>C8: the core follows the scene: after any run of the API's events (spawners found, spawns captured,
  synchronizers announced and unregistered, polls and ticks, in any order), an owned synchronizer is
  waiting to be added or the core holds an entity under its id, and every entity the core holds goes by
  the id of a synchronizer the API owns: none is lost and none outlives its synchronizer.\<close>

theorem core_follows_scene:
  assumes "run_ok (registry_step W E cap edge) (event_room so) registry0 es"
    and "st = run (registry_step W E cap edge) registry0 es"
  shows "(if so \<in> set (rg_owned st) then so \<in> set (rg_to_add st) \<or> in_core st so else True) \<and>
    set (rg_to_add st) \<subseteq> set (rg_owned st) \<and>
    core_entities (rg_calls st) \<subseteq> ids_id (rg_ids st) ` set (rg_owned st)"
proof -
  have f: "follows so st"
    using registry.inv_run [OF follows0 assms(1)] assms(2) by simp
  have "core_entities (rg_calls st) \<subseteq> ids_id (rg_ids st) ` set (rg_owned st)"
  proof
    fix i assume "i \<in> core_entities (rg_calls st)"
    then obtain s where "s \<in> set (rg_owned st)" "hm_get (by_obj (rg_ids st)) s = Some i"
      using f by (auto simp: follows_def core_ok_def)
    then show "i \<in> ids_id (rg_ids st) ` set (rg_owned st)"
      by (intro image_eqI [of _ _ s]) (simp_all add: ids_id_def)
  qed
  then show ?thesis using f by (simp add: follows_def core_ok_def)
qed

lemma core_follows_scene_witness:
  "in_core (demo_step (run demo_step registry0 demo_spawn_events) demo_tick) 61 \<and>
   core_entities (rg_calls (demo_step (run demo_step registry0 demo_spawn_events) demo_tick)) \<subseteq>
     ids_id (rg_ids (demo_step (run demo_step registry0 demo_spawn_events) demo_tick)) ` {61}"
proof -
  have "run_ok demo_step (event_room 61) registry0 demo_spawn_events"
    by (simp add: demo_spawn_events_def)
  moreover have "event_room 61 (run demo_step registry0 demo_spawn_events) demo_tick"
    by (simp add: demo_spawned [OF refl] ids_needed_def world_ok_def alive_def demo_spawn_world net_ids0_def)
  ultimately have "run_ok demo_step (event_room 61) registry0 (demo_spawn_events @ [demo_tick])"
    by (simp add: run_ok_append)
  then show ?thesis
    using core_follows_scene [of demo_wire demo_engine 32 "\<lambda>_. 0" 61 "demo_spawn_events @ [demo_tick]", OF _ refl]
    by (simp add: demo_ticked [OF refl] run_append flip: demo_step_def)
qed

end
