(* ===== verification/Replica.thy ===== *)
theory Replica
  imports Core_View
begin

section \<open>The client's half: records in, nodes and names out\<close>

text \<open>
  What the client does with the core's records (\<open>_apply_spawn\<close>, \<open>_apply_bind\<close>, \<open>_apply_despawn\<close> and
  \<open>ClientHost::spawn\<close>), on the same state as \<open>Registry\<close>. The lemmas compose it with the server's half:
  the ids a record names are bound one to one (\<open>bind_all\<close>), so both ends resolve an id to nodes at the
  same place; and over a session the client frees only what it built.
\<close>

subsection \<open>What the client's host does\<close>

text \<open>The signals and scene changes an operation makes, in order, and the warning for a name that finds
  no synchronizer.\<close>

datatype replica_effect =
    Spawned objid objid
  | Despawned objid objid
  | Queue_Free objid
  | No_Synchronizer objid string

fun bind_names ::
  "world \<Rightarrow> objid \<Rightarrow> objid hash_set \<Rightarrow> spawn_sync list \<Rightarrow> net_ids \<Rightarrow> net_ids \<times> replica_effect list" where
  "bind_names Wd n owned [] ids = (ids, [])"
| "bind_names Wd n owned (s # ss) ids =
     (case wd_at Wd n (ss_path s) of
        Some so \<Rightarrow>
          if sync_from_objid Wd so \<noteq> None \<and> so \<in> set owned
          then bind_names Wd n owned ss (ids_bind (ss_net_id s) so ids)
          else (let (ids1, es) = bind_names Wd n owned ss ids in (ids1, No_Synchronizer n (ss_path s) # es))
      | None \<Rightarrow> (let (ids1, es) = bind_names Wd n owned ss ids in (ids1, No_Synchronizer n (ss_path s) # es)))"

text \<open>The node built, from \<open>add_child\<close> on: \<open>entered\<close> is the scene once it is in the tree, and what was
  found and announced while it entered, which is before \<open>add_child\<close> returns.\<close>

definition place_spawn ::
  "(f64 \<Rightarrow> u64) \<Rightarrow> world \<times> wrap_op list \<Rightarrow> objid \<Rightarrow> objid \<Rightarrow> net_id \<Rightarrow> spawn_sync list \<Rightarrow> registry \<Rightarrow>
   bool \<times> replica_effect list \<times> registry" where
  "place_spawn edge entered sp n i syncs st =
     (let (Wd, ops) = entered;
          st1 = run (wrap_step edge) st ops;
          st2 = st1\<lparr>rg_ids := ids_bind i n (rg_ids st1),
                    rg_client_spawned := hs_insert i (rg_client_spawned st1)\<rparr>;
          (ids3, es) = bind_names Wd n (rg_owned st2) syncs (rg_ids st2)
      in (True, es @ [Spawned sp n], st2\<lparr>rg_ids := ids3\<rparr>))"

text \<open>\<open>call_fn\<close> is the game's spawn functions. \<open>enter\<close> is the engine's \<open>add_child\<close>, by parent and node.\<close>

definition apply_spawn ::
  "wire \<Rightarrow> engine \<Rightarrow> (f64 \<Rightarrow> u64) \<Rightarrow> (callable \<Rightarrow> variant \<Rightarrow> objid option) \<Rightarrow> world \<Rightarrow>
   (objid \<Rightarrow> objid \<Rightarrow> world \<times> wrap_op list) \<Rightarrow> net_id \<Rightarrow> net_id \<Rightarrow> bytes \<Rightarrow> registry \<Rightarrow>
   bool \<times> replica_effect list \<times> registry" where
  "apply_spawn W E edge call_fn Wd enter i sp_id data st =
     (let sobj = ids_object (rg_ids st) sp_id in
      case hm_get (rg_spawners st) sobj of
        None \<Rightarrow> (False, [], st)
      | Some fn \<Rightarrow>
          if wd_class Wd sobj \<noteq> Some Spawner_Node then (False, [], st)
          else case get_spawn_data W E data of
            None \<Rightarrow> (True, [], st)
          | Some (syncs, v) \<Rightarrow>
              (case wd_spawn_root Wd sobj of
                 None \<Rightarrow> (False, [], st)
               | Some spawn_root \<Rightarrow>
                   (case call_fn fn v of
                      None \<Rightarrow> (False, [], st)
                    | Some n \<Rightarrow>
                        place_spawn edge (enter spawn_root n) sobj n i syncs st)))"

definition apply_bind :: "engine \<Rightarrow> world \<Rightarrow> net_id \<Rightarrow> bytes \<Rightarrow> registry \<Rightarrow> bool \<times> registry" where
  "apply_bind E Wd i data st =
     (case wd_root_at Wd (of_utf8 E data) of
        None \<Rightarrow> (False, st)
      | Some n \<Rightarrow>
          if wd_class Wd n = Some Spawner_Node
          then (let st1 = wrap_spawner n st in (True, st1\<lparr>rg_ids := ids_bind i n (rg_ids st1)\<rparr>))
          else if n \<notin> set (rg_owned st) then (False, st)
          else (True, st\<lparr>rg_ids := ids_bind i n (rg_ids st)\<rparr>))"

definition node_parent :: "world \<Rightarrow> objid \<Rightarrow> objid option" where
  "node_parent Wd n = (case wd_up Wd n of _ # p # _ \<Rightarrow> Some p | _ \<Rightarrow> None)"

definition apply_despawn :: "world \<Rightarrow> net_id \<Rightarrow> registry \<Rightarrow> replica_effect list \<times> registry" where
  "apply_despawn Wd i st =
     (let objid = ids_object (rg_ids st) i;
          st1 = st\<lparr>rg_ids := ids_drop i (rg_ids st)\<rparr>
      in if i \<notin> set (rg_client_spawned st1) then ([], core (Client_Forget i) st1)
         else
           let st2 = st1\<lparr>rg_client_spawned := hs_erase i (rg_client_spawned st1)\<rparr>
           in if \<not> alive Wd objid then ([], st2)
              else ((case find (\<lambda>s. wd_class Wd s = Some Spawner_Node \<and> wd_spawn_root Wd s = node_parent Wd objid)
                            (hm_keys (rg_spawners st2)) of
                       Some s \<Rightarrow> [Despawned s objid]
                     | None \<Rightarrow> []) @ [Queue_Free objid], st2))"

definition client_spawn ::
  "wire \<Rightarrow> engine \<Rightarrow> (f64 \<Rightarrow> u64) \<Rightarrow> (callable \<Rightarrow> variant \<Rightarrow> objid option) \<Rightarrow> world \<Rightarrow>
   (objid \<Rightarrow> objid \<Rightarrow> world \<times> wrap_op list) \<Rightarrow> net_id \<Rightarrow> net_id \<Rightarrow> bytes \<Rightarrow> registry \<Rightarrow>
   bool \<times> replica_effect list \<times> registry" where
  "client_spawn W E edge call_fn Wd enter i sp_id data st =
     (if sp_id = BIND_SPAWNER
      then (let (taken, st1) = apply_bind E Wd i data st in (taken, [], st1))
      else apply_spawn W E edge call_fn Wd enter i sp_id data st)"

subsection \<open>Binding names\<close>

definition names :: "net_ids \<Rightarrow> net_id \<Rightarrow> objid \<Rightarrow> bool" where
  "names s i ob = (\<exists>e. hm_get (by_id s) i = Some e \<and> e_obj e = ob)"

lemma names_object: "names s i ob \<Longrightarrow> ids_object s i = ob"
  by (auto simp: names_def ids_object_def)

definition ids_sound :: "net_ids \<Rightarrow> bool" where
  "ids_sound s = (ids_inv s \<and> hm_get (by_id s) 0 = None)"

lemma ids_sound_bind: "ids_sound s \<Longrightarrow> 0 < i \<Longrightarrow> ids_sound (ids_bind i ob s)"
  by (auto simp: ids_sound_def ids_inv_bind ids_bind_by_id)

lemma bind_names_it: "ids_sound s \<Longrightarrow> names (ids_bind i ob s) i ob"
  by (simp add: ids_sound_def names_def ids_bind_by_id)

lemma bind_keeps_name:
  assumes "ids_sound s" "names s j p" "i = j \<longleftrightarrow> ob = p"
  shows "names (ids_bind i ob s) j p"
proof (cases "i = j")
  case False
  have "j \<noteq> ids_id (ids_drop i s) ob"
  proof
    assume j: "j = ids_id (ids_drop i s) ob"
    have "j \<noteq> 0" using assms(1,2) by (auto simp: ids_sound_def names_def)
    then have "hm_get (by_obj (ids_drop i s)) ob = Some j"
      using j by (simp add: ids_id_def split: option.splits)
    then have "names (ids_drop i s) j ob"
      using ids_inv_iff [OF ids_inv_drop, of s i ob j] assms(1) by (simp add: ids_sound_def names_def)
    then have "ob = p" using assms(2) False by (auto simp: names_def ids_drop_by_id)
    then show False using assms(3) False by simp
  qed
  then show ?thesis
    using assms False by (auto simp: names_def ids_bind_by_id ids_sound_def)
qed (use assms in \<open>simp add: bind_names_it\<close>)

text \<open>All the names of a record found: the binds are those of a list, one to one.\<close>

lemma bind_all:
  assumes "ids_sound s" "\<And>x. x \<in> set xs \<Longrightarrow> 0 < fst x"
    and "\<And>x y. x \<in> set ys \<union> set xs \<Longrightarrow> y \<in> set ys \<union> set xs \<Longrightarrow> fst x = fst y \<longleftrightarrow> snd x = snd y"
    and "\<And>x. x \<in> set ys \<Longrightarrow> names s (fst x) (snd x)"
  shows "\<forall>x \<in> set ys \<union> set xs. names (fold (\<lambda>(i, ob). ids_bind i ob) xs s) (fst x) (snd x)"
  using assms
proof (induction xs arbitrary: s ys)
  case (Cons x xs)
  let ?s = "ids_bind (fst x) (snd x) s"
  have "\<forall>y \<in> set (x # ys) \<union> set xs. names (fold (\<lambda>(i, ob). ids_bind i ob) xs ?s) (fst y) (snd y)"
  proof (rule Cons.IH)
    show "ids_sound ?s" using Cons.prems(1,2) by (simp add: ids_sound_bind)
    show "\<And>y. y \<in> set xs \<Longrightarrow> 0 < fst y" using Cons.prems(2) by simp
    show "\<And>y z. y \<in> set (x # ys) \<union> set xs \<Longrightarrow> z \<in> set (x # ys) \<union> set xs \<Longrightarrow> fst y = fst z \<longleftrightarrow> snd y = snd z"
      using Cons.prems(3) by simp
    fix y assume "y \<in> set (x # ys)"
    then consider "y = x" | "y \<in> set ys" by auto
    then show "names ?s (fst y) (snd y)"
    proof cases
      case 1
      then show ?thesis using Cons.prems(1) by (simp add: bind_names_it)
    next
      case 2
      then show ?thesis
        using Cons.prems(3) [of x y] by (intro bind_keeps_name Cons.prems(1,4)) simp_all
    qed
  qed
  then show ?case by (cases x) simp
qed simp

lemma bind_names_found:
  assumes "\<And>s. s \<in> set ss \<Longrightarrow> wd_at Wd n (ss_path s) = Some (f s) \<and> wd_class Wd (f s) = Some Sync_Node \<and> f s \<in> set owned"
  shows "bind_names Wd n owned ss ids = (fold (\<lambda>(i, ob). ids_bind i ob) (map (\<lambda>s. (ss_net_id s, f s)) ss) ids, [])"
  using assms by (induction ss arbitrary: ids) (simp_all add: sync_from_objid_def)

lemma wrap_spawner_keeps [simp]:
  "rg_ids (wrap_spawner sp st) = rg_ids st" "rg_client_spawned (wrap_spawner sp st) = rg_client_spawned st"
  by (simp_all add: wrap_spawner_def)

lemma wrap_spawners_keep [simp]:
  "rg_ids (fold wrap_spawner sps st) = rg_ids st" "rg_client_spawned (fold wrap_spawner sps st) = rg_client_spawned st"
  by (induction sps arbitrary: st) simp_all

lemma wrap_step_keeps [simp]:
  "rg_ids (wrap_step edge st op) = rg_ids st" "rg_client_spawned (wrap_step edge st op) = rg_client_spawned st"
  by (cases op; auto simp: on_node_added_def capture_spawners_def config_add_def refresh_def split_beta Let_def
      split: option.splits node_class.splits)+

lemma wraps_keep [simp]:
  "rg_ids (run (wrap_step edge) st ops) = rg_ids st"
  "rg_client_spawned (run (wrap_step edge) st ops) = rg_client_spawned st"
  by (induction ops arbitrary: st) simp_all

subsection \<open>Both ends of a spawn\<close>

text \<open>What \<open>apply_spawn\<close> leaves behind when every named synchronizer is there.\<close>

lemma apply_spawn_binds:
  assumes "hm_get (rg_spawners st) sobj = Some fn" "ids_object (rg_ids st) sp_id = sobj"
    and "wd_class Wd sobj = Some Spawner_Node" "get_spawn_data W E data = Some (syncs, v)"
    and "wd_spawn_root Wd sobj = Some rt" "call_fn fn v = Some n" "enter rt n = (Wd1, ops)"
    and "st1 = run (wrap_step edge) st ops"
    and "\<And>s. s \<in> set syncs \<Longrightarrow> wd_at Wd1 n (ss_path s) = Some (f s) \<and> wd_class Wd1 (f s) = Some Sync_Node \<and>
           f s \<in> set (rg_owned st1)"
  shows "apply_spawn W E edge call_fn Wd enter i sp_id data st =
    (True, [Spawned sobj n],
     st1\<lparr>rg_client_spawned := hs_insert i (rg_client_spawned st1),
         rg_ids := fold (\<lambda>(i, ob). ids_bind i ob) ((i, n) # map (\<lambda>s. (ss_net_id s, f s)) syncs) (rg_ids st)\<rparr>)"
  using assms(1-7) bind_names_found [of syncs Wd1 n f "rg_owned st1", OF assms(9)]
  by (simp add: apply_spawn_def place_spawn_def Let_def flip: assms(8)) (simp add: assms(8))

lemma name_syncs_has:
  "sy \<in> set sys \<Longrightarrow> hm_get (by_obj (snd (snd (name_syncs Wd n owned sys ids)))) sy \<noteq> None"
proof (induction sys arbitrary: ids)
  case (Cons s sys)
  show ?case
  proof (cases "sy \<in> set sys")
    case False
    then have "sy = s" using Cons.prems by simp
    then show ?thesis using False name_syncs_other [of sy sys Wd n owned "snd (ids_assign s ids)"]
      by (simp add: split_beta assign_by_obj)
  qed (use Cons.IH in \<open>simp add: split_beta\<close>)
qed simp

lemma ids_ext_has: "ids_ext s t \<Longrightarrow> hm_get (by_obj s) ob \<noteq> None \<Longrightarrow> hm_get (by_obj t) ob \<noteq> None"
  by (auto simp: ids_ext_def)

lemma drain_one_has:
  assumes "drain_one W E Wd n ps st = (fin, st1)" "drainable Wd st (n, ps)"
    and "sy \<in> insert n (set (collect_syncs Wd (wd_tree Wd n)))"
  shows "hm_get (by_obj (rg_ids st1)) sy \<noteq> None"
proof -
  obtain sp_id s1 where sp: "spawner_net_id E Wd (ps_spawner ps) st = (sp_id, s1)"
    by (cases "spawner_net_id E Wd (ps_spawner ps) st")
  obtain es named ids1 where ns: "name_syncs Wd n (rg_owned s1) (collect_syncs Wd (wd_tree Wd n)) (rg_ids s1) = (es, named, ids1)"
    by (metis prod_cases3)
  have "rg_ids st1 = snd (ids_assign n ids1)"
    using assms(1,2) sp ns by (auto simp: drain_one_def drainable_def split_beta)
  moreover have "hm_get (by_obj ids1) sy \<noteq> None" if "sy \<in> set (collect_syncs Wd (wd_tree Wd n))"
    using name_syncs_has [OF that, of Wd n "rg_owned s1" "rg_ids s1"] ns by simp
  ultimately show ?thesis
    using assms(3) by (auto simp: assign_by_obj)
qed

lemma drain_loop_has:
  assumes "drain_loop W E Wd items st = (fin, st1)" "(n, ps) \<in> set items" "drainable Wd st (n, ps)"
    and "sy \<in> insert n (set (collect_syncs Wd (wd_tree Wd n)))"
  shows "hm_get (by_obj (rg_ids st1)) sy \<noteq> None"
  using assms(1-3)
proof (induction items arbitrary: st fin)
  case (Cons item items)
  obtain m qs where item: "item = (m, qs)" by (cases item)
  obtain f s1 where one: "drain_one W E Wd m qs st = (f, s1)" by (cases "drain_one W E Wd m qs st")
  obtain fs where rest: "drain_loop W E Wd items s1 = (fs, st1)"
    using Cons.prems(1) item one by (auto simp: split_beta prod_eq_iff)
  have ext: "ids_ext (rg_ids s1) (rg_ids st1)" using drain_loop_core [OF rest] by simp
  show ?case
  proof (cases "item = (n, ps)")
    case True
    then show ?thesis
      using drain_one_has [of W E Wd n ps st f s1 sy] one item Cons.prems(3) assms(4) ids_ext_has [OF ext] by simp
  next
    case False
    have "rg_spawners s1 = rg_spawners st"
      using drain_one_spec(4) [OF one _ ids_ext_refl] drain_one_skips [of Wd st m qs W E] one
      by (cases "drainable Wd st (m, qs)") auto
    then show ?thesis using Cons.IH [OF rest] Cons.prems(2,3) False by (simp add: drainable_def)
  qed
qed simp

definition spawn_twins ::
  "world \<Rightarrow> objid \<Rightarrow> objid list \<Rightarrow> world \<Rightarrow> objid \<Rightarrow> objid hash_set \<Rightarrow> (objid \<Rightarrow> objid) \<Rightarrow> bool" where
  "spawn_twins Ws n syncs Wc n1 owned twin =
     (twin n = n1 \<and> inj_on twin (insert n (set syncs)) \<and>
      list_all (\<lambda>so. wd_at Wc n1 (wd_path_to Ws n so) = Some (twin so) \<and> wd_class Wc (twin so) = Some Sync_Node \<and>
        twin so \<in> set owned) syncs)"

lemma apply_spawn_twins:
  assumes "spawn_call W E Ws owned ids n ps = Add_Spawn i rec" "server_ids ids"
    and "\<And>ob. ob = n \<or> ob \<in> set syncs \<Longrightarrow> hm_get (by_obj ids) ob \<noteq> None"
    and "syncs = filter (\<lambda>sy. sy \<in> set owned) (collect_syncs Ws (wd_tree Ws n))"
    and "get_spawn_data W E (sr_data rec) =
          Some (map (\<lambda>sy. \<lparr>ss_net_id = ids_id ids sy, ss_path = wd_path_to Ws n sy\<rparr>) syncs, ps_data ps)"
    and "ids_sound (rg_ids cl)" "ids_object (rg_ids cl) (sr_spawner rec) = sp"
    and "hm_get (rg_spawners cl) sp = Some fn" "wd_class Wc sp = Some Spawner_Node" "wd_spawn_root Wc sp = Some rt"
    and "call_fn fn (ps_data ps) = Some n1" "enter rt n1 = (Wc1, ops)"
    and "spawn_twins Ws n syncs Wc1 n1 (rg_owned (run (wrap_step edge) cl ops)) twin"
  shows "\<exists>cl1. apply_spawn W E edge call_fn Wc enter i (sr_spawner rec) (sr_data rec) cl = (True, [Spawned sp n1], cl1) \<and>
    i \<in> set (rg_client_spawned cl1) \<and> i = ids_id ids n \<and>
    (\<forall>ob \<in> insert n (set syncs). names (rg_ids cl1) (ids_id ids ob) (twin ob))"
proof -
  have has: "hm_get (by_obj ids) ob = Some (ids_id ids ob)" if "ob \<in> insert n (set syncs)" for ob
    using assms(3) [of ob] that by (auto simp: ids_id_def)
  have inj: "ids_id ids a = ids_id ids b \<longleftrightarrow> a = b" if "a \<in> insert n (set syncs)" "b \<in> insert n (set syncs)" for a b
    using server_ids_inj [OF assms(2) has [OF that(1)]] has [OF that(2)] by auto
  have tw: "twin n = n1" "inj_on twin (insert n (set syncs))"
    and found: "\<And>so. so \<in> set syncs \<Longrightarrow> wd_at Wc1 n1 (wd_path_to Ws n so) = Some (twin so) \<and>
       wd_class Wc1 (twin so) = Some Sync_Node \<and> twin so \<in> set (rg_owned (run (wrap_step edge) cl ops))"
    using assms(13) by (auto simp: spawn_twins_def list_all_iff)
  define f :: "spawn_sync \<Rightarrow> objid" where "f = (\<lambda>s. twin (the_inv_into (set syncs) (ids_id ids) (ss_net_id s)))"
  have f: "f \<lparr>ss_net_id = ids_id ids so, ss_path = p\<rparr> = twin so" if "so \<in> set syncs" for so p
    unfolding f_def using that inj by (simp add: the_inv_into_f_f inj_on_def)
  have i: "i = ids_id ids n" using assms(1) by (simp add: spawn_call_def Let_def)
  let ?xs = "map (\<lambda>ob. (ids_id ids ob, twin ob)) (n # syncs)"
  let ?ids = "fold (\<lambda>(i, ob). ids_bind i ob) ?xs (rg_ids cl)"
  have all: "\<forall>x \<in> set [] \<union> set ?xs. names ?ids (fst x) (snd x)"
  proof (rule bind_all [OF assms(6)])
    show "0 < fst x" if "x \<in> set ?xs" for x
      using that server_ids_pos [OF assms(2) has] by auto
    fix x y assume "x \<in> set [] \<union> set ?xs" "y \<in> set [] \<union> set ?xs"
    then obtain a b where "x = (ids_id ids a, twin a)" "y = (ids_id ids b, twin b)"
      "a \<in> insert n (set syncs)" "b \<in> insert n (set syncs)" by auto
    then show "fst x = fst y \<longleftrightarrow> snd x = snd y" using inj inj_on_eq_iff [OF tw(2)] by simp
  qed simp
  have xs: "(i, n1) # map (\<lambda>s. (ss_net_id s, f s))
          (map (\<lambda>sy. \<lparr>ss_net_id = ids_id ids sy, ss_path = wd_path_to Ws n sy\<rparr>) syncs) = ?xs"
    using f by (simp add: i tw(1))
  have "apply_spawn W E edge call_fn Wc enter i (sr_spawner rec) (sr_data rec) cl =
    (True, [Spawned sp n1], (run (wrap_step edge) cl ops)
       \<lparr>rg_client_spawned := hs_insert i (rg_client_spawned (run (wrap_step edge) cl ops)),
        rg_ids := fold (\<lambda>(i, ob). ids_bind i ob) ((i, n1) # map (\<lambda>s. (ss_net_id s, f s))
          (map (\<lambda>sy. \<lparr>ss_net_id = ids_id ids sy, ss_path = wd_path_to Ws n sy\<rparr>) syncs)) (rg_ids cl)\<rparr>)"
    using found
    by (intro apply_spawn_binds [where call_fn = call_fn and enter = enter, OF assms(8,7,9,5,10,11,12) refl]) (auto simp: f)
  note call = this [unfolded xs]
  have "names ?ids (ids_id ids ob) (twin ob)" if "ob \<in> insert n (set syncs)" for ob
    using all that by auto
  moreover have "\<exists>cl1. apply_spawn W E edge call_fn Wc enter i (sr_spawner rec) (sr_data rec) cl = (True, [Spawned sp n1], cl1) \<and>
      i \<in> set (rg_client_spawned cl1) \<and> rg_ids cl1 = ?ids"
    by (intro exI conjI, rule call) simp_all
  ultimately show ?thesis using i by metis
qed

subsection \<open>Records over a session\<close>

text \<open>A client's events, with what each does to the scene: spawn and bind records, despawns, and
  synchronizers unregistered. An event relies on its ids being fresh: no record names an id the client
  spawned a node for, as a server that never reuses an id sees to.\<close>

datatype replica_event =
    Record_In world "objid \<Rightarrow> objid \<Rightarrow> world \<times> wrap_op list" net_id net_id bytes
  | Despawn_In world net_id
  | Left_Tree world objid

fun replica_step ::
  "wire \<Rightarrow> engine \<Rightarrow> (f64 \<Rightarrow> u64) \<Rightarrow> (callable \<Rightarrow> variant \<Rightarrow> objid option) \<Rightarrow> registry \<times> replica_effect list \<Rightarrow>
   replica_event \<Rightarrow> registry \<times> replica_effect list" where
  "replica_step W E edge call_fn (st, lg) (Record_In Wd enter i sp_id data) =
     (let (taken, es, st1) = client_spawn W E edge call_fn Wd enter i sp_id data st in (st1, lg @ es))"
| "replica_step W E edge call_fn (st, lg) (Despawn_In Wd i) =
     (let (es, st1) = apply_despawn Wd i st in (st1, lg @ es))"
| "replica_step W E edge call_fn (st, lg) (Left_Tree Wd cfg) = (snd (config_remove edge Wd cfg st), lg)"

fun replica_fresh :: "wire \<Rightarrow> engine \<Rightarrow> registry \<times> replica_effect list \<Rightarrow> replica_event \<Rightarrow> bool" where
  "replica_fresh W E (st, lg) (Record_In Wd enter i sp_id data) =
     (i \<notin> set (rg_client_spawned st) \<and>
      (case get_spawn_data W E data of
         None \<Rightarrow> True
       | Some (syncs, v) \<Rightarrow>
           sp_id = BIND_SPAWNER \<or> list_all (\<lambda>s. ss_net_id s \<notin> set (rg_client_spawned st) \<and> ss_net_id s \<noteq> i) syncs))"
| "replica_fresh W E s (Despawn_In Wd i) = world_ok Wd"
| "replica_fresh W E s (Left_Tree Wd cfg) = True"

definition built :: "replica_effect list \<Rightarrow> objid set" where
  "built lg = {n. \<exists>sp. Spawned sp n \<in> set lg}"

definition owns_freed :: "registry \<times> replica_effect list \<Rightarrow> bool" where
  "owns_freed s =
     ((\<forall>i \<in> set (rg_client_spawned (fst s)). ids_object (rg_ids (fst s)) i \<in> insert 0 (built (snd s))) \<and>
      (\<forall>n. Queue_Free n \<in> set (snd s) \<longrightarrow> n \<in> built (snd s)))"

lemma object_drop: "ids_object (ids_drop j s) i = (if i = j then 0 else ids_object s i)"
  by (simp add: ids_object_def ids_drop_by_id)

lemma object_bind:
  "ids_object (ids_bind j ob s) i = (if i = j then ob else if i = ids_id (ids_drop j s) ob then 0 else ids_object s i)"
  by (simp add: ids_bind_def ids_release_eq ids_put_def ids_object_def hm_get_put ids_drop_by_id)

lemma bind_names_object:
  "i \<notin> ss_net_id ` set ss \<Longrightarrow> ids_object (fst (bind_names Wd n owned ss ids)) i \<in> {0, ids_object ids i}"
proof (induction ss arbitrary: ids)
  case (Cons s ss)
  show ?case
    using Cons.prems Cons.IH [of ids] Cons.IH [of "ids_bind (ss_net_id s) (the (wd_at Wd n (ss_path s))) ids"]
    by (auto simp: split_beta object_bind split: option.splits if_splits)
qed simp

lemma bind_names_quiet: "Spawned sp m \<notin> set (snd (bind_names Wd n owned ss ids))"
    "Queue_Free m \<notin> set (snd (bind_names Wd n owned ss ids))"
  by (induction ss arbitrary: ids) (auto simp: split_beta split: option.splits)


lemma built_append: "built (xs @ ys) = built xs \<union> built ys"
  by (auto simp: built_def)

lemma owns_freed_bind:
  assumes "owns_freed (st, lg)" "i \<notin> set (rg_client_spawned st)"
    and "rg_ids st1 = ids_bind i ob (rg_ids st)" "rg_client_spawned st1 = rg_client_spawned st"
  shows "owns_freed (st1, lg)"
  using assms by (auto simp: owns_freed_def object_bind)

lemma apply_spawn_cases:
  assumes "apply_spawn W E edge call_fn Wd enter i sp_id data st = (taken, es, st1)" "\<not> (st1 = st \<and> es = [])"
  shows "\<exists>Wd1 n owned syncs v. get_spawn_data W E data = Some (syncs, v) \<and>
    rg_ids st1 = fst (bind_names Wd1 n owned syncs (ids_bind i n (rg_ids st))) \<and>
    es = snd (bind_names Wd1 n owned syncs (ids_bind i n (rg_ids st))) @ [Spawned (ids_object (rg_ids st) sp_id) n] \<and>
    rg_client_spawned st1 = hs_insert i (rg_client_spawned st)"
proof -
  have "\<exists>syncs v rt n. get_spawn_data W E data = Some (syncs, v) \<and>
      (taken, es, st1) = place_spawn edge (enter rt n) (ids_object (rg_ids st) sp_id) n i syncs st"
    using assms unfolding apply_spawn_def Let_def
    by (simp split: option.splits if_splits prod.splits) (metis)
  then show ?thesis
    by (elim exE conjE) (intro exI conjI, assumption, auto simp: place_spawn_def Let_def split_beta)
qed

lemma owns_freed_spawn:
  assumes "owns_freed (st, lg)" "replica_fresh W E (st, lg) (Record_In Wd enter i sp_id data)" "sp_id \<noteq> BIND_SPAWNER"
    and "apply_spawn W E edge call_fn Wd enter i sp_id data st = (taken, es, st1)"
  shows "owns_freed (st1, lg @ es)"
proof (cases "st1 = st \<and> es = []")
  case True
  then show ?thesis using assms(1) by simp
next
  case False
  from apply_spawn_cases [OF assms(4) False] obtain Wd1 n owned syncs v where
    g: "get_spawn_data W E data = Some (syncs, v)" and
    ids3: "rg_ids st1 = fst (bind_names Wd1 n owned syncs (ids_bind i n (rg_ids st)))" and
    es: "es = snd (bind_names Wd1 n owned syncs (ids_bind i n (rg_ids st))) @ [Spawned (ids_object (rg_ids st) sp_id) n]" and
    st1: "rg_client_spawned st1 = hs_insert i (rg_client_spawned st)" by blast
  have q: "Queue_Free m \<notin> set es" for m using bind_names_quiet(2) [of m Wd1 n] es by auto
  have bl: "built (lg @ es) \<supseteq> insert n (built lg)" by (auto simp: built_def es)
  have "ids_object (rg_ids st1) j \<in> insert 0 (built (lg @ es))" if j: "j = i \<or> j \<in> set (rg_client_spawned st)" for j
  proof -
    have "j \<notin> ss_net_id ` set syncs"
      using assms(2,3) g j by (auto simp: list_all_iff)
    then have "ids_object (rg_ids st1) j \<in> {0, ids_object (ids_bind i n (rg_ids st)) j}"
      using bind_names_object [of j syncs Wd1 n owned "ids_bind i n (rg_ids st)"] ids3 by simp
    moreover have "ids_object (ids_bind i n (rg_ids st)) j \<in> insert 0 (built (lg @ es))"
      using j assms(1) bl by (auto simp: object_bind owns_freed_def)
    ultimately show ?thesis by auto
  qed
  then show ?thesis
    using assms(1) q bl st1 by (auto simp: owns_freed_def)
qed

lemma owns_freed_despawn:
  assumes "owns_freed (st, lg)" "world_ok Wd" "apply_despawn Wd i st = (es, st1)"
  shows "owns_freed (st1, lg @ es)"
proof -
  have ids: "rg_ids st1 = ids_drop i (rg_ids st)" and cs: "set (rg_client_spawned st1) = set (rg_client_spawned st) - {i}"
    using assms(3) by (auto simp: apply_despawn_def Let_def split: if_splits)
  have "n = ids_object (rg_ids st) i \<and> i \<in> set (rg_client_spawned st) \<and> alive Wd n" if "Queue_Free n \<in> set es" for n
    using that assms(3) by (auto simp: apply_despawn_def Let_def split: if_splits option.splits)
  then have "n \<in> built lg" if "Queue_Free n \<in> set es" for n
    using that assms(1,2) by (fastforce simp: owns_freed_def world_ok_def)
  then show ?thesis
    using assms(1) ids cs by (auto simp: owns_freed_def object_drop built_append)
qed

lemma owns_freed_left: "owns_freed (st, lg) \<Longrightarrow> owns_freed (snd (config_remove edge Wd cfg st), lg)"
  by (auto simp: owns_freed_def config_remove_def ids_release_eq object_drop refresh_def split_beta Let_def
      split: option.splits node_class.splits)

lemma owns_freed_step:
  "owns_freed s \<Longrightarrow> replica_fresh W E s ev \<Longrightarrow> owns_freed (replica_step W E edge call_fn s ev)"
proof (induction s ev rule: replica_fresh.induct)
  case (1 W' E' st lg Wd enter i sp_id data)
  show ?case
  proof (cases "sp_id = BIND_SPAWNER")
    case True
    then show ?thesis
      using 1 owns_freed_bind [of st lg i]
      by (auto simp: client_spawn_def split_beta apply_bind_def Let_def split: option.splits)
  next
    case False
    moreover obtain taken es st1 where "apply_spawn W' E' edge call_fn Wd enter i sp_id data st = (taken, es, st1)"
      by (metis prod_cases3)
    ultimately show ?thesis
      using owns_freed_spawn [OF 1, of edge call_fn] by (simp add: client_spawn_def)
  qed
next
  case (2 W' E' s Wd i)
  obtain st lg where "s = (st, lg)" by (cases s)
  moreover obtain es st1 where "apply_despawn Wd i st = (es, st1)" by (cases "apply_despawn Wd i st")
  ultimately show ?case using 2 owns_freed_despawn [of st lg Wd i es st1] by simp
next
  case (3 W' E' s Wd cfg)
  then show ?case by (cases s) (simp add: owns_freed_left)
qed

interpretation replica: machine "replica_step W E edge call_fn" "replica_fresh W E" owns_freed for W E edge call_fn
  by unfold_locales (rule owns_freed_step)

lemma ids_sound0: "ids_sound net_ids0"
  using ids_inv0 by (simp add: ids_sound_def) (simp add: net_ids0_def)

lemma demo_ids_server: "server_ids demo_ids"
proof -
  let ?a = "snd (ids_assign 50 net_ids0)" and ?b = "snd (ids_assign 61 (snd (ids_assign 50 net_ids0)))"
  have n: "next_id ?a = 2" "next_id ?b = 3"
    by (simp_all add: ids_assign_def net_ids0_def ids_put_def hm_get_def hm_put_def)
  have "server_ids ?a" by (rule server_ids_assign [OF server_ids0]) (simp add: net_ids0_def)
  then have "server_ids ?b" by (rule server_ids_assign) (simp add: n)
  then have "server_ids (snd (ids_assign 60 ?b))" by (rule server_ids_assign) (simp add: n)
  moreover have "demo_ids = snd (ids_assign 60 ?b)"
    by (simp add: demo_ids_def ids_assign_def net_ids0_def ids_put_def hm_get_def hm_put_def)
  ultimately show ?thesis by simp
qed

subsection \<open>Properties\<close>

text \<open>C4: the two ends of a spawn agree on every name: once a captured spawn's node is in the server's tree,
  draining hands the core a record from which a client that knows the spawner builds the node, fires
  \<open>spawned\<close> for it, and from then on resolves the server's id of the node to the node built, and the
  server's id of every synchronizer the server owns below it to the synchronizer at the same path below
  its own node. (The client's scene has them where the server's has, \<open>spawn_twins\<close>; that the engine
  announces them on the way in is what \<open>enter\<close> says.)\<close>

theorem spawn_names_agree:
  assumes "hm_get (rg_pending st) n = Some ps" "alive Ws n" "wd_in_tree Ws n"
    and "hm_has (rg_spawners st) (ps_spawner ps)" "wd_class Ws (ps_spawner ps) = Some Spawner_Node"
    and "st1 = drain_pending_spawns W E Ws st" "server_ids (rg_ids st1)"
    and "syncs = filter (\<lambda>so. so \<in> set (rg_owned st)) (collect_syncs Ws (wd_tree Ws n))"
    and "wire_ok W" "list_all (\<lambda>so. str_ok E (wd_path_to Ws n so)) syncs" "length syncs < 2 ^ 32"
    and "bytes_to_var E (var_to_bytes E (ps_data ps)) = ps_data ps"
    and "ids_sound (rg_ids cl)" "ids_object (rg_ids cl) (ids_id (rg_ids st1) (ps_spawner ps)) = sp"
    and "hm_get (rg_spawners cl) sp = Some fn" "wd_class Wc sp = Some Spawner_Node" "wd_spawn_root Wc sp = Some rt"
    and "call_fn fn (ps_data ps) = Some n1" "enter rt n1 = (Wc1, ops)"
    and "spawn_twins Ws n syncs Wc1 n1 (rg_owned (run (wrap_step edge) cl ops)) twin"
  shows "\<exists>i rec cl1. Add_Spawn i rec \<in> set (rg_calls st1) \<and>
    apply_spawn W E edge call_fn Wc enter i (sr_spawner rec) (sr_data rec) cl = (True, [Spawned sp n1], cl1) \<and>
    i \<in> set (rg_client_spawned cl1) \<and> ids_object (rg_ids cl1) (ids_id (rg_ids st1) n) = n1 \<and>
    list_all (\<lambda>so. ids_object (rg_ids cl1) (ids_id (rg_ids st1) so) = twin so) syncs"
proof -
  obtain fin s1 where loop: "drain_loop W E Ws (rg_pending st) st = (fin, s1)"
    by (cases "drain_loop W E Ws (rg_pending st) st")
  have st1: "st1 = s1\<lparr>rg_pending := fold hm_erase fin (rg_pending s1)\<rparr>"
    using assms(1,6) loop by (auto simp: drain_pending_spawns_def)
  have mem: "(n, ps) \<in> set (rg_pending st)" using assms(1) by (rule hm_get_mem)
  have dr: "drainable Ws st (n, ps)" using assms(2-4) by (simp add: drainable_def)
  obtain i rec where rec: "spawn_call W E Ws (rg_owned st) (rg_ids st1) n ps = Add_Spawn i rec"
    by (simp add: spawn_call_def Let_def)
  have "Add_Spawn i rec \<in> set (rg_calls st1)"
    using drain_loop_calls [OF loop ids_ext_refl mem dr] assms(5) rec by (auto simp: alive_def st1)
  moreover have "get_spawn_data W E (sr_data rec) =
      Some (map (\<lambda>so. \<lparr>ss_net_id = ids_id (rg_ids st1) so, ss_path = wd_path_to Ws n so\<rparr>) syncs, ps_data ps)"
    using rec assms(8-12)
    by (auto simp: spawn_call_def Let_def list.pred_map comp_def intro!: get_put_spawn_data)
  note * = apply_spawn_twins [where call_fn = call_fn and enter = enter, OF rec assms(7) _ assms(8) this assms(13)]
  have "\<exists>cl1. apply_spawn W E edge call_fn Wc enter i (sr_spawner rec) (sr_data rec) cl = (True, [Spawned sp n1], cl1) \<and>
      i \<in> set (rg_client_spawned cl1) \<and> i = ids_id (rg_ids st1) n \<and>
      (\<forall>ob \<in> insert n (set syncs). names (rg_ids cl1) (ids_id (rg_ids st1) ob) (twin ob))"
  proof (rule * [OF _ _ assms(15-20)])
    show "ids_object (rg_ids cl) (sr_spawner rec) = sp"
      using rec assms(14) by (auto simp: spawn_call_def Let_def)
    show "hm_get (by_obj (rg_ids st1)) ob \<noteq> None" if "ob = n \<or> ob \<in> set syncs" for ob
      using drain_loop_has [OF loop mem dr, of ob] that assms(8) by (auto simp: st1)
  qed
  then obtain cl1 where
    "apply_spawn W E edge call_fn Wc enter i (sr_spawner rec) (sr_data rec) cl = (True, [Spawned sp n1], cl1)"
    "i \<in> set (rg_client_spawned cl1)" "\<forall>ob \<in> insert n (set syncs). names (rg_ids cl1) (ids_id (rg_ids st1) ob) (twin ob)"
    by blast
  ultimately show ?thesis
    using assms(20)
    by (intro exI [of _ i] exI [of _ rec] exI [of _ cl1]) (simp add: names_object spawn_twins_def list_all_iff)
qed

definition demo_join_world :: world where
  "demo_join_world = world0\<lparr>
     wd_class := (\<lambda>ob. if ob = 150 then Some Spawner_Node else if ob = 160 then Some Plain_Node
                      else if ob = 161 then Some Sync_Node else None),
     wd_sync := (\<lambda>_. demo_sync), wd_spawn_root := (\<lambda>_. Some 149),
     wd_at := (\<lambda>ob p. if ob = 160 \<and> p = ''Sync'' then Some 161 else None)\<rparr>"

lemma demo_join_world:
  "wd_class demo_join_world 150 = Some Spawner_Node" "wd_class demo_join_world 161 = Some Sync_Node"
  "wd_class demo_join_world 160 = Some Plain_Node" "wd_class demo_join_world 0 = None"
  "wd_spawn_root demo_join_world ob = Some 149" "wd_at demo_join_world 160 ''Sync'' = Some 161"
  by (simp_all add: demo_join_world_def)

definition demo_joiner :: registry where
  "demo_joiner = registry0\<lparr>rg_ids := ids_bind 1 150 net_ids0, rg_spawners := [(150, Game_Fn 0)]\<rparr>"

abbreviation demo_enter :: "objid \<Rightarrow> objid \<Rightarrow> world \<times> wrap_op list" where
  "demo_enter \<equiv> \<lambda>_ _. (demo_join_world, [Found_Announced demo_join_world False (Some 160) 161])"

lemma demo_joiner_owns: "rg_owned (run (wrap_step edge) demo_joiner [Found_Announced demo_join_world False (Some 160) 161]) = [161]"
  by (simp add: config_add_def demo_join_world_def demo_intercepted refresh_def Let_def split_beta demo_joiner_def
      registry0_def hs_insert_def)

lemma spawn_names_agree_witness:
  "\<exists>i rec cl1. Add_Spawn i rec \<in> set (rg_calls (drain_pending_spawns demo_wire demo_engine demo_spawn_world
         (run demo_step registry0 demo_spawn_events))) \<and>
    apply_spawn demo_wire demo_engine (\<lambda>_. 0) (\<lambda>_ _. Some 160) demo_join_world demo_enter i
      (sr_spawner rec) (sr_data rec) demo_joiner = (True, [Spawned 150 160], cl1) \<and>
    i \<in> set (rg_client_spawned cl1) \<and> ids_object (rg_ids cl1) 3 = 160 \<and> ids_object (rg_ids cl1) 2 = 161"
proof -
  note d = demo_spawned [OF refl] and e = demo_drained [OF refl refl]
  have ids: "ids_id demo_ids 50 = 1" "ids_id demo_ids 60 = 3" "ids_id demo_ids 61 = 2"
    by (simp_all add: demo_ids_def ids_id_def hm_get_def)
  note c = demo_join_world
  have b: "ids_sound (ids_bind 1 150 net_ids0)" "ids_object (ids_bind 1 150 net_ids0) 1 = 150"
    using ids_sound_bind [OF ids_sound0] by (simp_all add: object_bind)
  show ?thesis
    using spawn_names_agree [where st = "run demo_step registry0 demo_spawn_events" and n = 60
        and ps = "\<lparr>ps_spawner = 50, ps_data = VNil\<rparr>" and Ws = demo_spawn_world and W = demo_wire and E = demo_engine
        and cl = demo_joiner and sp = 150 and fn = "Game_Fn 0" and Wc = demo_join_world and rt = 149
        and call_fn = "\<lambda>_ _. Some 160" and ?n1.0 = 160 and enter = demo_enter and edge = "\<lambda>_. 0"
        and twin = "\<lambda>ob. ob + 100" and ?Wc1.0 = demo_join_world
        and ops = "[Found_Announced demo_join_world False (Some 160) 161]"
        and ?st1.0 = "drain_pending_spawns demo_wire demo_engine demo_spawn_world (run demo_step registry0 demo_spawn_events)"
        and syncs = "[61]"]
      demo_joiner_owns [of "\<lambda>_. 0"]
    by (simp add: d e ids c b demo_ids_server demo_wire_ok demo_str_ok demo_nil demo_spawn_world alive_def spawn_twins_def
        hm_get_def hm_has_def) (simp add: demo_joiner_def b)
qed


text \<open>C10: a bind record names on the client the node at its path: it is taken, and the id and the node name
  each other from then on, exactly when that node is a spawner, which is then wrapped, or a synchronizer
  the client owns; otherwise nothing changes and the record comes again.\<close>

theorem bind_record_names_node:
  assumes "of_utf8 E (utf8 E (wd_path Ws ob)) = wd_path Ws ob" "ids_sound (rg_ids cl)"
    and "apply_bind E Wc i (sr_data (bind_record E Ws ob i gated)) cl = (taken, cl1)"
  shows "case wd_root_at Wc (wd_path Ws ob) of
      None \<Rightarrow> \<not> taken \<and> cl1 = cl
    | Some n \<Rightarrow>
        taken = (wd_class Wc n = Some Spawner_Node \<or> n \<in> set (rg_owned cl)) \<and>
        (if taken
         then ids_object (rg_ids cl1) i = n \<and> ids_id (rg_ids cl1) n = i \<and>
           (if wd_class Wc n = Some Spawner_Node then hm_has (rg_spawners cl1) n else rg_spawners cl1 = rg_spawners cl)
         else cl1 = cl)"
proof -
  have "hm_has (rg_spawners (wrap_spawner n cl)) n" for n
    by (simp add: wrap_spawner_def hm_has_put)
  then show ?thesis
    using assms ids_bind_names [of "rg_ids cl" i]
    by (auto simp: apply_bind_def bind_record_def ids_sound_def Let_def split: option.splits if_splits)
qed

lemma bind_record_names_node_witness:
  "\<exists>cl1. apply_bind demo_engine (demo_join_world\<lparr>wd_root_at := (\<lambda>_. Some 150)\<rparr>) 1
     (sr_data (bind_record demo_engine demo_spawn_world 50 1 False)) registry0 = (True, cl1) \<and>
   ids_object (rg_ids cl1) 1 = 150 \<and> hm_has (rg_spawners cl1) 150"
proof -
  let ?Wc = "demo_join_world\<lparr>wd_root_at := (\<lambda>_. Some 150)\<rparr>"
  let ?r = "apply_bind demo_engine ?Wc 1 (sr_data (bind_record demo_engine demo_spawn_world 50 1 False)) registry0"
  have "ids_sound (rg_ids registry0)"
    using ids_sound0 by (simp add: registry0_def)
  moreover have "of_utf8 demo_engine (utf8 demo_engine (wd_path demo_spawn_world 50)) = wd_path demo_spawn_world 50"
    using demo_str_ok [of "''/root/S''"] by (simp add: str_ok_def demo_spawn_world)
  ultimately show ?thesis
    using bind_record_names_node [of demo_engine demo_spawn_world 50 registry0 ?Wc 1 False "fst ?r" "snd ?r"]
      demo_join_world(1)
    by (intro exI [of _ "snd ?r"]) (simp add: prod_eq_iff)
qed

text \<open>C9: a client frees only nodes it spawned: over any run of records, despawns and unregistrations, whatever
  ids the despawns carry, every node queued for freeing is one a spawn record built here. (A record's ids
  are fresh: none is the id of a node spawned here and not yet despawned, as a server that never reuses
  an id sees to.)\<close>

theorem frees_only_spawned:
  assumes "run_ok (replica_step W E edge call_fn) (replica_fresh W E) (registry0, []) evs"
    and "Queue_Free n \<in> set (snd (run (replica_step W E edge call_fn) (registry0, []) evs))"
  shows "\<exists>sp. Spawned sp n \<in> set (snd (run (replica_step W E edge call_fn) (registry0, []) evs))"
proof -
  have "owns_freed (registry0, [])" by (simp add: owns_freed_def registry0_def)
  from replica.inv_run [OF this assms(1)] show ?thesis
    using assms(2) by (auto simp: owns_freed_def built_def)
qed

definition demo_root_world :: world where
  "demo_root_world = demo_join_world\<lparr>wd_root_at := (\<lambda>_. Some 150)\<rparr>"

definition demo_bound :: registry where
  "demo_bound = registry0\<lparr>rg_ids := ids_bind 1 150 net_ids0, rg_spawners := [(150, Game_Fn 0)],
     rg_spawn_fn := (\<lambda>_. Game_Fn 0)(150 := Trampoline 150)\<rparr>"

lemma demo_bind: "apply_bind demo_engine demo_root_world 1 data registry0 = (True, demo_bound)"
  by (simp add: apply_bind_def demo_root_world_def demo_bound_def demo_join_world wrap_spawner_def hm_has_def hm_put_def
      registry0_def Let_def)

definition demo_built :: registry where
  "demo_built = (run (wrap_step (\<lambda>_. 0)) demo_bound (snd (demo_enter 149 160)))
     \<lparr>rg_client_spawned := [3],
      rg_ids := fold (\<lambda>(i, ob). ids_bind i ob) [(3, 160), (2, 161)] (ids_bind 1 150 net_ids0)\<rparr>"

lemma demo_build:
  "apply_spawn demo_wire demo_engine (\<lambda>_. 0) (\<lambda>_ _. Some 160) demo_join_world demo_enter 3 1
     (sr_data demo_spawn_record) demo_bound = (True, [Spawned 150 160], demo_built)"
proof -
  let ?cl = "run (wrap_step (\<lambda>_. 0)) demo_bound (snd (demo_enter 149 160))"
  have "rg_owned ?cl = [161]" "rg_client_spawned registry0 = []" "ids_object (ids_bind 1 150 net_ids0) 1 = 150"
    by (simp_all add: config_add_def demo_join_world_def demo_intercepted refresh_def Let_def split_beta demo_bound_def
        registry0_def hs_insert_def object_bind)
  then show ?thesis
    using apply_spawn_binds [where st = demo_bound and sobj = 150 and fn = "Game_Fn 0" and sp_id = 1 and Wd = demo_join_world
        and W = demo_wire and E = demo_engine and data = "sr_data demo_spawn_record" and v = VNil
        and syncs = "[\<lparr>ss_net_id = 2, ss_path = ''Sync''\<rparr>]" and rt = 149 and call_fn = "\<lambda>_ _. Some 160" and n = 160
        and enter = demo_enter and ?Wd1.0 = demo_join_world and edge = "\<lambda>_. 0" and f = "\<lambda>_. 161" and i = 3, OF _ _ _ _ _ _ _ refl]
      demo_join_world
    by (simp add: demo_record_reads hm_get_def hs_insert_def demo_built_def) (simp add: demo_bound_def hm_get_def)
qed

lemma demo_built:
  "ids_object (rg_ids demo_built) 3 = 160" "ids_object (rg_ids demo_built) 2 = 161"
  "rg_spawners demo_built = [(150, Game_Fn 0)]"
proof -
  have "ids_sound (ids_bind 1 150 net_ids0)" using ids_sound_bind [OF ids_sound0] by simp
  then have k: "ids_sound (ids_bind 3 160 (ids_bind 1 150 net_ids0))" by (rule ids_sound_bind) simp
  have "names (ids_bind 2 161 (ids_bind 3 160 (ids_bind 1 150 net_ids0))) 3 160"
    by (rule bind_keeps_name [OF k bind_names_it [OF \<open>ids_sound (ids_bind 1 150 net_ids0)\<close>]]) simp_all
  then show "ids_object (rg_ids demo_built) 3 = 160" "ids_object (rg_ids demo_built) 2 = 161"
    using names_object [OF bind_names_it [OF k, of 2 161]] by (simp_all add: demo_built_def names_object)
  show "rg_spawners demo_built = [(150, Game_Fn 0)]"
    by (simp add: demo_built_def demo_bound_def config_add_def refresh_def Let_def split_beta demo_intercepted demo_join_world_def)
qed

definition demo_client_events :: "replica_event list" where
  "demo_client_events =
     [Record_In demo_root_world demo_enter 1 BIND_SPAWNER (sr_data (bind_record demo_engine demo_spawn_world 50 1 False)),
      Record_In demo_join_world demo_enter 3 1 (sr_data demo_spawn_record)]"

lemma frees_only_spawned_witness:
  "\<exists>sp. Spawned sp 160 \<in> set (snd (run (replica_step demo_wire demo_engine (\<lambda>_. 0) (\<lambda>_ _. Some 160)) (registry0, [])
     (demo_client_events @ [Despawn_In demo_join_world 3])))"
proof (rule frees_only_spawned)
  note run = demo_client_events_def append.simps run.simps run_ok.simps replica_step.simps replica_fresh.simps client_spawn_def
    demo_bind demo_build
  have z: "rg_client_spawned registry0 = []" "rg_client_spawned demo_bound = []" "rg_client_spawned demo_built = [3]"
    by (simp_all add: registry0_def demo_bound_def demo_built_def)
  show "run_ok (replica_step demo_wire demo_engine (\<lambda>_. 0) (\<lambda>_ _. Some 160)) (replica_fresh demo_wire demo_engine)
     (registry0, []) (demo_client_events @ [Despawn_In demo_join_world 3])"
    by (simp add: run demo_record_reads z world_ok_def alive_def demo_join_world split: option.split)
  show "Queue_Free 160 \<in> set (snd (run (replica_step demo_wire demo_engine (\<lambda>_. 0) (\<lambda>_ _. Some 160)) (registry0, [])
     (demo_client_events @ [Despawn_In demo_join_world 3])))"
    by (simp add: run apply_despawn_def Let_def alive_def demo_join_world z demo_built(1))
qed

end
