(* ===== verification/Session.thy ===== *)
theory Session
  imports Replica Funnel
begin

section \<open>Sessions: what starts, what is told, what is left\<close>

text \<open>
  The state around the others of \<open>GoldNetMultiplayer\<close> and the operations that start and end a session:
  the relays of the inner's signals, \<open>_reset_client_state\<close>, \<open>_forget_peer\<close>, \<open>_end_server_session\<close>, the
  peer's setter and getter, and what follows a snapshot (\<open>apply_snapshot\<close>). The record
  \<open>session\<close> holds the registries of \<open>Registry\<close>, the messages of \<open>Messages\<close> and the send sim of
  \<open>Funnel\<close>; what the game hears and the core is told is \<open>gs_out\<close>, in order.
\<close>

subsection \<open>State\<close>

text \<open>The inner API's peer: none, the game's own, or the game's behind a receive sim. A peer is a number.\<close>

datatype inner_peer = No_Inner_Peer | Own_Peer nat | Sim_Wrapped nat

datatype session_out =
    Peer_Connected peer
  | Peer_Disconnected peer
  | Connected_To_Server
  | Connection_Failed
  | Server_Disconnected
  | Gave_Up_On net_id "objid option"
  | Rate_Granted int
  | Core_Client_Reset
  | Core_Auto_Command_Rate
  | Throttle_Configure nat nat nat nat

text \<open>\<open>gs_peers\<close> is the core server's list of peers.\<close>

record 's session =
  gs_registry :: registry
  gs_messages :: msg_end
  gs_warned :: "net_id hash_set"
  gs_granted :: int
  gs_peers :: "peer list"
  gs_sim :: 's
  gs_inner :: inner_peer
  gs_out :: "session_out list"

definition tell :: "session_out \<Rightarrow> 's session \<Rightarrow> 's session" where
  "tell x st = st\<lparr>gs_out := gs_out st @ [x]\<rparr>"

subsection \<open>Ends of a session\<close>

definition reset_client_state :: "'s session \<Rightarrow> 's session" where
  "reset_client_state st =
     (let reg = gs_registry st;
          st1 = tell Core_Client_Reset (st\<lparr>gs_registry := reg\<lparr>rg_ids := ids_forget_learned (rg_ids reg)\<rparr>\<rparr>)
      in tell Core_Auto_Command_Rate
           (st1\<lparr>gs_registry := (gs_registry st1)\<lparr>rg_client_spawned := [], rg_entity := \<lparr>ec_codings = [], ec_warned = []\<rparr>\<rparr>,
                gs_warned := [], gs_granted := - 1\<rparr>)
           \<lparr>gs_messages := (gs_messages st1)\<lparr>msg_registered := [], msg_targets := []\<rparr>\<rparr>)"

definition forget_peer :: "('s, pending_send) netsim \<Rightarrow> peer \<Rightarrow> 's session \<Rightarrow> 's session" where
  "forget_peer N p st =
     st\<lparr>gs_peers := filter (\<lambda>q. q \<noteq> p) (gs_peers st),
        gs_messages := (gs_messages st)\<lparr>msg_registered := hm_erase p (msg_registered (gs_messages st)),
                                        msg_targets := hm_erase p (msg_targets (gs_messages st))\<rparr>,
        gs_sim := ns_forget_link N p (gs_sim st)\<rparr>"

definition end_server_session :: "('s, pending_send) netsim \<Rightarrow> 's session \<Rightarrow> 's session" where
  "end_server_session N st = fold (forget_peer N) (gs_peers st) st"

subsection \<open>The inner's signals, relayed\<close>

text \<open>The game's peer, where it is an ENet one: its unique id, and the packet peer it has for an id. The throttle's
  interval, acceleration and deceleration are what is told.\<close>

record enet_peer =
  ep_unique_id :: peer
  ep_packet_peer :: "peer \<Rightarrow> nat option"

definition hold_enet_throttle :: "enet_peer option \<Rightarrow> peer \<Rightarrow> 's session \<Rightarrow> 's session" where
  "hold_enet_throttle enet p st =
     (case enet of
        None \<Rightarrow> st
      | Some e \<Rightarrow>
          if ep_unique_id e \<noteq> 1 then st
          else case ep_packet_peer e p of None \<Rightarrow> st | Some k \<Rightarrow> tell (Throttle_Configure k 5000 2 0) st)"

definition relay_peer_connected :: "enet_peer option \<Rightarrow> bool \<Rightarrow> peer \<Rightarrow> 's session \<Rightarrow> 's session" where
  "relay_peer_connected enet hosting p st =
     (let st1 = hold_enet_throttle enet p st;
          st2 = (if hosting then st1\<lparr>gs_peers := hs_insert p (gs_peers st1)\<rparr> else st1)
      in tell (Peer_Connected p) st2)"

definition relay_peer_disconnected :: "('s, pending_send) netsim \<Rightarrow> peer \<Rightarrow> 's session \<Rightarrow> 's session" where
  "relay_peer_disconnected N p st = tell (Peer_Disconnected p) (forget_peer N p st)"

definition relay_connected_to_server :: "'s session \<Rightarrow> 's session" where
  "relay_connected_to_server st = tell Connected_To_Server (reset_client_state st)"

definition relay_connection_failed :: "'s session \<Rightarrow> 's session" where
  "relay_connection_failed st = tell Connection_Failed st"

definition relay_server_disconnected :: "('s, pending_send) netsim \<Rightarrow> 's session \<Rightarrow> 's session" where
  "relay_server_disconnected N st =
     (let st1 = reset_client_state (end_server_session N st)
      in tell Server_Disconnected (st1\<lparr>gs_sim := ns_forget_link N 1 (gs_sim st1)\<rparr>))"

subsection \<open>Setting the peer\<close>

text \<open>\<open>p\<close> is the peer set, with its unique id. The receive sim's settings are \<open>new_peer_sim\<close> of \<open>Sim_Config\<close>.\<close>

definition set_multiplayer_peer ::
  "('s, pending_send) netsim \<Rightarrow> world \<Rightarrow> node_tree option \<Rightarrow> (nat \<times> peer) option \<Rightarrow> 's session \<Rightarrow> 's session" where
  "set_multiplayer_peer N Wd tr p st =
     (let st1 = st\<lparr>gs_registry := capture_spawners Wd tr (gs_registry st)\<rparr>;
          st2 = end_server_session N st1
      in case p of
           Some (k, i) \<Rightarrow> st2\<lparr>gs_inner := (if i \<noteq> 1 then Sim_Wrapped k else Own_Peer k)\<rparr>
         | None \<Rightarrow> st2\<lparr>gs_inner := No_Inner_Peer\<rparr>)"

definition get_multiplayer_peer :: "'s session \<Rightarrow> nat option" where
  "get_multiplayer_peer st =
     (case gs_inner st of No_Inner_Peer \<Rightarrow> None | Own_Peer k \<Rightarrow> Some k | Sim_Wrapped k \<Rightarrow> Some k)"

subsection \<open>A snapshot's aftermath\<close>

fun give_up_loop :: "world \<Rightarrow> net_id list \<Rightarrow> 's session \<Rightarrow> 's session" where
  "give_up_loop Wd [] st = st"
| "give_up_loop Wd (i # is) st =
     give_up_loop Wd is
       (if i \<in> set (gs_warned st) then st
        else tell (Gave_Up_On i (sync_from_objid Wd (ids_object (rg_ids (gs_registry st)) i)))
               (st\<lparr>gs_warned := hs_insert i (gs_warned st)\<rparr>))"

text \<open>\<open>applied\<close> is the core's \<open>apply\<close>, which calls \<open>ClientHost\<close>; it answers with the ids it gave up on and
  the rate the server last granted.\<close>

definition apply_snapshot ::
  "(registry \<Rightarrow> net_id list \<times> int \<times> registry) \<Rightarrow> world \<Rightarrow> 's session \<Rightarrow> 's session" where
  "apply_snapshot applied Wd st =
     (let (given_up, granted, reg) = applied (gs_registry st);
          st1 = give_up_loop Wd given_up (st\<lparr>gs_registry := reg\<rparr>)
      in if granted \<noteq> gs_granted st1 then tell (Rate_Granted granted) (st1\<lparr>gs_granted := granted\<rparr>) else st1)"

subsection \<open>What a session leaves\<close>

lemma tell_simps [simp]:
  "gs_registry (tell x st) = gs_registry st" "gs_messages (tell x st) = gs_messages st" "gs_warned (tell x st) = gs_warned st"
  "gs_granted (tell x st) = gs_granted st" "gs_peers (tell x st) = gs_peers st" "gs_sim (tell x st) = gs_sim st"
  "gs_inner (tell x st) = gs_inner st" "gs_out (tell x st) = gs_out st @ [x]"
  by (simp_all add: tell_def)

lemma forget_peers:
  "gs_registry (fold (forget_peer N) ps st) = gs_registry st" "gs_out (fold (forget_peer N) ps st) = gs_out st"
  "gs_warned (fold (forget_peer N) ps st) = gs_warned st" "gs_granted (fold (forget_peer N) ps st) = gs_granted st"
  "gs_inner (fold (forget_peer N) ps st) = gs_inner st"
  "gs_peers (fold (forget_peer N) ps st) = filter (\<lambda>q. q \<notin> set ps) (gs_peers st)"
  "msg_ids (gs_messages (fold (forget_peer N) ps st)) = msg_ids (gs_messages st)"
  "hm_get (msg_registered (gs_messages (fold (forget_peer N) ps st))) q =
     (if q \<in> set ps then None else hm_get (msg_registered (gs_messages st)) q)"
  "hm_get (msg_targets (gs_messages (fold (forget_peer N) ps st))) q =
     (if q \<in> set ps then None else hm_get (msg_targets (gs_messages st)) q)"
  by (induction ps arbitrary: st) (auto simp: forget_peer_def hm_get_erase intro: filter_cong)

lemma forget_peers_sim:
  "netsim_ok N pd_peer kept \<Longrightarrow>
     kept (gs_sim (fold (forget_peer N) ps st)) = filter_mset (\<lambda>x. pd_peer x \<notin> set ps) (kept (gs_sim st))"
  by (induction ps arbitrary: st)
    (auto simp: forget_peer_def netsim_okD(7) filter_filter_mset intro: filter_mset_cong)

lemma reset_simps [simp]:
  "gs_peers (reset_client_state st) = gs_peers st" "gs_sim (reset_client_state st) = gs_sim st"
  "gs_warned (reset_client_state st) = []" "gs_granted (reset_client_state st) = - 1"
  "rg_ids (gs_registry (reset_client_state st)) = ids_forget_learned (rg_ids (gs_registry st))"
  "rg_client_spawned (gs_registry (reset_client_state st)) = []"
  "rg_entity (gs_registry (reset_client_state st)) = \<lparr>ec_codings = [], ec_warned = []\<rparr>"
  "rg_owned (gs_registry (reset_client_state st)) = rg_owned (gs_registry st)"
  "msg_registered (gs_messages (reset_client_state st)) = []" "msg_targets (gs_messages (reset_client_state st)) = []"
  "msg_ids (gs_messages (reset_client_state st)) = msg_ids (gs_messages st)"
  by (simp_all add: reset_client_state_def tell_def Let_def)

subsection \<open>Snapshots over a session\<close>

definition gave_up :: "session_out list \<Rightarrow> net_id list" where
  "gave_up outs = concat (map (\<lambda>x. case x of Gave_Up_On i ob \<Rightarrow> [i] | _ \<Rightarrow> []) outs)"

definition granted_told :: "session_out list \<Rightarrow> int list" where
  "granted_told outs = concat (map (\<lambda>x. case x of Rate_Granted g \<Rightarrow> [g] | _ \<Rightarrow> []) outs)"

lemma told_simps [simp]:
  "gave_up (xs @ ys) = gave_up xs @ gave_up ys" "granted_told (xs @ ys) = granted_told xs @ granted_told ys"
  "gave_up [] = []" "granted_told [] = []"
  "gave_up [Gave_Up_On i ob] = [i]" "granted_told [Gave_Up_On i ob] = []"
  "gave_up [Rate_Granted g] = []" "granted_told [Rate_Granted g] = [g]"
  by (simp_all add: gave_up_def granted_told_def)

lemma give_up_loop_told:
  "gs_granted (give_up_loop Wd is st) = gs_granted st \<and>
   granted_told (gs_out (give_up_loop Wd is st)) = granted_told (gs_out st) \<and>
   (distinct (gave_up (gs_out st)) \<and> set (gs_warned st) = set (gave_up (gs_out st)) \<longrightarrow>
    distinct (gave_up (gs_out (give_up_loop Wd is st))) \<and>
    set (gs_warned (give_up_loop Wd is st)) = set (gave_up (gs_out (give_up_loop Wd is st))) \<and>
    set (gave_up (gs_out (give_up_loop Wd is st))) = set (gave_up (gs_out st)) \<union> set is)"
proof (induction "is" arbitrary: st)
  case (Cons i "is")
  show ?case
  proof (cases "i \<in> set (gs_warned st)")
    case True
    then show ?thesis using Cons.IH [of st] by auto
  next
    case False
    let ?s = "tell (Gave_Up_On i (sync_from_objid Wd (ids_object (rg_ids (gs_registry st)) i)))
               (st\<lparr>gs_warned := hs_insert i (gs_warned st)\<rparr>)"
    show ?thesis using Cons.IH [of ?s] False by auto
  qed
qed simp

fun session_snapshots ::
  "((registry \<Rightarrow> net_id list \<times> int \<times> registry) \<times> world) list \<Rightarrow> 's session \<Rightarrow> net_id list \<times> int list \<times> 's session" where
  "session_snapshots [] st = ([], [], st)"
| "session_snapshots ((applied, Wd) # xs) st =
     (let (given_up, granted, reg) = applied (gs_registry st);
          (is, gs, st1) = session_snapshots xs (apply_snapshot applied Wd st)
      in (given_up @ is, granted # gs, st1))"

lemma session_snapshots_told:
  assumes "session_snapshots xs st = (is, gs, st1)"
    and "distinct (gave_up (gs_out st))" "set (gs_warned st) = set (gave_up (gs_out st))"
  shows "distinct (gave_up (gs_out st1)) \<and> set (gave_up (gs_out st1)) = set (gave_up (gs_out st)) \<union> set is \<and>
    granted_told (gs_out st1) = granted_told (gs_out st) @ tl (remdups_adj (gs_granted st # gs))"
  using assms
proof (induction xs arbitrary: st "is" gs)
  case (Cons x xs)
  obtain applied Wd where x: "x = (applied, Wd)" by (cases x)
  obtain given_up granted reg where a: "applied (gs_registry st) = (given_up, granted, reg)" by (metis prod_cases3)
  obtain is1 gs1 where r: "session_snapshots xs (apply_snapshot applied Wd st) = (is1, gs1, st1)"
    "is = given_up @ is1" "gs = granted # gs1"
    using Cons.prems(1) x a by (auto simp: split_beta Let_def prod_eq_iff)
  note loop = give_up_loop_told [of Wd given_up "st\<lparr>gs_registry := reg\<rparr>"]
  have s: "distinct (gave_up (gs_out (apply_snapshot applied Wd st)))"
    "set (gs_warned (apply_snapshot applied Wd st)) = set (gave_up (gs_out (apply_snapshot applied Wd st)))"
    "set (gave_up (gs_out (apply_snapshot applied Wd st))) = set (gave_up (gs_out st)) \<union> set given_up"
    "gs_granted (apply_snapshot applied Wd st) = granted"
    "granted_told (gs_out (apply_snapshot applied Wd st)) =
       granted_told (gs_out st) @ (if granted = gs_granted st then [] else [granted])"
    using loop Cons.prems(2,3) by (auto simp: apply_snapshot_def a Let_def)
  show ?case
    using Cons.IH [OF r(1) s(1,2)] s(3-5) r(2,3) by (auto simp: Un_assoc)
qed simp

subsection \<open>Properties\<close>

text \<open>C16: what the end of a session leaves, exactly. Once the server is gone (a client's, or a host's own peer
  closing), no id a server taught names anything while every id this end handed out still names what it did, no
  spawned node is remembered, no coding, no warning and no granted rate; no message registration and no message
  target of any peer is kept. The send sim forgets the calls it held for a peer of the session or for the server,
  and no others: a deferred broadcast is held under the id it was made to, 0 or the negative of a peer's,
  which nothing forgets, so it stays, to be made in the next session.\<close>

theorem session_end_exact:
  assumes "netsim_ok N pd_peer kept" "ids_inv (rg_ids (gs_registry st))" "st1 = relay_server_disconnected N st"
  shows "ids_inv (rg_ids (gs_registry st1)) \<and>
    hm_get (by_id (rg_ids (gs_registry st1))) i =
      (case hm_get (by_id (rg_ids (gs_registry st))) i of
         Some e \<Rightarrow> if e_learned e then None else Some e | None \<Rightarrow> None) \<and>
    rg_client_spawned (gs_registry st1) = [] \<and> ec_codings (rg_entity (gs_registry st1)) = [] \<and>
    gs_warned st1 = [] \<and> gs_granted st1 = - 1 \<and>
    msg_registered (gs_messages st1) = [] \<and> msg_targets (gs_messages st1) = [] \<and> gs_peers st1 = [] \<and>
    kept (gs_sim st1) = filter_mset (\<lambda>x. pd_peer x \<notin> set (gs_peers st) \<and> pd_peer x \<noteq> 1) (kept (gs_sim st)) \<and>
    (list_all (\<lambda>t. 0 < t) (gs_peers st) \<longrightarrow>
       filter_mset (\<lambda>x. pd_peer x \<le> 0) (kept (gs_sim st1)) = filter_mset (\<lambda>x. pd_peer x \<le> 0) (kept (gs_sim st)))"
proof -
  have sim: "kept (gs_sim st1) = filter_mset (\<lambda>x. pd_peer x \<notin> set (gs_peers st) \<and> pd_peer x \<noteq> 1) (kept (gs_sim st))"
    using forget_peers_sim [OF assms(1), of "gs_peers st" st] netsim_okD(7) [OF assms(1)]
    by (simp add: assms(3) relay_server_disconnected_def end_server_session_def Let_def filter_filter_mset)
  have "filter_mset (\<lambda>x. pd_peer x \<le> 0) (kept (gs_sim st1)) = filter_mset (\<lambda>x. pd_peer x \<le> 0) (kept (gs_sim st))"
    if "list_all (\<lambda>t. 0 < t) (gs_peers st)"
    unfolding sim filter_filter_mset using that by (intro filter_mset_cong refl) (auto simp: list_all_iff)
  then show ?thesis
    using forget_by_id [OF assms(2)] assms(2) sim
    by (simp add: assms(3) relay_server_disconnected_def end_server_session_def Let_def forget_peers
        ids_forget_learned_def ids_inv_drops)
qed

definition demo_session :: "(int \<times> pending_send list) session" where
  "demo_session =
     \<lparr>gs_registry = registry0\<lparr>rg_ids := ids_bind 5 30 net_ids0, rg_client_spawned := [5]\<rparr>,
      gs_messages = msg_end0\<lparr>msg_targets := [(1, [])]\<rparr>, gs_warned = [7], gs_granted = 30, gs_peers = [],
      gs_sim = (8, [demo_call 1, demo_call 0]), gs_inner = Sim_Wrapped 0, gs_out = []\<rparr>"

lemma session_end_exact_witness:
  "hm_get (by_id (rg_ids (gs_registry (relay_server_disconnected demo_link demo_session)))) 5 = None \<and>
   mset (snd (gs_sim (relay_server_disconnected demo_link demo_session))) = {#demo_call 0#}"
proof -
  have "ids_inv (rg_ids (gs_registry demo_session))"
    by (simp add: demo_session_def ids_inv_bind ids_inv0)
  moreover have "hm_get (by_id (rg_ids (gs_registry demo_session))) 5 = Some \<lparr>e_obj = 30, e_learned = True\<rparr>"
    using ids_inv0 by (simp add: demo_session_def ids_bind_by_id)
  moreover have "pd_peer (demo_call p) = p" for p by (simp add: demo_call_def)
  ultimately show ?thesis
    using session_end_exact [OF demo_link_ok _ refl, of demo_session 5]
    by (simp add: demo_session_def)
qed

text \<open>The game hears of each trouble once and of each change of rate: over the snapshots of a session it is
  warned exactly once of every id the core gave up on, and is told the granted update rate exactly when
  it differs from the last it was told (from -1 at the session's start).\<close>

theorem snapshot_news_once:
  assumes "gs_out st = []" "gs_warned st = []" "gs_granted st = - 1"
    and "session_snapshots xs st = (given_up, granted, st1)"
  shows "distinct (gave_up (gs_out st1)) \<and> set (gave_up (gs_out st1)) = set given_up \<and>
    granted_told (gs_out st1) = tl (remdups_adj (- 1 # granted))"
  using session_snapshots_told [OF assms(4)] assms(1-3) by simp

lemma snapshot_news_once_witness:
  "granted_told (gs_out (snd (snd (session_snapshots
     [(\<lambda>reg. ([4, 4], - 1, reg), world0), (\<lambda>reg. ([4], 30, reg), world0), (\<lambda>reg. ([], 30, reg), world0)]
     (demo_session\<lparr>gs_warned := [], gs_granted := - 1\<rparr>))))) = [30]"
proof -
  let ?st = "demo_session\<lparr>gs_warned := [], gs_granted := - 1\<rparr>"
  let ?xs = "[(\<lambda>reg. ([4, 4], - 1, reg), world0), (\<lambda>reg. ([4], 30, reg), world0), (\<lambda>reg. ([], 30, reg), world0)]"
  have "fst (snd (session_snapshots ?xs ?st)) = [- 1, 30, 30]"
    by (simp add: split_beta Let_def)
  then show ?thesis
    using snapshot_news_once [of ?st ?xs "fst (session_snapshots ?xs ?st)" "fst (snd (session_snapshots ?xs ?st))"
        "snd (snd (session_snapshots ?xs ?st))"]
    by (simp add: demo_session_def prod_eq_iff)
qed

text \<open>Swapping a client's peer for another keeps the old session's client state: whatever peer is set, the
  ids an old server taught, the record of the nodes spawned for it, the warnings and the granted rate stay,
  unlike at any other end of a session, and the game gets its own peer back, never the sim around it.\<close>

theorem peer_swap_keeps_client_state:
  "rg_ids (gs_registry (set_multiplayer_peer N Wd tr p st)) = rg_ids (gs_registry st) \<and>
   rg_client_spawned (gs_registry (set_multiplayer_peer N Wd tr p st)) = rg_client_spawned (gs_registry st) \<and>
   gs_warned (set_multiplayer_peer N Wd tr p st) = gs_warned st \<and>
   gs_granted (set_multiplayer_peer N Wd tr p st) = gs_granted st \<and>
   get_multiplayer_peer (set_multiplayer_peer N Wd tr p st) = map_option fst p"
proof -
  have "rg_ids (capture_spawners Wd tr reg) = rg_ids reg \<and>
      rg_client_spawned (capture_spawners Wd tr reg) = rg_client_spawned reg" for reg
    by (simp add: capture_spawners_def split: option.split)
  then show ?thesis
    by (auto simp: set_multiplayer_peer_def end_server_session_def forget_peers get_multiplayer_peer_def Let_def
        split: option.split)
qed

end
