(* ===== verification/Api.thy ===== *)
theory Api
  imports Session
begin

section \<open>The whole API: one poll\<close>

text \<open>
  \<open>_poll\<close> composed of the parts: the uplink and the pump of \<open>Funnel\<close>, the link node of \<open>_ensure_link\<close>, the
  server's spawns, despawns and tick of \<open>Registry\<close> at the deadline of \<open>Cadence\<close>. The inner API's own poll,
  with whatever it calls back, is a parameter; so is the core, whose sends during a tick are \<open>host_send\<close>
  of \<open>Funnel\<close>. With it the entry of a snapshot and of an uplink packet and the statistics of a peer.
  The statistics print of \<open>_poll\<close>, which touches nothing else, is in \<open>Rpc_Stats\<close>.
\<close>

subsection \<open>The link node\<close>

text \<open>The carrier at \<open>/root/__GoldNetLink\<close>, as the tree has it: its authority and its RPC configuration.\<close>

record link_node =
  lk_authority :: peer
  lk_rpcs :: "(string \<times> (string \<times> variant) list) list"

definition link_rpc_cfg :: "(string \<times> variant) list" where
  "link_rpc_cfg =
     [(''rpc_mode'', VInt (ucast RPC_MODE_ANY_PEER)), (''transfer_mode'', VInt (ucast MODE_UNRELIABLE)),
      (''call_local'', VBool False), (''channel'', VInt 0)]"

definition new_link :: link_node where
  "new_link = \<lparr>lk_authority = 1, lk_rpcs = [(''_gn_recv'', link_rpc_cfg), (''_gn_up'', link_rpc_cfg)]\<rparr>"

text \<open>\<open>tr\<close> is the tree's root with all below it, where there is one.\<close>

definition ensure_link ::
  "world \<Rightarrow> node_tree option \<Rightarrow> link_node option \<Rightarrow> registry \<Rightarrow> link_node option \<times> registry" where
  "ensure_link Wd tr link st =
     (if tr = None then (None, st)
      else (Some (case link of Some l \<Rightarrow> l | None \<Rightarrow> new_link), capture_spawners Wd tr st))"

subsection \<open>One poll\<close>

record 's api =
  ap_registry :: registry
  ap_funnel :: "'s funnel"
  ap_link :: "link_node option"

definition link_up :: "world \<Rightarrow> node_tree option \<Rightarrow> 's api \<Rightarrow> 's api" where
  "link_up Wd tr st =
     (let (l, reg) = ensure_link Wd tr (ap_link st) (ap_registry st)
      in st\<lparr>ap_registry := reg, ap_link := (if l = None then ap_link st else l)\<rparr>)"

text \<open>The server's part: \<open>now_us\<close> for the deadline, \<open>now_ms\<close> for the tick.\<close>

definition poll_server ::
  "wire \<Rightarrow> engine \<Rightarrow> nat \<Rightarrow> world \<Rightarrow> node_tree option \<Rightarrow> bool \<Rightarrow> bool \<Rightarrow> u64 \<Rightarrow> u32 \<Rightarrow> registry \<Rightarrow> registry" where
  "poll_server W E cap Wd tr manual has_peers now_us now_ms st =
     (let st1 = detect_despawns Wd (drain_pending_spawns W E Wd st)
      in if \<not> manual \<and> has_peers then
           let (tick, c) = poll_send now_us (rg_cadence st1);
               st2 = st1\<lparr>rg_cadence := c\<rparr>
           in if tick then server_tick E cap Wd tr now_ms st2 else st2
         else st1)"

text \<open>From the inner's poll on, with the engine's answers after it.\<close>

definition poll_rest ::
  "wire \<Rightarrow> ('s, pending_send) netsim \<Rightarrow> engine \<Rightarrow> nat \<Rightarrow> funnel_env \<Rightarrow> world \<Rightarrow> node_tree option \<Rightarrow> bool \<Rightarrow>
   u64 \<Rightarrow> u32 \<Rightarrow> 's api \<Rightarrow> 's api" where
  "poll_rest W N E cap V Wd tr manual now_us now_ms st =
     (let st1 = link_up Wd tr st;
          st2 = st1\<lparr>ap_funnel := pump_sends N V (ap_funnel st1)\<rparr>
      in if fe_status V = None \<or> fe_status V = Some Disconnected_Peer then st2
         else if fe_unique V = 1
         then st2\<lparr>ap_registry := poll_server W E cap Wd tr manual (fe_peers V \<noteq> []) now_us now_ms (ap_registry st2)\<rparr>
         else st2)"

text \<open>\<open>due\<close> and \<open>bs\<close> are the core's: whether an uplink packet is due, and its bytes. \<open>inner_poll\<close> is the
  inner API's poll, with everything it calls back.\<close>

definition poll ::
  "wire \<Rightarrow> ('s, pending_send) netsim \<Rightarrow> engine \<Rightarrow> nat \<Rightarrow> funnel_env \<Rightarrow> funnel_env \<Rightarrow> world \<Rightarrow> node_tree option \<Rightarrow>
   ('s api \<Rightarrow> 's api) \<Rightarrow> bool \<Rightarrow> bytes \<Rightarrow> bool \<Rightarrow> u64 \<Rightarrow> u32 \<Rightarrow> 's api \<Rightarrow> 's api option" where
  "poll W N E cap V V1 Wd tr inner_poll due bs manual now_us now_ms st =
     (let st0 = (if fe_status V = Some Connected_Peer \<and> fe_unique V \<noteq> 1 \<and> due then link_up Wd tr st else st)
      in map_option (\<lambda>f. poll_rest W N E cap V1 Wd tr manual now_us now_ms (inner_poll (st0\<lparr>ap_funnel := f\<rparr>)))
           (send_uplink N E V due bs (ap_funnel st0)))"

subsection \<open>An uplink packet\<close>

text \<open>\<open>on_uplink\<close>: only a host hands the core the packet; \<open>uplink_schema\<close> is \<open>UplinkHost::command_schema\<close>.\<close>

definition on_uplink :: "(peer \<Rightarrow> bytes \<Rightarrow> 'c \<Rightarrow> 'c) \<Rightarrow> peer \<Rightarrow> peer \<Rightarrow> bytes \<Rightarrow> 'c \<Rightarrow> 'c" where
  "on_uplink receive unique p bs st = (if unique \<noteq> 1 then st else receive p bs st)"

definition uplink_schema ::
  "engine \<Rightarrow> nat \<Rightarrow> (string \<Rightarrow> u32) \<Rightarrow> (objid \<Rightarrow> command_node option) \<Rightarrow> scene_tree option \<Rightarrow> u64 \<Rightarrow> u32 \<Rightarrow>
   target_state \<Rightarrow> field_kind list option \<times> target_state" where
  "uplink_schema E cap hash inst tree now stream st =
     (let (t, st1) = command_target E cap hash inst tree now stream st
      in (map_option (\<lambda>t. cs_kinds (ct_sig t)) t, st1))"

text \<open>\<open>GoldNetLink\<close>'s two methods, the targets of the RPCs that carry the packets: \<open>gn\<close> is whether the API of the
  node's tree is a \<open>GoldNetMultiplayer\<close>.\<close>

definition gn_recv :: "bool \<Rightarrow> (registry \<Rightarrow> net_id list \<times> int \<times> registry) \<Rightarrow> world \<Rightarrow> 's session \<Rightarrow> 's session" where
  "gn_recv gn applied Wd st = (if gn then apply_snapshot applied Wd st else st)"

definition gn_up :: "bool \<Rightarrow> (peer \<Rightarrow> bytes \<Rightarrow> 'c \<Rightarrow> 'c) \<Rightarrow> peer \<Rightarrow> peer \<Rightarrow> bytes \<Rightarrow> 'c \<Rightarrow> 'c" where
  "gn_up gn receive unique sender bs st = (if gn then on_uplink receive unique sender bs st else st)"

subsection \<open>A peer's statistics\<close>

record server_stats =
  sv_chokes :: u64
  sv_messages_queued :: u64
  sv_messages_delivered :: u64
  sv_rate :: u64
  sv_update_rate :: u64
  sv_uplink_lag_ms :: u64
  sv_uplink_pps :: u64
  sv_silent_ms :: u64

record client_stats =
  cl_snapshots_received :: u64
  cl_snapshots_lost :: u64
  cl_messages_queued :: u64
  cl_messages_delivered :: u64
  cl_commands_pending :: u64
  cl_commands_dropped :: u64
  cl_command_rtt_ms :: u64
  cl_rate :: u64
  cl_update_rate_granted :: int
  cl_command_interval_ms :: u32
  cl_downlink_lag_ms :: u64
  cl_uplink_lag_ms :: u64
  cl_uplink_pps :: u64
  cl_delivered_bps :: f64
  cl_silent_ms :: u64

text \<open>\<open>sv0\<close> and \<open>cl0\<close> are the core's fresh ones; \<open>recv\<close> is the receive sim's two counters, where there is one.\<close>

definition get_peer_stats ::
  "bool \<Rightarrow> server_stats \<Rightarrow> client_stats \<Rightarrow> server_stats \<Rightarrow> client_stats \<Rightarrow> (u64 \<times> u64) option \<Rightarrow> (string \<times> variant) list" where
  "get_peer_stats on_server sv0 cl0 sv_now cl_now recv =
     (let sv = (if on_server then sv_now else sv0);
          cl = (if on_server then cl0 else cl_now);
          (bytes, packets) = (case recv of Some x \<Rightarrow> if on_server then (0, 0) else x | None \<Rightarrow> (0, 0))
      in [(''silent_ms'', VInt (if on_server then sv_silent_ms sv else cl_silent_ms cl)),
          (''chokes'', VInt (sv_chokes sv)),
          (''snapshots_received'', VInt (cl_snapshots_received cl)),
          (''snapshots_lost'', VInt (cl_snapshots_lost cl)),
          (''messages_queued'', VInt (if on_server then sv_messages_queued sv else cl_messages_queued cl)),
          (''messages_delivered'', VInt (if on_server then sv_messages_delivered sv else cl_messages_delivered cl)),
          (''commands_pending'', VInt (cl_commands_pending cl)),
          (''commands_dropped'', VInt (cl_commands_dropped cl)),
          (''command_rtt_ms'', VInt (cl_command_rtt_ms cl)),
          (''recv_sim_bytes'', VInt bytes),
          (''recv_sim_packets'', VInt packets),
          (''rate'', VInt (if on_server then sv_rate sv else cl_rate cl)),
          (''update_rate'', VInt (if on_server then sv_update_rate sv else of_int (max (cl_update_rate_granted cl) 0))),
          (''command_rate'', VFloat (if cl_command_interval_ms cl = 0 then 0
                                     else f64_div 0x408F400000000000 (f64_of_int (uint (cl_command_interval_ms cl))))),
          (''downlink_lag_ms'', VInt (cl_downlink_lag_ms cl)),
          (''uplink_lag_ms'', VInt (if on_server then sv_uplink_lag_ms sv else cl_uplink_lag_ms cl)),
          (''uplink_pps'', VInt (if on_server then sv_uplink_pps sv else cl_uplink_pps cl)),
          (''delivered_bps'', VFloat (cl_delivered_bps cl))])"

lemma peer_stats_one_end:
  "get_peer_stats True sv0 cl0 sv cl recv = get_peer_stats True sv0 cl0 sv cl1 recv1"
  "get_peer_stats False sv0 cl0 sv cl recv = get_peer_stats False sv0 cl0 sv1 cl recv"
  by (simp_all add: get_peer_stats_def split: option.split prod.split)

subsection \<open>The link's RPCs\<close>

definition link_object :: "objid \<Rightarrow> link_node \<Rightarrow> rpc_object" where
  "link_object i l =
     \<lparr>ro_id = i, ro_node_cfg = Some (VDict (map (\<lambda>(m, cfg). (VString m, VDict (map (\<lambda>(k, v). (VString k, v)) cfg))) (lk_rpcs l))),
      ro_script_cfg = None, ro_authority = lk_authority l\<rparr>"

text \<open>Both ends' packets may be dropped, come from anyone, and are never called locally: what the snapshot and
  the uplink rely on.\<close>

lemma link_rpcs:
  assumes "m = ''_gn_recv'' \<or> m = ''_gn_up''" "to_int E (VInt 0) = 0" "to_int E (VInt 1) = 1"
  shows "rpc_is_unreliable_now E (link_object i new_link) m"
    and "\<exists>cfg. rpc_method_config (link_object i new_link) m = Some cfg \<and> rpc_permitted E cfg a p"
  using assms
  by (auto simp: rpc_is_unreliable_now_def rpc_method_config_def has_method_def link_object_def new_link_def link_rpc_cfg_def
      dict_get_def text_of_def as_dict_def cfg_int_def rpc_permitted_def Let_def)

lemma fold_wrap_scanned: "rg_scanned (fold wrap_spawner sps st) = rg_scanned st"
  by (induction sps arbitrary: st) (simp_all add: wrap_spawner_def)

lemma ensure_link_idempotent:
  "ensure_link Wd tr link st = (l, st1) \<Longrightarrow> tr \<noteq> None \<Longrightarrow> ensure_link Wd tr l st1 = (l, st1)"
  by (auto simp: ensure_link_def capture_spawners_def fold_wrap_scanned)

subsection \<open>The order of a poll's calls\<close>

fun is_spawn :: "core_call \<Rightarrow> bool" where
  "is_spawn (Add_Spawn i rec) = True"
| "is_spawn _ = False"

fun is_entity :: "core_call \<Rightarrow> bool" where
  "is_entity (Add_Entity i layout d rec) = True"
| "is_entity _ = False"

lemma drain_one_adds: "\<exists>new. rg_calls (snd (drain_one W E Wd n ps st)) = rg_calls st @ new \<and> list_all is_spawn new"
proof (cases "drainable Wd st (n, ps)")
  case True
  obtain fin st1 where one: "drain_one W E Wd n ps st = (fin, st1)" by (cases "drain_one W E Wd n ps st")
  show ?thesis
    using drain_one_spec(9) [OF one True ids_ext_refl] one by (auto simp: spawn_call_def Let_def)
qed (simp add: drain_one_skips)

lemma drain_loop_adds: "\<exists>new. rg_calls (snd (drain_loop W E Wd items st)) = rg_calls st @ new \<and> list_all is_spawn new"
proof (induction items arbitrary: st)
  case (Cons item items)
  obtain n ps where item: "item = (n, ps)" by (cases item)
  obtain a where a: "rg_calls (snd (drain_one W E Wd n ps st)) = rg_calls st @ a" "list_all is_spawn a"
    using drain_one_adds by blast
  obtain b where "rg_calls (snd (drain_loop W E Wd items (snd (drain_one W E Wd n ps st)))) =
      rg_calls (snd (drain_one W E Wd n ps st)) @ b" "list_all is_spawn b"
    using Cons.IH by blast
  then show ?case using a by (intro exI [of _ "a @ b"]) (simp add: item split_beta)
qed simp

lemma drain_adds: "\<exists>new. rg_calls (drain_pending_spawns W E Wd st) = rg_calls st @ new \<and> list_all is_spawn new"
  using drain_loop_adds [of W E Wd "rg_pending st" st]
  by (auto simp: drain_pending_spawns_def split_beta Let_def)

lemma add_loop_adds: "\<exists>new. rg_calls (snd (add_loop E cap Wd sos st)) = rg_calls st @ new \<and> list_all is_entity new"
proof (induction sos arbitrary: st)
  case (Cons so sos)
  have "\<exists>a. rg_calls (snd (add_entity E cap Wd so st)) = rg_calls st @ a \<and> list_all is_entity a"
    by (simp add: add_entity_def Let_def split_beta)
  then obtain a where a: "rg_calls (snd (add_entity E cap Wd so st)) = rg_calls st @ a" "list_all is_entity a" by blast
  obtain b where "rg_calls (snd (add_loop E cap Wd sos (snd (add_entity E cap Wd so st)))) =
      rg_calls (snd (add_entity E cap Wd so st)) @ b" "list_all is_entity b"
    using Cons.IH by blast
  then show ?case using a by (intro exI [of _ "a @ b"]) (simp add: split_beta)
qed simp

lemma capture_calls [simp]: "rg_calls (capture_spawners Wd tr st) = rg_calls st"
proof -
  have "rg_calls (fold wrap_spawner sps s) = rg_calls s" for sps s
    by (induction sps arbitrary: s) (simp_all add: wrap_spawner_def)
  then show ?thesis by (simp add: capture_spawners_def split: option.split)
qed

lemma tick_adds:
  "tr \<noteq> None \<Longrightarrow> \<exists>new. rg_calls (server_tick E cap Wd tr now st) = rg_calls st @ new @ [Core_Tick now] \<and> list_all is_entity new"
  using add_loop_adds [of E cap Wd "rg_to_add (capture_spawners Wd tr st)" "capture_spawners Wd tr st"]
  by (auto simp: server_tick_def add_entities_def split_beta Let_def)

lemma detect_adds: "\<exists>gone. rg_calls (detect_despawns Wd st) = rg_calls st @ map Despawn gone"
  by (auto simp: detect_despawns_def Let_def fold_despawn_spawned fold_despawn_bound intro: exI [of _ "a @ b" for a b])

lemma drain_cadence [simp]: "rg_cadence (drain_pending_spawns W E Wd st) = rg_cadence st"
proof -
  have one: "rg_cadence (snd (drain_one W E Wd n ps s)) = rg_cadence s" for n ps s
    by (simp add: drain_one_def spawner_net_id_def core_def Let_def split_beta)
  have "rg_cadence (snd (drain_loop W E Wd items s)) = rg_cadence s" for items s
  proof (induction items arbitrary: s)
    case (Cons item items)
    then show ?case by (cases item) (simp add: split_beta one)
  qed simp
  then show ?thesis by (simp add: drain_pending_spawns_def Let_def split_beta)
qed

lemma detect_cadence [simp]: "rg_cadence (detect_despawns Wd st) = rg_cadence st"
proof -
  have "rg_cadence (fold despawn_spawned is s) = rg_cadence s" "rg_cadence (fold despawn_bound is s) = rg_cadence s" for "is" s
    by (induction "is" arbitrary: s) (simp_all add: despawn_spawned_def despawn_bound_def core_def)
  then show ?thesis by (simp add: detect_despawns_def Let_def)
qed

lemma capture_cadence [simp]: "rg_cadence (capture_spawners Wd tr st) = rg_cadence st"
proof -
  have "rg_cadence (fold wrap_spawner sps s) = rg_cadence s" for sps s
    by (induction sps arbitrary: s) (simp_all add: wrap_spawner_def)
  then show ?thesis by (simp add: capture_spawners_def split: option.split)
qed

lemma poll_server_order:
  "\<exists>spawns gone ents. rg_calls (poll_server W E cap Wd tr manual has_peers now_us now_ms st) =
      rg_calls st @ spawns @ map Despawn gone @ ents @
        (if \<not> manual \<and> has_peers \<and> tr \<noteq> None \<and> fst (poll_send now_us (rg_cadence st)) then [Core_Tick now_ms] else []) \<and>
     list_all is_spawn spawns \<and> list_all is_entity ents \<and>
     (ents = [] \<or> \<not> manual \<and> has_peers \<and> tr \<noteq> None \<and> fst (poll_send now_us (rg_cadence st)))"
proof -
  let ?d = "drain_pending_spawns W E Wd st"
  let ?e = "detect_despawns Wd ?d"
  let ?go = "\<not> manual \<and> has_peers \<and> tr \<noteq> None \<and> fst (poll_send now_us (rg_cadence st))"
  let ?s = "?e\<lparr>rg_cadence := snd (poll_send now_us (rg_cadence st))\<rparr>"
  obtain spawns where a: "rg_calls ?d = rg_calls st @ spawns" "list_all is_spawn spawns" using drain_adds by blast
  obtain gone where b: "rg_calls ?e = rg_calls ?d @ map Despawn gone" using detect_adds by blast
  show ?thesis
  proof (cases ?go)
    case True
    then obtain ents where c: "rg_calls (server_tick E cap Wd tr now_ms ?s) = rg_calls ?s @ ents @ [Core_Tick now_ms]"
      "list_all is_entity ents" using tick_adds by blast
    have "poll_server W E cap Wd tr manual has_peers now_us now_ms st = server_tick E cap Wd tr now_ms ?s"
      using True by (simp add: poll_server_def Let_def split_beta)
    then show ?thesis
      using True a b c by (intro exI [of _ spawns] exI [of _ gone] exI [of _ ents]) simp
  next
    case False
    then have "rg_calls (poll_server W E cap Wd tr manual has_peers now_us now_ms st) = rg_calls ?e"
      by (auto simp: poll_server_def Let_def split_beta server_tick_def)
    then show ?thesis
      using a b by (intro exI [of _ spawns] exI [of _ gone] exI [of _ "[]"]) (simp only: False, simp)
  qed
qed

subsection \<open>Properties\<close>

text \<open>C12: a poll hands the core its calls in one order: a host's poll first the records of the spawns captured,
  then the despawns, and, when it is its turn to send (not by hand, with peers and a tree, at the deadline
  the cadence says), the entities newly live and the tick, so that no tick comes before the records its
  state needs; and a poll of an end without a peer, with a closed one, or of a client hands it nothing.\<close>

theorem poll_hands_in_order:
  "let sends = (\<not> manual \<and> fe_peers V \<noteq> [] \<and> tr \<noteq> None \<and> fst (poll_send now_us (rg_cadence (ap_registry st))));
       new = (\<lambda>cs. rg_calls (ap_registry (poll_rest W N E cap V Wd tr manual now_us now_ms st)) = rg_calls (ap_registry st) @ cs)
   in if fe_status V \<noteq> None \<and> fe_status V \<noteq> Some Disconnected_Peer \<and> fe_unique V = 1
      then \<exists>spawns gone ents. new (spawns @ map Despawn gone @ ents @ (if sends then [Core_Tick now_ms] else [])) \<and>
        list_all is_spawn spawns \<and> list_all is_entity ents \<and> (if sends then True else ents = [])
      else new []"
proof -
  have l: "rg_calls (ap_registry (link_up Wd tr s)) = rg_calls (ap_registry s)"
    "rg_cadence (ap_registry (link_up Wd tr s)) = rg_cadence (ap_registry s)" for s :: "'s api"
    by (simp_all add: link_up_def ensure_link_def)
  show ?thesis
  proof (cases "fe_status V \<noteq> None \<and> fe_status V \<noteq> Some Disconnected_Peer \<and> fe_unique V = 1")
    case False
    then show ?thesis by (auto simp: poll_rest_def Let_def l)
  next
    case True
    then have "ap_registry (poll_rest W N E cap V Wd tr manual now_us now_ms st) =
        poll_server W E cap Wd tr manual (fe_peers V \<noteq> []) now_us now_ms (ap_registry (link_up Wd tr st))"
      by (auto simp: poll_rest_def Let_def)
    then show ?thesis
      using poll_server_order [of W E cap Wd tr manual "fe_peers V \<noteq> []" now_us now_ms "ap_registry (link_up Wd tr st)"] True
      unfolding Let_def l by (simp only: if_True) metis
  qed
qed

end
