(* ===== verification/Dirty.thy ===== *)
theory Dirty
  imports Net_Ids
begin

section \<open>mark_dirty\<close>

text \<open>
  \<open>mark_dirty\<close> of \<open>goldnet_multiplayer.cpp\<close>, which a game calls to announce a change of pushed state,
  on a synchronizer or on the node whose state it replicates. The node's route to its synchronizer is
  memoised in \<open>dirty_route\<close>. A call gives the net_id it marks in the core, if any, and the new route map;
  \<open>kids\<close> is the scene's: the synchronizers among a node's children, in order (\<open>None\<close>: no node); the id 0 is the null object's.
  \<open>owned\<close> and the ids belong to the rest of the multiplayer API and are read here.
\<close>

type_synonym routes = "(objid, objid) hash_map"

fun first_owned :: "objid hash_set \<Rightarrow> objid list \<Rightarrow> objid option" where
  "first_owned owned [] = None"
| "first_owned owned (sid # sids) = (if sid \<in> set owned then Some sid else first_owned owned sids)"

definition mark_dirty ::
  "net_ids \<Rightarrow> objid hash_set \<Rightarrow> (objid \<Rightarrow> objid list option) \<Rightarrow> objid \<Rightarrow> routes \<Rightarrow> net_id option \<times> routes" where
  "mark_dirty ids owned kids oid route =
     (if oid = 0 then (None, route)
      else if oid \<in> set owned then (Some (ids_id ids oid), route)
      else case hm_get route oid of
             Some routed \<Rightarrow> (if routed \<in> set owned then Some (ids_id ids routed) else None, route)
           | None \<Rightarrow>
               (case kids oid of
                  None \<Rightarrow> (None, route)
                | Some sids \<Rightarrow>
                    (case first_owned owned sids of
                       Some sid \<Rightarrow> (Some (ids_id ids sid), hm_put oid sid route)
                     | None \<Rightarrow> (None, hm_put oid 0 route))))"

text \<open>What the world does between two calls: the ids, the owned synchronizers, the scene.\<close>

type_synonym routing_scene = "net_ids \<times> objid hash_set \<times> (objid \<Rightarrow> objid list option)"

fun marks :: "routes \<Rightarrow> (routing_scene \<times> objid) list \<Rightarrow> net_id option list" where
  "marks route [] = []"
| "marks route (((ids, owned, kids), oid) # calls) =
     (let (m, route1) = mark_dirty ids owned kids oid route in m # marks route1 calls)"

lemma first_owned_in: "first_owned owned sids = Some sid \<Longrightarrow> sid \<in> set owned \<and> sid \<in> set sids"
  by (induction sids) (auto split: if_splits)

lemma first_owned_None: "first_owned owned sids = None \<longleftrightarrow> set owned \<inter> set sids = {}"
  by (induction sids) auto

text \<open>A route, once there, is never changed.\<close>

lemma route_kept: "hm_get route n = Some r \<Longrightarrow> hm_get (snd (mark_dirty ids owned kids oid route)) n = Some r"
  by (auto simp: mark_dirty_def hm_get_put split: option.split)

definition routed :: "objid \<Rightarrow> objid \<Rightarrow> routing_scene \<times> objid \<Rightarrow> net_id option \<Rightarrow> bool" where
  "routed n r c m =
     (case c of ((ids, owned, kids), oid) \<Rightarrow>
        oid = n \<longrightarrow> n \<notin> set owned \<longrightarrow> m = (if r \<in> set owned then Some (ids_id ids r) else None))"

lemma marks_routed:
  "n \<noteq> 0 \<Longrightarrow> hm_get route n = Some r \<Longrightarrow> list_all2 (routed n r) calls (marks route calls)"
proof (induction route calls rule: marks.induct)
  case (2 route ids owned kids oid calls)
  obtain m route1 where m: "mark_dirty ids owned kids oid route = (m, route1)"
    by (cases "mark_dirty ids owned kids oid route")
  have "routed n r ((ids, owned, kids), oid) m"
    using 2(2,3) m by (auto simp: routed_def mark_dirty_def split: if_splits option.splits)
  moreover have "hm_get route1 n = Some r"
    using route_kept [OF 2(3), of ids owned kids oid] m by simp
  ultimately show ?case
    using 2(1,2) m by simp
qed simp

lemma routed_nowhere:
  "list_all2 (routed n 0) calls ms \<Longrightarrow>
   \<forall>((ids, owned, kids), oid) \<in> set calls. oid = n \<and> n \<notin> set owned \<and> 0 \<notin> set owned \<Longrightarrow>
   ms = replicate (length calls) None"
  by (induction rule: list_all2_induct) (auto simp: routed_def)

subsection \<open>Properties\<close>

text \<open>Marking a node marks its synchronizer: where a node has an owned synchronizer among its
  children at the first call, that call and every later one marks the first such, for as long as it is
  owned, whatever the game marks in between and however ids and scene change; when it is no longer
  owned, nothing is marked.\<close>

theorem mark_follows_first_route:
  assumes "n \<noteq> 0" "n \<notin> set owned" "hm_get route n = None" "kids n = Some sids" "first_owned owned sids = Some sid"
  shows "mark_dirty ids owned kids n route = (Some (ids_id ids sid), hm_put n sid route) \<and>
     list_all2 (routed n sid) calls (marks (snd (mark_dirty ids owned kids n route)) calls)"
proof -
  have m: "mark_dirty ids owned kids n route = (Some (ids_id ids sid), hm_put n sid route)"
    using assms by (simp add: mark_dirty_def)
  then show ?thesis using assms(1) by (simp add: marks_routed)
qed

lemma mark_follows_first_route_witness:
  "mark_dirty (run ids_step net_ids0 [Assign 8]) [8] (\<lambda>n. Some [7, 8]) 3 [] =
     (Some (ids_id (run ids_step net_ids0 [Assign 8]) 8), hm_put 3 8 []) \<and>
   list_all2 (routed 3 8) [((net_ids0, [], \<lambda>n. None), 3)]
     (marks (snd (mark_dirty (run ids_step net_ids0 [Assign 8]) [8] (\<lambda>n. Some [7, 8]) 3 []))
        [((net_ids0, [], \<lambda>n. None), 3)])"
proof (rule mark_follows_first_route)
  show "first_owned [8] [7, 8] = Some (8 :: objid)" by simp
qed simp_all

text \<open>C40: a node marked once before its synchronizer is owned (as it is set up, before it enters the
  tree) is never marked again: the route to nothing is remembered, and no later call on it marks
  anything, whatever synchronizers it has and the API owns by then. What the synchronizer declares in
  \<open>gn_push\<close> then stays unread on the server.\<close>

theorem early_mark_disables:
  assumes "n \<noteq> 0" "n \<notin> set owned" "hm_get route n = None" "kids n = Some sids" "set owned \<inter> set sids = {}"
    and "\<forall>((ids, owned, kids), oid) \<in> set calls. oid = n \<and> n \<notin> set owned \<and> 0 \<notin> set owned"
  shows "fst (mark_dirty ids owned kids n route) = None \<and>
     marks (snd (mark_dirty ids owned kids n route)) calls = replicate (length calls) None"
proof -
  have "mark_dirty ids owned kids n route = (None, hm_put n 0 route)"
    using assms(1-5) first_owned_None [of owned sids] by (simp add: mark_dirty_def)
  moreover have "list_all2 (routed n 0) calls (marks (hm_put n 0 route) calls)"
    by (rule marks_routed [OF assms(1)]) simp
  then have "marks (hm_put n 0 route) calls = replicate (length calls) None"
    using assms(6) by (rule routed_nowhere)
  ultimately show ?thesis by simp
qed

lemma early_mark_disables_witness:
  "fst (mark_dirty net_ids0 [] (\<lambda>n. Some [5]) 3 []) = None \<and>
   marks (snd (mark_dirty net_ids0 [] (\<lambda>n. Some [5]) 3 [])) [((net_ids0, [5], \<lambda>n. Some [5]), 3)] = [None]"
  using early_mark_disables [of 3 "[]" "[]" "\<lambda>n. Some [5]" "[5]" "[((net_ids0, [5], \<lambda>n. Some [5]), 3)]" net_ids0]
  by simp

end
