(* ===== verification/Peer_Wrapper.thy ===== *)
theory Peer_Wrapper
  imports Sim_Peer
begin

section \<open>GoldNetSimPeer around the peer it wraps\<close>

text \<open>
  \<open>Sim_Peer\<close> follows the packets once they have arrived. Here is the rest of \<open>goldnet_sim_peer.cpp\<close>: the
  wrapped \<open>MultiplayerPeer\<close>, the loop of \<open>_poll\<close> that empties it, its signals relayed, and the calls that go
  straight through to it. The wrapped peer is the engine's, so it is the record \<open>multiplayer_peer\<close> of its
  operations over a state of any type; what the loop relies on is the locale \<open>packet_queue\<close>: the packets
  available are a queue, the next packet's peer, channel and mode are its own, and taking it leaves the others.
  The wrapper is itself such a queue for the inner API, which is the locale's interpretation.

  The loop may run for ever over a peer that always has one more packet: it is \<open>read_loop\<close>, whose value is
  \<open>None\<close> then. The lemmas show that over a queue it returns, and that a whole run of the wrapper is a run of
  \<open>Sim_Peer\<close>'s over the packets as they arrive, beside a run of the wrapped peer on its own.
\<close>

subsection \<open>A queue of packets, and the loop that empties one\<close>

text \<open>\<open>while (get_available_packet_count() > 0)\<close>, with what is done with each packet.\<close>

partial_function (option) read_loop ::
  "('w \<Rightarrow> nat) \<Rightarrow> ('w \<Rightarrow> packet \<times> 'w) \<Rightarrow> (packet \<Rightarrow> 'a \<Rightarrow> 'a) \<Rightarrow> 'a \<Rightarrow> 'w \<Rightarrow> ('a \<times> 'w) option" where
  "read_loop avail next_packet act a w =
     (if avail w = 0 then Some (a, w)
      else case next_packet w of (p, w1) \<Rightarrow> read_loop avail next_packet act (act p a) w1)"

locale packet_queue =
  fixes avail :: "'w \<Rightarrow> nat" and next_packet :: "'w \<Rightarrow> packet \<times> 'w" and waiting :: "'w \<Rightarrow> packet list"
  assumes avail: "avail w = length (waiting w)"
    and front: "waiting w = p # ps \<Longrightarrow> fst (next_packet w) = p \<and> waiting (snd (next_packet w)) = ps"
begin

fun taken :: "nat \<Rightarrow> 'w \<Rightarrow> 'w" where
  "taken 0 w = w"
| "taken (Suc n) w = taken n (snd (next_packet w))"

lemma read_loop_empties:
  "read_loop avail next_packet act a w = Some (fold act (waiting w) a, taken (length (waiting w)) w) \<and>
   waiting (taken (length (waiting w)) w) = []"
proof (induction "waiting w" arbitrary: w a)
  case Nil
  then show ?case by (simp add: read_loop.simps avail flip: Nil)
next
  case (Cons p ps)
  with front [of w p ps] have f: "next_packet w = (p, snd (next_packet w))" "ps = waiting (snd (next_packet w))"
    by (simp_all add: prod_eq_iff)
  have "read_loop avail next_packet act a w = read_loop avail next_packet act (act p a) (snd (next_packet w))"
    by (subst read_loop.simps, subst f(1)) (simp add: avail flip: Cons.hyps(2))
  then show ?case
    using Cons.hyps(1) [OF f(2), of "act p a"] by (simp flip: Cons.hyps(2) f(2))
qed

end

text \<open>What the inner API reads of a wrapper: the front packet's peer, channel and mode, then its bytes.\<close>

definition sp_next :: "'s sim_peer \<Rightarrow> packet \<times> 's sim_peer" where
  "sp_next st =
     (case sp_get_packet st of
        (bs, st1) \<Rightarrow>
          (\<lparr>pk_data = (case bs of Some b \<Rightarrow> b | None \<Rightarrow> []), pk_from = sp_packet_peer st,
            pk_channel = sp_packet_channel st, pk_mode = sp_packet_mode st\<rparr>, st1))"

interpretation sim_peer_queue: packet_queue sp_available sp_next sp_ready
  by unfold_locales
    (simp_all add: sp_available_def sp_next_def sp_get_packet_def sp_packet_peer_def sp_packet_channel_def sp_packet_mode_def)

lemma inner_reads_ready:
  "\<exists>st1. read_loop sp_available sp_next act a st = Some (fold act (sp_ready st) a, st1) \<and> sp_ready st1 = []"
  using sim_peer_queue.read_loop_empties [of act a st] by blast

subsection \<open>The wrapped peer\<close>

text \<open>The peer's signals, and its operations. A call that may disconnect somebody answers with the signals it
  emitted; \<open>mp_next\<close> is the front packet's peer, channel and mode with \<open>get_packet\<close>; an \<open>Error\<close> is its number.\<close>

datatype peer_signal = Joined peer | Gone peer

record 'w multiplayer_peer =
  mp_poll :: "'w \<Rightarrow> peer_signal list \<times> 'w"
  mp_available :: "'w \<Rightarrow> nat"
  mp_next :: "'w \<Rightarrow> packet \<times> 'w"
  mp_put_packet :: "bytes \<Rightarrow> 'w \<Rightarrow> int \<times> 'w"
  mp_set_transfer_channel :: "int \<Rightarrow> 'w \<Rightarrow> 'w"
  mp_get_transfer_channel :: "'w \<Rightarrow> int"
  mp_set_transfer_mode :: "transfer_mode \<Rightarrow> 'w \<Rightarrow> 'w"
  mp_get_transfer_mode :: "'w \<Rightarrow> transfer_mode"
  mp_set_target_peer :: "peer \<Rightarrow> 'w \<Rightarrow> 'w"
  mp_close :: "'w \<Rightarrow> peer_signal list \<times> 'w"
  mp_disconnect_peer :: "peer \<Rightarrow> bool \<Rightarrow> 'w \<Rightarrow> peer_signal list \<times> 'w"
  mp_get_unique_id :: "'w \<Rightarrow> peer"
  mp_set_refuse_new_connections :: "bool \<Rightarrow> 'w \<Rightarrow> 'w"
  mp_is_refusing_new_connections :: "'w \<Rightarrow> bool"
  mp_is_server_relay_supported :: "'w \<Rightarrow> bool"
  mp_get_connection_status :: "'w \<Rightarrow> int"

subsection \<open>The wrapper's operations\<close>

text \<open>\<open>sw_heard\<close> is what the wrapper has emitted itself.\<close>

record ('s, 'w) sim_wrapper =
  sw_peer :: "'s sim_peer"
  sw_wrapped :: 'w
  sw_heard :: "peer_signal list"

definition wrap_peer :: "'s \<Rightarrow> 'w \<Rightarrow> ('s, 'w) sim_wrapper" where
  "wrap_peer s w = \<lparr>sw_peer = sp0 s, sw_wrapped = w, sw_heard = []\<rparr>"

fun on_peer_signal :: "('s, packet) netsim \<Rightarrow> peer_signal \<Rightarrow> ('s, 'w) sim_wrapper \<Rightarrow> ('s, 'w) sim_wrapper" where
  "on_peer_signal N (Joined p) st = st\<lparr>sw_heard := sw_heard st @ [Joined p]\<rparr>"
| "on_peer_signal N (Gone p) st =
     st\<lparr>sw_peer := sp_disconnected N p (sw_peer st), sw_heard := sw_heard st @ [Gone p]\<rparr>"

text \<open>A call of the wrapped peer's, with the handlers of the signals it emits.\<close>

definition on_wrapped ::
  "('s, packet) netsim \<Rightarrow> ('w \<Rightarrow> peer_signal list \<times> 'w) \<Rightarrow> ('s, 'w) sim_wrapper \<Rightarrow> ('s, 'w) sim_wrapper" where
  "on_wrapped N call st =
     (case call (sw_wrapped st) of (sigs, w) \<Rightarrow> fold (on_peer_signal N) sigs (st\<lparr>sw_wrapped := w\<rparr>))"

definition wrapper_poll ::
  "('s, packet) netsim \<Rightarrow> 'w multiplayer_peer \<Rightarrow> u64 \<Rightarrow> ('s, 'w) sim_wrapper \<Rightarrow> ('s, 'w) sim_wrapper option" where
  "wrapper_poll N M now st =
     (let st1 = on_wrapped N (mp_poll M) st;
          active = sp_active N (sp_sim (sw_peer st1))
      in case read_loop (mp_available M) (mp_next M) (sp_take N now active) (sw_peer st1) (sw_wrapped st1) of
           None \<Rightarrow> None
         | Some (sp, w) \<Rightarrow>
             let (out, s) = ns_pump N now (sp_sim sp)
             in Some (st1\<lparr>sw_peer := fold sp_deliver out (sp\<lparr>sp_sim := s\<rparr>), sw_wrapped := w\<rparr>))"

definition wrapper_put_packet :: "'w multiplayer_peer \<Rightarrow> bytes \<Rightarrow> ('s, 'w) sim_wrapper \<Rightarrow> int \<times> ('s, 'w) sim_wrapper" where
  "wrapper_put_packet M bs st =
     (case mp_put_packet M bs (sw_wrapped st) of (e, w) \<Rightarrow> (e, st\<lparr>sw_wrapped := w\<rparr>))"

definition wrapper_max_packet_size :: int where
  "wrapper_max_packet_size = 2 ^ 25"

definition wrapper_set_channel :: "'w multiplayer_peer \<Rightarrow> int \<Rightarrow> ('s, 'w) sim_wrapper \<Rightarrow> ('s, 'w) sim_wrapper" where
  "wrapper_set_channel M c st = st\<lparr>sw_wrapped := mp_set_transfer_channel M c (sw_wrapped st)\<rparr>"

definition wrapper_get_channel :: "'w multiplayer_peer \<Rightarrow> ('s, 'w) sim_wrapper \<Rightarrow> int" where
  "wrapper_get_channel M st = mp_get_transfer_channel M (sw_wrapped st)"

definition wrapper_set_mode :: "'w multiplayer_peer \<Rightarrow> transfer_mode \<Rightarrow> ('s, 'w) sim_wrapper \<Rightarrow> ('s, 'w) sim_wrapper" where
  "wrapper_set_mode M m st = st\<lparr>sw_wrapped := mp_set_transfer_mode M m (sw_wrapped st)\<rparr>"

definition wrapper_get_mode :: "'w multiplayer_peer \<Rightarrow> ('s, 'w) sim_wrapper \<Rightarrow> transfer_mode" where
  "wrapper_get_mode M st = mp_get_transfer_mode M (sw_wrapped st)"

definition wrapper_set_target :: "'w multiplayer_peer \<Rightarrow> peer \<Rightarrow> ('s, 'w) sim_wrapper \<Rightarrow> ('s, 'w) sim_wrapper" where
  "wrapper_set_target M p st = st\<lparr>sw_wrapped := mp_set_target_peer M p (sw_wrapped st)\<rparr>"

definition wrapper_is_server :: "'w multiplayer_peer \<Rightarrow> ('s, 'w) sim_wrapper \<Rightarrow> bool" where
  "wrapper_is_server M st = (mp_get_unique_id M (sw_wrapped st) = 1)"

text \<open>\<open>sp_close\<close> is the wrapper's own half: \<open>ready\<close> emptied and the server's link forgotten, before the wrapped
  peer is closed.\<close>

definition wrapper_close :: "('s, packet) netsim \<Rightarrow> 'w multiplayer_peer \<Rightarrow> ('s, 'w) sim_wrapper \<Rightarrow> ('s, 'w) sim_wrapper" where
  "wrapper_close N M st = on_wrapped N (mp_close M) (st\<lparr>sw_peer := sp_close N (sw_peer st)\<rparr>)"

definition wrapper_disconnect_peer ::
  "('s, packet) netsim \<Rightarrow> 'w multiplayer_peer \<Rightarrow> peer \<Rightarrow> bool \<Rightarrow> ('s, 'w) sim_wrapper \<Rightarrow> ('s, 'w) sim_wrapper" where
  "wrapper_disconnect_peer N M p force st = on_wrapped N (mp_disconnect_peer M p force) st"

definition wrapper_unique_id :: "'w multiplayer_peer \<Rightarrow> ('s, 'w) sim_wrapper \<Rightarrow> peer" where
  "wrapper_unique_id M st = mp_get_unique_id M (sw_wrapped st)"

definition wrapper_set_refuse :: "'w multiplayer_peer \<Rightarrow> bool \<Rightarrow> ('s, 'w) sim_wrapper \<Rightarrow> ('s, 'w) sim_wrapper" where
  "wrapper_set_refuse M b st = st\<lparr>sw_wrapped := mp_set_refuse_new_connections M b (sw_wrapped st)\<rparr>"

definition wrapper_is_refusing :: "'w multiplayer_peer \<Rightarrow> ('s, 'w) sim_wrapper \<Rightarrow> bool" where
  "wrapper_is_refusing M st = mp_is_refusing_new_connections M (sw_wrapped st)"

definition wrapper_relay_supported :: "'w multiplayer_peer \<Rightarrow> ('s, 'w) sim_wrapper \<Rightarrow> bool" where
  "wrapper_relay_supported M st = mp_is_server_relay_supported M (sw_wrapped st)"

definition wrapper_status :: "'w multiplayer_peer \<Rightarrow> ('s, 'w) sim_wrapper \<Rightarrow> int" where
  "wrapper_status M st = mp_get_connection_status M (sw_wrapped st)"

subsection \<open>A run of the wrapper, and of the wrapped peer on its own\<close>

text \<open>The calls the inner makes, with what it has read and what its sends returned.\<close>

datatype peer_op =
    Op_Poll u64
  | Op_Read
  | Op_Put bytes
  | Op_Channel int
  | Op_Mode transfer_mode
  | Op_Target peer
  | Op_Close
  | Op_Disconnect peer bool
  | Op_Refuse bool

fun wrapper_step ::
  "('s, packet) netsim \<Rightarrow> 'w multiplayer_peer \<Rightarrow> ('s, 'w) sim_wrapper \<times> packet list \<times> int list \<Rightarrow> peer_op \<Rightarrow>
   (('s, 'w) sim_wrapper \<times> packet list \<times> int list) option" where
  "wrapper_step N M (st, got, errs) (Op_Poll now) = map_option (\<lambda>st1. (st1, got, errs)) (wrapper_poll N M now st)"
| "wrapper_step N M (st, got, errs) Op_Read =
     (case sp_step N (sw_peer st, got) Read of (sp, got1) \<Rightarrow> Some (st\<lparr>sw_peer := sp\<rparr>, got1, errs))"
| "wrapper_step N M (st, got, errs) (Op_Put bs) =
     (case wrapper_put_packet M bs st of (e, st1) \<Rightarrow> Some (st1, got, errs @ [e]))"
| "wrapper_step N M (st, got, errs) (Op_Channel c) = Some (wrapper_set_channel M c st, got, errs)"
| "wrapper_step N M (st, got, errs) (Op_Mode m) = Some (wrapper_set_mode M m st, got, errs)"
| "wrapper_step N M (st, got, errs) (Op_Target p) = Some (wrapper_set_target M p st, got, errs)"
| "wrapper_step N M (st, got, errs) Op_Close = Some (wrapper_close N M st, got, errs)"
| "wrapper_step N M (st, got, errs) (Op_Disconnect p force) = Some (wrapper_disconnect_peer N M p force st, got, errs)"
| "wrapper_step N M (st, got, errs) (Op_Refuse b) = Some (wrapper_set_refuse M b st, got, errs)"

fun wrapper_run ::
  "('s, packet) netsim \<Rightarrow> 'w multiplayer_peer \<Rightarrow> ('s, 'w) sim_wrapper \<times> packet list \<times> int list \<Rightarrow> peer_op list \<Rightarrow>
   (('s, 'w) sim_wrapper \<times> packet list \<times> int list) option" where
  "wrapper_run N M x [] = Some x"
| "wrapper_run N M x (op # ops) = Option.bind (wrapper_step N M x op) (\<lambda>y. wrapper_run N M y ops)"

text \<open>The same calls made on the peer with no wrapper, its packets all taken at each poll: what it was asked is
  the state, and beside it what \<open>Sim_Peer\<close> is to see, the signals and what the sends returned.\<close>

fun signal_events :: "peer_signal list \<Rightarrow> sp_event list" where
  "signal_events [] = []"
| "signal_events (Joined p # sigs) = signal_events sigs"
| "signal_events (Gone p # sigs) = Disconnected p # signal_events sigs"

type_synonym 'w peer_trace = "sp_event list \<times> peer_signal list \<times> int list \<times> 'w"

fun peer_step :: "'w multiplayer_peer \<Rightarrow> 'w peer_trace \<Rightarrow> peer_op \<Rightarrow> 'w peer_trace option" where
  "peer_step M (evs, heard, errs, w) (Op_Poll now) =
     (case mp_poll M w of (sigs, w1) \<Rightarrow>
        map_option (\<lambda>(ps, w2). (evs @ signal_events sigs @ [Poll ps now], heard @ sigs, errs, w2))
          (read_loop (mp_available M) (mp_next M) (\<lambda>p ps. ps @ [p]) [] w1))"
| "peer_step M (evs, heard, errs, w) Op_Read = Some (evs @ [Read], heard, errs, w)"
| "peer_step M (evs, heard, errs, w) (Op_Put bs) =
     (case mp_put_packet M bs w of (e, w1) \<Rightarrow> Some (evs, heard, errs @ [e], w1))"
| "peer_step M (evs, heard, errs, w) (Op_Channel c) = Some (evs, heard, errs, mp_set_transfer_channel M c w)"
| "peer_step M (evs, heard, errs, w) (Op_Mode m) = Some (evs, heard, errs, mp_set_transfer_mode M m w)"
| "peer_step M (evs, heard, errs, w) (Op_Target p) = Some (evs, heard, errs, mp_set_target_peer M p w)"
| "peer_step M (evs, heard, errs, w) Op_Close =
     (case mp_close M w of (sigs, w1) \<Rightarrow> Some (evs @ Close # signal_events sigs, heard @ sigs, errs, w1))"
| "peer_step M (evs, heard, errs, w) (Op_Disconnect p force) =
     (case mp_disconnect_peer M p force w of (sigs, w1) \<Rightarrow> Some (evs @ signal_events sigs, heard @ sigs, errs, w1))"
| "peer_step M (evs, heard, errs, w) (Op_Refuse b) = Some (evs, heard, errs, mp_set_refuse_new_connections M b w)"

fun peer_run :: "'w multiplayer_peer \<Rightarrow> 'w peer_trace \<Rightarrow> peer_op list \<Rightarrow> 'w peer_trace option" where
  "peer_run M t [] = Some t"
| "peer_run M t (op # ops) = Option.bind (peer_step M t op) (\<lambda>u. peer_run M u ops)"

subsection \<open>One refines the other\<close>

definition peer_ok :: "'w multiplayer_peer \<Rightarrow> ('w \<Rightarrow> packet list) \<Rightarrow> bool" where
  "peer_ok M waiting = packet_queue (mp_available M) (mp_next M) waiting"

text \<open>The two runs side by side.\<close>

fun side_by_side ::
  "('s, packet) netsim \<Rightarrow> 's \<Rightarrow> ('s, 'w) sim_wrapper \<times> packet list \<times> int list \<Rightarrow> 'w peer_trace \<Rightarrow> bool" where
  "side_by_side N s (st, got, errs) (evs, heard, errs1, w) =
     (run (sp_step N) (sp0 s, []) evs = (sw_peer st, got) \<and> sw_wrapped st = w \<and> sw_heard st = heard \<and> errs = errs1)"

lemma on_peer_signals:
  "sw_wrapped (fold (on_peer_signal N) sigs st) = sw_wrapped st"
  "sw_heard (fold (on_peer_signal N) sigs st) = sw_heard st @ sigs"
  "run (sp_step N) (sw_peer st, got) (signal_events sigs) = (sw_peer (fold (on_peer_signal N) sigs st), got)"
proof (induction sigs arbitrary: st)
  case (Cons sig sigs)
  { case 1 then show ?case using Cons by (cases sig) simp_all }
  { case 2 then show ?case using Cons by (cases sig) simp_all }
  { case 3 then show ?case using Cons by (cases sig) (simp_all flip: Cons(3)) }
qed simp_all

lemma on_wrapped_effect:
  assumes "call (sw_wrapped st) = (sigs, w)"
  shows "sw_wrapped (on_wrapped N call st) = w" "sw_heard (on_wrapped N call st) = sw_heard st @ sigs"
    and "run (sp_step N) (sw_peer st, got) (signal_events sigs) = (sw_peer (on_wrapped N call st), got)"
  using assms on_peer_signals(3) [of N "st\<lparr>sw_wrapped := w\<rparr>" got sigs] by (simp_all add: on_wrapped_def on_peer_signals)

lemma wrapper_poll_effect:
  assumes "peer_ok M waiting" "mp_poll M (sw_wrapped st) = (sigs, w)"
  obtains st1 w1 where "wrapper_poll N M now st = Some st1"
    and "read_loop (mp_available M) (mp_next M) (\<lambda>p ps. ps @ [p]) [] w = Some (waiting w, w1)"
    and "sw_wrapped st1 = w1" "sw_heard st1 = sw_heard st @ sigs"
    and "run (sp_step N) (sw_peer st, got) (signal_events sigs @ [Poll (waiting w) now]) = (sw_peer st1, got)"
proof -
  let ?s = "on_wrapped N (mp_poll M) st"
  note loop = packet_queue.read_loop_empties [OF assms(1) [unfolded peer_ok_def], THEN conjunct1]
  have all: "fold (\<lambda>p ps. ps @ [p]) xs ys = ys @ xs" for xs ys :: "packet list"
    by (induction xs arbitrary: ys) simp_all
  let ?w = "packet_queue.taken (mp_next M) (length (waiting w)) w"
  let ?sp = "sp_poll N (waiting w) now (sw_peer ?s)"
  have "wrapper_poll N M now st = Some (?s\<lparr>sw_peer := ?sp, sw_wrapped := ?w\<rparr>)"
    by (simp add: wrapper_poll_def sp_poll_def Let_def split_beta loop
        on_wrapped_effect(1) [where call = "mp_poll M" and N = N, OF assms(2)])
  moreover have "read_loop (mp_available M) (mp_next M) (\<lambda>p ps. ps @ [p]) [] w = Some (waiting w, ?w)"
    by (simp add: loop all)
  ultimately show thesis
    by (rule that) (simp_all add: run_append on_wrapped_effect(2,3) [where call = "mp_poll M" and N = N, OF assms(2)])
qed

lemma step_side_by_side:
  assumes "peer_ok M waiting" "side_by_side N s x t"
  shows "\<exists>y u. wrapper_step N M x op = Some y \<and> peer_step M t op = Some u \<and> side_by_side N s y u"
proof -
  obtain st got errs evs where x: "x = (st, got, errs)" "t = (evs, sw_heard st, errs, sw_wrapped st)"
    and r: "run (sp_step N) (sp0 s, []) evs = (sw_peer st, got)"
    using assms(2) by (cases x; cases t) auto
  show ?thesis
  proof (cases op)
    case (Op_Poll now)
    obtain sigs w where w: "mp_poll M (sw_wrapped st) = (sigs, w)" by fastforce
    obtain st1 w1 where p: "wrapper_poll N M now st = Some st1" "sw_wrapped st1 = w1" "sw_heard st1 = sw_heard st @ sigs"
      and l: "read_loop (mp_available M) (mp_next M) (\<lambda>p ps. ps @ [p]) [] w = Some (waiting w, w1)"
      and e: "run (sp_step N) (sw_peer st, got) (signal_events sigs @ [Poll (waiting w) now]) = (sw_peer st1, got)"
      by (rule wrapper_poll_effect [OF assms(1) w])
    have "run (sp_step N) (sp0 s, []) (evs @ signal_events sigs @ [Poll (waiting w) now]) = (sw_peer st1, got)"
      using r e by (simp only: run_append)
    then show ?thesis by (simp add: Op_Poll x w p l del: run.simps)
  next
    case Op_Read
    then show ?thesis using x r by (auto simp: run_append split: prod.split simp del: sp_step.simps)
  next
    case Op_Close
    obtain sigs w where w: "mp_close M (sw_wrapped st) = (sigs, w)" by fastforce
    show ?thesis
      using Op_Close w x r on_wrapped_effect [where call = "mp_close M" and N = N and st = "st\<lparr>sw_peer := sp_close N (sw_peer st)\<rparr>" and sigs = sigs and w = w]
      by (simp add: run_append wrapper_close_def)
  next
    case (Op_Disconnect p force)
    obtain sigs w where w: "mp_disconnect_peer M p force (sw_wrapped st) = (sigs, w)" by fastforce
    show ?thesis
      using Op_Disconnect w x r on_wrapped_effect [where call = "mp_disconnect_peer M p force" and N = N, OF w]
      by (simp add: run_append wrapper_disconnect_peer_def)
  qed (use x r in \<open>simp_all add: wrapper_put_packet_def wrapper_set_channel_def wrapper_set_mode_def wrapper_set_target_def
      wrapper_set_refuse_def split_beta\<close>)
qed

lemma run_side_by_side:
  assumes "peer_ok M waiting"
  shows "side_by_side N s x t \<Longrightarrow>
    \<exists>y u. wrapper_run N M x ops = Some y \<and> peer_run M t ops = Some u \<and> side_by_side N s y u"
proof (induction ops arbitrary: x t)
  case (Cons op ops)
  then show ?case using step_side_by_side [OF assms Cons.prems, of op] by auto
qed auto

subsection \<open>Properties\<close>

text \<open>C28: the wrapper is transparent but for the sim. Any sequence of calls returns, whatever the sim and the wrapped
  peer do, provided the wrapped peer's packets are a queue; the wrapped peer ends as if the same calls had been
  made on it with no wrapper, its sends return the same errors and the same signals are heard; and
  what the inner reads is what \<open>Sim_Peer\<close>'s operations give it of the packets as each poll found them.\<close>

theorem wrapper_refines_peer:
  assumes "peer_ok M waiting"
  shows "\<exists>sp got errs evs heard w1.
    wrapper_run N M (wrap_peer s w, [], []) ops = Some (\<lparr>sw_peer = sp, sw_wrapped = w1, sw_heard = heard\<rparr>, got, errs) \<and>
    peer_run M ([], [], [], w) ops = Some (evs, heard, errs, w1) \<and>
    run (sp_step N) (sp0 s, []) evs = (sp, got)"
proof -
  have "side_by_side N s (wrap_peer s w, [], []) ([], [], [], w)" by (simp add: wrap_peer_def)
  from run_side_by_side [OF assms this, of ops] obtain st got errs evs heard errs1 w1 where
    "wrapper_run N M (wrap_peer s w, [], []) ops = Some (st, got, errs)"
    "peer_run M ([], [], [], w) ops = Some (evs, heard, errs1, w1)"
    "side_by_side N s (st, got, errs) (evs, heard, errs1, w1)"
    by (metis prod_cases3 prod_cases4)
  then show ?thesis by (cases st) auto
qed

text \<open>A peer for the witness: its packets, what polls still bring, and the sends made on it. Its packets come with
  the second poll, and a closed peer has none.\<close>

type_synonym demo_peer = "packet list \<times> (peer_signal list \<times> packet list) list \<times> bytes list"

definition demo_peer :: "demo_peer multiplayer_peer" where
  "demo_peer =
     \<lparr>mp_poll = (\<lambda>(q, bs, out). case bs of [] \<Rightarrow> ([], (q, [], out)) | (sigs, ps) # bs \<Rightarrow> (sigs, (q @ ps, bs, out))),
      mp_available = (\<lambda>(q, bs, out). length q),
      mp_next = (\<lambda>(q, bs, out). (hd q, (tl q, bs, out))),
      mp_put_packet = (\<lambda>d (q, bs, out). (0, (q, bs, out @ [d]))),
      mp_set_transfer_channel = (\<lambda>_ w. w), mp_get_transfer_channel = (\<lambda>_. 0), mp_set_transfer_mode = (\<lambda>_ w. w),
      mp_get_transfer_mode = (\<lambda>_. RELIABLE), mp_set_target_peer = (\<lambda>_ w. w), mp_close = (\<lambda>(q, bs, out). ([], ([], bs, out))),
      mp_disconnect_peer = (\<lambda>p _ (q, bs, out). ([Gone p], (q, bs, out))), mp_get_unique_id = (\<lambda>_. 7),
      mp_set_refuse_new_connections = (\<lambda>_ w. w), mp_is_refusing_new_connections = (\<lambda>_. False),
      mp_is_server_relay_supported = (\<lambda>_. True), mp_get_connection_status = (\<lambda>_. 2)\<rparr>"

lemma demo_peer_ok: "peer_ok demo_peer fst"
  unfolding peer_ok_def by unfold_locales (auto simp: demo_peer_def split_beta)

definition demo_peer_ops :: "peer_op list" where
  "demo_peer_ops = [Op_Poll 3, Op_Put [1, 2], Op_Read, Op_Poll 4, Op_Read]"

lemma wrapper_refines_peer_witness:
  "\<exists>sp got errs evs heard w1.
    wrapper_run demo_netsim demo_peer
      (wrap_peer (5, [], []) ([], [([Joined 1], [demo_packet 1 RELIABLE])], []), [], []) demo_peer_ops =
      Some (\<lparr>sw_peer = sp, sw_wrapped = w1, sw_heard = heard\<rparr>, got, errs) \<and>
    peer_run demo_peer ([], [], [], ([], [([Joined 1], [demo_packet 1 RELIABLE])], [])) demo_peer_ops = Some (evs, heard, errs, w1) \<and>
    run (sp_step demo_netsim) (sp0 (5, [], []), []) evs = (sp, got)"
  by (rule wrapper_refines_peer [OF demo_peer_ok])

end
