(* ===== verification/Sim_Config.thy ===== *)
theory Sim_Config
  imports Slot_Plan
begin

section \<open>sim_config and recv_sim_config\<close>

text \<open>
  \<open>apply_sim_config\<close>, \<open>read_sim_config\<close> and the four property functions of \<open>goldnet_multiplayer.cpp\<close>. The
  sim's knobs are \<open>goldnet::NetSim\<close>'s: their setters, getters and defaults are the record \<open>sim_knobs\<close>, of
  which \<open>knobs_ok\<close> says that a knob reads back as its setter normalised what it was given, that
  normalising again changes nothing, and that one knob's setter leaves the others alone. A knob is an
  \<open>int\<close> or a \<open>float\<close>, as its cast in the code.
\<close>

datatype knob =
    Loss_Percent | Seed | Latency_Min_Ms | Latency_Max_Ms | Spike_Ms | Spike_Interval_S
  | Spike_Duration_S | Link_Bps | Link_Queue_Ms | Link_Overhead

fun knob_key :: "knob \<Rightarrow> string" where
  "knob_key Loss_Percent = ''loss_percent''"
| "knob_key Seed = ''seed''"
| "knob_key Latency_Min_Ms = ''latency_min_ms''"
| "knob_key Latency_Max_Ms = ''latency_max_ms''"
| "knob_key Spike_Ms = ''spike_ms''"
| "knob_key Spike_Interval_S = ''spike_interval_s''"
| "knob_key Spike_Duration_S = ''spike_duration_s''"
| "knob_key Link_Bps = ''link_bps''"
| "knob_key Link_Queue_Ms = ''link_queue_ms''"
| "knob_key Link_Overhead = ''link_overhead''"

text \<open>The order in which \<open>apply_sim_config\<close> sets them and \<open>read_sim_config\<close> lists them.\<close>

definition all_knobs :: "knob list" where
  "all_knobs = [Loss_Percent, Seed, Latency_Min_Ms, Latency_Max_Ms, Spike_Ms, Spike_Interval_S,
     Spike_Duration_S, Link_Bps, Link_Queue_Ms, Link_Overhead]"

text \<open>A knob's value: the bits of an \<open>int\<close> or of a \<open>float\<close>, 32 either way.\<close>

fun is_float_knob :: "knob \<Rightarrow> bool" where
  "is_float_knob Spike_Interval_S = True"
| "is_float_knob Spike_Duration_S = True"
| "is_float_knob _ = False"

record 's sim_knobs =
  kn_set :: "knob \<Rightarrow> u32 \<Rightarrow> 's \<Rightarrow> 's"
  kn_get :: "knob \<Rightarrow> 's \<Rightarrow> u32"
  kn_default :: "knob \<Rightarrow> u32"
  kn_norm :: "knob \<Rightarrow> u32 \<Rightarrow> u32"

text \<open>\<open>(int)p_cfg.get(key, dflt)\<close> or \<open>(float)\<close>, and the getter's value as a \<open>Variant\<close>.\<close>

definition knob_value :: "engine \<Rightarrow> knob \<Rightarrow> variant \<Rightarrow> u32" where
  "knob_value E k v = (if is_float_knob k then narrow (to_double E v) else ucast (to_int E v))"

definition knob_variant :: "knob \<Rightarrow> u32 \<Rightarrow> variant" where
  "knob_variant k x = (if is_float_knob k then VFloat (widen x) else VInt (scast x))"

definition known_key :: "engine \<Rightarrow> variant \<Rightarrow> bool" where
  "known_key E key = (to_str E key \<in> set (map knob_key all_knobs))"

definition config_value :: "'s sim_knobs \<Rightarrow> engine \<Rightarrow> (variant \<times> variant) list \<Rightarrow> knob \<Rightarrow> u32" where
  "config_value K E cfg k =
     (case dict_get cfg (knob_key k) of Some v \<Rightarrow> knob_value E k v | None \<Rightarrow> kn_default K k)"

definition apply_sim_config ::
  "'s sim_knobs \<Rightarrow> engine \<Rightarrow> (variant \<times> variant) list \<Rightarrow> 's \<Rightarrow> bool \<times> 's" where
  "apply_sim_config K E cfg s =
     (if list_all (\<lambda>(key, v). known_key E key) cfg
      then (True, fold (\<lambda>k s. kn_set K k (config_value K E cfg k) s) all_knobs s)
      else (False, s))"

definition read_sim_config :: "'s sim_knobs \<Rightarrow> 's \<Rightarrow> (variant \<times> variant) list" where
  "read_sim_config K s = map (\<lambda>k. (VString (knob_key k), knob_variant k (kn_get K k s))) all_knobs"

text \<open>\<open>sim\<close>, \<open>recv_sim\<close>, and the sim of the wrapper around the current client peer, if there is one.\<close>

record 's sims =
  sm_sim :: 's
  sm_recv :: 's
  sm_recv_peer :: "'s option"

definition set_sim_config :: "'s sim_knobs \<Rightarrow> engine \<Rightarrow> (variant \<times> variant) list \<Rightarrow> 's sims \<Rightarrow> 's sims" where
  "set_sim_config K E cfg m = m\<lparr>sm_sim := snd (apply_sim_config K E cfg (sm_sim m))\<rparr>"

definition get_sim_config :: "'s sim_knobs \<Rightarrow> 's sims \<Rightarrow> (variant \<times> variant) list" where
  "get_sim_config K m = read_sim_config K (sm_sim m)"

definition set_recv_sim_config :: "'s sim_knobs \<Rightarrow> engine \<Rightarrow> (variant \<times> variant) list \<Rightarrow> 's sims \<Rightarrow> 's sims" where
  "set_recv_sim_config K E cfg m =
     (let (ok, r) = apply_sim_config K E cfg (sm_recv m); m1 = m\<lparr>sm_recv := r\<rparr>
      in if ok
         then m1\<lparr>sm_recv_peer := map_option (\<lambda>s. snd (apply_sim_config K E cfg s)) (sm_recv_peer m1)\<rparr>
         else m1)"

definition get_recv_sim_config :: "'s sim_knobs \<Rightarrow> 's sims \<Rightarrow> (variant \<times> variant) list" where
  "get_recv_sim_config K m = read_sim_config K (sm_recv m)"

text \<open>\<open>_set_multiplayer_peer\<close>'s part in it: a client's peer goes behind a new wrapper, whose \<open>fresh\<close> sim
  takes the receive settings; a server's peer, or none, goes in as it is.\<close>

definition new_peer_sim :: "'s sim_knobs \<Rightarrow> engine \<Rightarrow> 's \<Rightarrow> bool \<Rightarrow> 's sims \<Rightarrow> 's sims" where
  "new_peer_sim K E fresh client m =
     m\<lparr>sm_recv_peer :=
         (if client then Some (snd (apply_sim_config K E (read_sim_config K (sm_recv m)) fresh)) else None)\<rparr>"

text \<open>The constructor's part: the environment's settings of the send sim. \<open>atoi\<close>, \<open>str_int\<close> and \<open>str_float\<close>
  are C's and the engine's conversions of a string to the bits of an \<open>int\<close> and of a \<open>float\<close>; the engine's
  \<open>split\<close> keeps empty parts.\<close>

fun split_commas :: "string \<Rightarrow> string list" where
  "split_commas [] = [[]]"
| "split_commas (c # cs) =
     (if c = CHR '','' then [] # split_commas cs
      else case split_commas cs of p # ps \<Rightarrow> (c # p) # ps | [] \<Rightarrow> [[c]])"

definition env_latency :: "'s sim_knobs \<Rightarrow> (string \<Rightarrow> u32) \<Rightarrow> string \<Rightarrow> 's \<Rightarrow> 's" where
  "env_latency K str_int v s =
     (case split_commas v of
        lo # hi # _ \<Rightarrow> kn_set K Latency_Max_Ms (str_int hi) (kn_set K Latency_Min_Ms (str_int lo) s)
      | [x] \<Rightarrow> if x \<noteq> [] then kn_set K Latency_Max_Ms (str_int x) (kn_set K Latency_Min_Ms (str_int x) s) else s
      | [] \<Rightarrow> s)"

definition env_link :: "'s sim_knobs \<Rightarrow> (string \<Rightarrow> u32) \<Rightarrow> string \<Rightarrow> 's \<Rightarrow> 's" where
  "env_link K str_int v s =
     (let ps = split_commas v;
          s1 = (if ps \<noteq> [] \<and> hd ps \<noteq> [] then kn_set K Link_Bps (str_int (hd ps)) s else s)
      in if 2 \<le> length ps then kn_set K Link_Queue_Ms (str_int (ps ! 1)) s1 else s1)"

definition env_spike :: "'s sim_knobs \<Rightarrow> (string \<Rightarrow> u32) \<Rightarrow> (string \<Rightarrow> u32) \<Rightarrow> string \<Rightarrow> 's \<Rightarrow> 's" where
  "env_spike K str_int str_float v s =
     (let ps = split_commas v;
          s1 = (if ps \<noteq> [] \<and> hd ps \<noteq> [] then kn_set K Spike_Ms (str_int (hd ps)) s else s);
          s2 = (if 2 \<le> length ps then kn_set K Spike_Interval_S (str_float (ps ! 1)) s1 else s1)
      in if 3 \<le> length ps then kn_set K Spike_Duration_S (str_float (ps ! 2)) s2 else s2)"

definition env_sim ::
  "'s sim_knobs \<Rightarrow> (string \<Rightarrow> u32) \<Rightarrow> (string \<Rightarrow> u32) \<Rightarrow> (string \<Rightarrow> u32) \<Rightarrow> (string \<Rightarrow> string option) \<Rightarrow> 's \<Rightarrow> 's" where
  "env_sim K atoi str_int str_float getenv s =
     (let s1 = kn_set K Loss_Percent (case getenv ''GOLDNET_LOSS'' of Some v \<Rightarrow> atoi v | None \<Rightarrow> 0) s;
          s2 = kn_set K Seed (case getenv ''GOLDNET_SIM_SEED'' of Some v \<Rightarrow> atoi v | None \<Rightarrow> 0) s1;
          s3 = (case getenv ''GOLDNET_LATENCY'' of Some v \<Rightarrow> env_latency K str_int v s2 | None \<Rightarrow> s2);
          s4 = (case getenv ''GOLDNET_LINK'' of Some v \<Rightarrow> env_link K str_int v s3 | None \<Rightarrow> s3)
      in case getenv ''GOLDNET_SPIKE'' of Some v \<Rightarrow> env_spike K str_int str_float v s4 | None \<Rightarrow> s4)"

subsection \<open>Setting and reading\<close>

definition knobs_ok :: "'s sim_knobs \<Rightarrow> bool" where
  "knobs_ok K =
     ((\<forall>k x s. kn_get K k (kn_set K k x s) = kn_norm K k x) \<and>
      (\<forall>j k x s. j \<noteq> k \<longrightarrow> kn_get K j (kn_set K k x s) = kn_get K j s) \<and>
      (\<forall>k x. kn_norm K k (kn_norm K k x) = kn_norm K k x) \<and>
      (\<forall>k s. kn_norm K k (kn_get K k s) = kn_get K k s) \<and>
      (\<forall>k s. is_float_knob k \<longrightarrow> narrow (widen (kn_get K k s)) = kn_get K k s))"

lemma all_knobs: "set all_knobs = UNIV" "distinct all_knobs" "distinct (map knob_key all_knobs)"
proof -
  have "k \<in> set all_knobs" for k by (cases k) (simp_all add: all_knobs_def)
  then show "set all_knobs = UNIV" by auto
qed (simp_all add: all_knobs_def)

lemma knob_key_inj: "knob_key j = knob_key k \<longleftrightarrow> j = k"
  using all_knobs by (auto simp: distinct_map inj_on_def)

lemma get_after_sets:
  assumes "knobs_ok K" "distinct ks"
  shows "kn_get K j (fold (\<lambda>k s. kn_set K k (f k) s) ks s) =
    (if j \<in> set ks then kn_norm K j (f j) else kn_get K j s)"
  using assms(2)
proof (induction ks arbitrary: s)
  case (Cons k ks)
  then show ?case using assms(1) by (auto simp: knobs_ok_def)
qed simp

lemma get_after_apply:
  assumes "knobs_ok K" "list_all (\<lambda>(key, v). known_key E key) cfg"
  shows "kn_get K j (snd (apply_sim_config K E cfg s)) = kn_norm K j (config_value K E cfg j)"
  using assms by (simp add: apply_sim_config_def get_after_sets all_knobs)

lemma read_known:
  assumes "engine_ok E"
  shows "list_all (\<lambda>(key, v). known_key E key) (read_sim_config K s)"
  using assms by (auto simp: read_sim_config_def known_key_def list_all_iff)

lemma find_knob:
  "distinct ks \<Longrightarrow> dict_get (map (\<lambda>k. (VString (knob_key k), f k)) ks) (knob_key j) =
     (if j \<in> set ks then Some (f j) else None)"
  by (induction ks) (auto simp: dict_get_def text_of_def knob_key_inj)

lemma read_value:
  assumes "engine_ok E" "knobs_ok K"
  shows "config_value K' E (read_sim_config K s) k = kn_get K k s"
proof -
  have "ucast (scast x :: u64) = (x :: u32)" for x
    by (rule bit_word_eqI) (simp add: bit_simps)
  then show ?thesis
    using assms
    by (auto simp: config_value_def read_sim_config_def find_knob all_knobs knob_value_def
        knob_variant_def knobs_ok_def)
qed

lemma get_after_read:
  assumes "knobs_ok K" "engine_ok E"
  shows "kn_get K k (snd (apply_sim_config K E (read_sim_config K s) t)) = kn_get K k s"
  unfolding get_after_apply [OF assms(1) read_known [OF assms(2)]] read_value [OF assms(2,1)]
  using assms(1) by (simp add: knobs_ok_def)

lemma read_eq_iff: "read_sim_config K s = read_sim_config K t \<longleftrightarrow>
    (\<forall>k. knob_variant k (kn_get K k s) = knob_variant k (kn_get K k t))"
  using all_knobs(1) by (auto simp: read_sim_config_def)

text \<open>The wrapper's knobs are \<open>recv_sim\<close>'s: kept by a write and by a change of peer.\<close>

definition recv_agrees :: "'s sim_knobs \<Rightarrow> 's sims \<Rightarrow> bool" where
  "recv_agrees K m =
     (\<forall>p. sm_recv_peer m = Some p \<longrightarrow> (\<forall>k. kn_get K k p = kn_get K k (sm_recv m)))"

lemma new_peer_agrees:
  "knobs_ok K \<Longrightarrow> engine_ok E \<Longrightarrow> recv_agrees K (new_peer_sim K E fresh client m)"
  by (auto simp: recv_agrees_def new_peer_sim_def get_after_read)

lemma set_recv_agrees:
  assumes "knobs_ok K" "recv_agrees K m"
  shows "recv_agrees K (set_recv_sim_config K E cfg m)"
proof (cases "list_all (\<lambda>(key, v). known_key E key) cfg")
  case True
  then have "fst (apply_sim_config K E cfg (sm_recv m))" by (simp add: apply_sim_config_def)
  then have "set_recv_sim_config K E cfg m = m\<lparr>sm_recv := snd (apply_sim_config K E cfg (sm_recv m)),
      sm_recv_peer := map_option (\<lambda>s. snd (apply_sim_config K E cfg s)) (sm_recv_peer m)\<rparr>"
    by (simp add: set_recv_sim_config_def Let_def split_beta)
  then show ?thesis
    by (auto simp: recv_agrees_def get_after_apply [OF assms(1) True])
next
  case False
  then have "apply_sim_config K E cfg (sm_recv m) = (False, sm_recv m)"
    by (simp add: apply_sim_config_def)
  then have "set_recv_sim_config K E cfg m = m"
    by (simp add: set_recv_sim_config_def Let_def)
  then show ?thesis using assms(2) by simp
qed

subsection \<open>A concrete sim\<close>

definition demo_knobs :: "(knob \<Rightarrow> u32) sim_knobs" where
  "demo_knobs =
     \<lparr>kn_set = (\<lambda>k x s. s(k := (if is_float_knob k then 0 else x))),
      kn_get = (\<lambda>k s. if is_float_knob k then 0 else s k), kn_default = (\<lambda>k. 0),
      kn_norm = (\<lambda>k x. if is_float_knob k then 0 else x)\<rparr>"

lemma demo_knobs_ok: "knobs_ok demo_knobs"
  by (simp add: knobs_ok_def demo_knobs_def widen_def narrow_def f64_of_def f32_of_def f32_val_def
      f64_val_def fp_unpack_def fp_round_rat_def fp_sign_bit_def Let_def)

text \<open>What the environment can set: a lone latency is both ends of the range, and the per-send overhead has
  no variable.\<close>

lemma env_latency_lone:
  "knobs_ok K \<Longrightarrow> CHR '','' \<notin> set v \<Longrightarrow> v \<noteq> [] \<Longrightarrow>
     kn_get K Latency_Min_Ms (env_latency K str_int v s) = kn_norm K Latency_Min_Ms (str_int v) \<and>
     kn_get K Latency_Max_Ms (env_latency K str_int v s) = kn_norm K Latency_Max_Ms (str_int v)"
proof -
  assume "knobs_ok K" "CHR '','' \<notin> set v" "v \<noteq> []"
  moreover have "CHR '','' \<notin> set u \<Longrightarrow> split_commas u = [u]" for u
    by (induction u) auto
  ultimately show ?thesis by (simp add: env_latency_def knobs_ok_def)
qed

lemma env_sim_overhead:
  "knobs_ok K \<Longrightarrow> kn_get K Link_Overhead (env_sim K atoi str_int str_float getenv s) = kn_get K Link_Overhead s"
  by (simp add: env_sim_def env_latency_def env_link_def env_spike_def Let_def knobs_ok_def split: option.split list.split)

subsection \<open>Properties\<close>

text \<open>C39: a write of the sim configuration is all or nothing. One unknown key rejects it whole and
  changes no knob; otherwise every knob is replaced, by the value given for it or, where none is, by its
  default, so \<open>{}\<close> turns the whole simulation off.\<close>

theorem sim_config_replaces_whole:
  assumes "knobs_ok K"
  shows "(if \<forall>(key, v) \<in> set cfg. to_str E key \<in> set (map knob_key all_knobs)
     then fst (apply_sim_config K E cfg s) \<and>
          (\<forall>k. kn_get K k (snd (apply_sim_config K E cfg s)) =
             kn_norm K k (case dict_get cfg (knob_key k) of Some v \<Rightarrow> knob_value E k v | None \<Rightarrow> kn_default K k))
     else apply_sim_config K E cfg s = (False, s))"
proof -
  have "list_all (\<lambda>(key, v). known_key E key) cfg =
      (\<forall>(key, v) \<in> set cfg. to_str E key \<in> set (map knob_key all_knobs))"
    by (simp add: list_all_iff known_key_def)
  then show ?thesis
    using get_after_apply [OF assms, of E cfg _ s]
    by (auto simp: config_value_def apply_sim_config_def)
qed

lemma sim_config_replaces_whole_witness:
  "apply_sim_config demo_knobs demo_engine [(VString ''los_percent'', VInt 100)] (\<lambda>k. 5) = (False, \<lambda>k. 5)"
  using sim_config_replaces_whole [OF demo_knobs_ok, of "[(VString ''los_percent'', VInt 100)]" demo_engine "\<lambda>k. 5"]
  by (simp add: engine_okD [OF demo_engine_ok] all_knobs_def)

text \<open>What is read back can be written back: applying a sim's own reading to any sim succeeds and
  gives that sim the same reading, and every knob the value it had, so a read, modify, write of one knob
  disturbs no other.\<close>

theorem sim_config_round_trip:
  assumes "knobs_ok K" "engine_ok E"
  shows "fst (apply_sim_config K E (read_sim_config K s) t) \<and>
     (\<forall>k. kn_get K k (snd (apply_sim_config K E (read_sim_config K s) t)) = kn_get K k s) \<and>
     read_sim_config K (snd (apply_sim_config K E (read_sim_config K s) t)) = read_sim_config K s"
  using read_known [OF assms(2), of K s] get_after_read [OF assms]
  by (simp add: read_eq_iff) (simp add: apply_sim_config_def)

lemma sim_config_round_trip_witness:
  "fst (apply_sim_config demo_knobs demo_engine (read_sim_config demo_knobs (\<lambda>k. 7)) (\<lambda>k. 1)) \<and>
   (\<forall>k. kn_get demo_knobs k (snd (apply_sim_config demo_knobs demo_engine (read_sim_config demo_knobs (\<lambda>k. 7)) (\<lambda>k. 1))) =
      kn_get demo_knobs k (\<lambda>k. 7)) \<and>
   read_sim_config demo_knobs (snd (apply_sim_config demo_knobs demo_engine (read_sim_config demo_knobs (\<lambda>k. 7)) (\<lambda>k. 1))) =
     read_sim_config demo_knobs (\<lambda>k. 7)"
  by (rule sim_config_round_trip [OF demo_knobs_ok demo_engine_ok])

text \<open>The receive settings outlive a session and hold in the running one: after any writes of
  \<open>recv_sim_config\<close> (rejected ones included) and any changes of peer, the wrapper around the current
  client peer reads as \<open>recv_sim_config\<close> does.\<close>

theorem recv_sim_follows_config:
  assumes "knobs_ok K" "engine_ok E"
    and "m = foldl (\<lambda>m op. case op of Inl cfg \<Rightarrow> set_recv_sim_config K E cfg m
                              | Inr (fresh, client) \<Rightarrow> new_peer_sim K E fresh client m)
           \<lparr>sm_sim = s, sm_recv = r, sm_recv_peer = None\<rparr> ops"
  shows "(case sm_recv_peer m of None \<Rightarrow> True | Some p \<Rightarrow> read_sim_config K p = get_recv_sim_config K m)"
proof -
  let ?step = "\<lambda>m op. case op of Inl cfg \<Rightarrow> set_recv_sim_config K E cfg m
                              | Inr (fresh, client) \<Rightarrow> new_peer_sim K E fresh client m"
  have run: "recv_agrees K m \<Longrightarrow> recv_agrees K (foldl ?step m ops)" for m
  proof (induction ops arbitrary: m)
    case (Cons op ops)
    then have "recv_agrees K (?step m op)"
      by (auto split: sum.split simp: set_recv_agrees [OF assms(1)] new_peer_agrees [OF assms(1,2)])
    from Cons.IH [OF this] show ?case by simp
  qed simp
  have "recv_agrees K m"
    unfolding assms(3) by (rule run) (simp add: recv_agrees_def)
  then show ?thesis
    by (cases "sm_recv_peer m") (simp_all add: recv_agrees_def get_recv_sim_config_def read_eq_iff)
qed

lemma recv_sim_follows_config_witness:
  "(case sm_recv_peer (foldl (\<lambda>m op. case op of Inl cfg \<Rightarrow> set_recv_sim_config demo_knobs demo_engine cfg m
                              | Inr (fresh, client) \<Rightarrow> new_peer_sim demo_knobs demo_engine fresh client m)
           \<lparr>sm_sim = \<lambda>k. 0, sm_recv = \<lambda>k. 0, sm_recv_peer = None\<rparr>
           [Inr (\<lambda>k. 0, True), Inl [(VString ''seed'', VInt 4)]]) of None \<Rightarrow> True
    | Some p \<Rightarrow> read_sim_config demo_knobs p = get_recv_sim_config demo_knobs
        (foldl (\<lambda>m op. case op of Inl cfg \<Rightarrow> set_recv_sim_config demo_knobs demo_engine cfg m
                              | Inr (fresh, client) \<Rightarrow> new_peer_sim demo_knobs demo_engine fresh client m)
           \<lparr>sm_sim = \<lambda>k. 0, sm_recv = \<lambda>k. 0, sm_recv_peer = None\<rparr>
           [Inr (\<lambda>k. 0, True), Inl [(VString ''seed'', VInt 4)]]))"
  by (rule recv_sim_follows_config [OF demo_knobs_ok demo_engine_ok refl])

end
