(* ===== verification/Settings.thy ===== *)
theory Settings
  imports Prelude
begin

section \<open>The settings that are the core's\<close>

text \<open>
  The properties of the API instance that \<open>goldnet_multiplayer.cpp\<close> only hands on: the rates a client asks to be
  served at and sends its commands at, and the server's relevance events. The values live in goldnet's core, so
  its setters and getters are the record \<open>core_settings\<close>, over a state of any type; what is the binding's own is
  that a rate of 0 or below is handed on as 0, no limit, and that an automatic command rate is given the physics
  rate of the moment as its bound. \<open>manual_send\<close> is the binding's own field, and a plain one.
  \<open>snapshot_rate\<close> is in \<open>Cadence\<close>, and the sims' settings in \<open>Sim_Config\<close>.
\<close>

type_synonym i32 = "32 word" \<comment> \<open>read by \<open>sint\<close>\<close>

record 'c core_settings =
  cs_set_update_rate :: "u32 \<Rightarrow> 'c \<Rightarrow> 'c"
  cs_update_rate :: "'c \<Rightarrow> u32"
  cs_set_rate :: "u32 \<Rightarrow> 'c \<Rightarrow> 'c"
  cs_rate :: "'c \<Rightarrow> u32"
  cs_set_auto_rate :: "bool \<Rightarrow> 'c \<Rightarrow> 'c"
  cs_auto_rate :: "'c \<Rightarrow> bool"
  cs_set_relevance_events :: "bool \<Rightarrow> 'c \<Rightarrow> 'c"
  cs_relevance_events :: "'c \<Rightarrow> bool"
  cs_set_command_rate :: "f64 \<Rightarrow> 'c \<Rightarrow> 'c"
  cs_command_rate :: "'c \<Rightarrow> f64"
  cs_set_auto_command_rate :: "bool \<Rightarrow> f64 \<Rightarrow> 'c \<Rightarrow> 'c"
  cs_auto_command_rate :: "'c \<Rightarrow> bool"

definition set_update_rate :: "'c core_settings \<Rightarrow> i32 \<Rightarrow> 'c \<Rightarrow> 'c" where
  "set_update_rate C hz c = cs_set_update_rate C (if 0 < sint hz then hz else 0) c"

definition get_update_rate :: "'c core_settings \<Rightarrow> 'c \<Rightarrow> i32" where
  "get_update_rate C c = cs_update_rate C c"

definition set_rate :: "'c core_settings \<Rightarrow> i32 \<Rightarrow> 'c \<Rightarrow> 'c" where
  "set_rate C bps c = cs_set_rate C (if 0 < sint bps then bps else 0) c"

definition get_rate :: "'c core_settings \<Rightarrow> 'c \<Rightarrow> i32" where
  "get_rate C c = cs_rate C c"

definition set_auto_rate :: "'c core_settings \<Rightarrow> bool \<Rightarrow> 'c \<Rightarrow> 'c" where
  "set_auto_rate C b c = cs_set_auto_rate C b c"

definition get_auto_rate :: "'c core_settings \<Rightarrow> 'c \<Rightarrow> bool" where
  "get_auto_rate C c = cs_auto_rate C c"

definition set_relevance_events :: "'c core_settings \<Rightarrow> bool \<Rightarrow> 'c \<Rightarrow> 'c" where
  "set_relevance_events C b c = cs_set_relevance_events C b c"

definition get_relevance_events :: "'c core_settings \<Rightarrow> 'c \<Rightarrow> bool" where
  "get_relevance_events C c = cs_relevance_events C c"

definition set_command_rate :: "'c core_settings \<Rightarrow> f64 \<Rightarrow> 'c \<Rightarrow> 'c" where
  "set_command_rate C hz c = cs_set_command_rate C hz c"

definition get_command_rate :: "'c core_settings \<Rightarrow> 'c \<Rightarrow> f64" where
  "get_command_rate C c = cs_command_rate C c"

text \<open>\<open>ticks\<close> is the engine's \<open>get_physics_ticks_per_second\<close>, as a double.\<close>

definition set_auto_command_rate :: "'c core_settings \<Rightarrow> f64 \<Rightarrow> bool \<Rightarrow> 'c \<Rightarrow> 'c" where
  "set_auto_command_rate C ticks b c = cs_set_auto_command_rate C b ticks c"

definition get_auto_command_rate :: "'c core_settings \<Rightarrow> 'c \<Rightarrow> bool" where
  "get_auto_command_rate C c = cs_auto_command_rate C c"

text \<open>Wherever the core answers with the rate it was last given, a rate above 0 reads back as it was set, at its
  whole width, and any other as 0.\<close>

lemma rates_read_back:
  "cs_rate C (cs_set_rate C v c) = v \<Longrightarrow> v = (if 0 < sint bps then bps else 0) \<Longrightarrow>
     sint (get_rate C (set_rate C bps c)) = max 0 (sint bps)"
  "cs_update_rate C (cs_set_update_rate C v c) = v \<Longrightarrow> v = (if 0 < sint hz then hz else 0) \<Longrightarrow>
     sint (get_update_rate C (set_update_rate C hz c)) = max 0 (sint hz)"
  by (auto simp: get_rate_def set_rate_def get_update_rate_def set_update_rate_def)

end
