(* ===== verification/Entity_Stream.thy ===== *)
theory Entity_Stream
  imports Entity
begin

section \<open>One entity over a session's frames\<close>

text \<open>
  An entity's state travels as a sequence of frames, each coded against an earlier one the peer is known to
  have. Any of them may be lost: those here are the ones that arrive, each over any earlier one. The core keeps the frames and chooses the baselines; the binding writes the
  slots (\<open>host_encode\<close>), and reads and sets them at the other end (\<open>client_entity\<close>). Here the two run
  together, frame by frame: what the client decodes becomes the baseline of later frames, the codings it made
  are kept between updates, and the properties it writes are collected. \<open>Slot_Stream\<close> follows one slot with
  no entity around it; this theory follows the whole operations.

  \<open>kept_after\<close> and \<open>frame_arrives\<close> are one frame's step, \<open>stream_in_view\<close> the induction over the frames.
\<close>

subsection \<open>Frames\<close>

text \<open>One frame of an entity for one peer: the two scenes and the client's ids at that time, the baseline the core
  chose (an earlier frame the peer has, or none: the whole entity), the slots it sent, the clock.\<close>

record entity_frame =
  ef_server :: world
  ef_client :: world
  ef_ids :: net_ids
  ef_base :: "nat option"
  ef_changed :: "nat list"
  ef_now :: u32

definition base_slot :: "(nat \<Rightarrow> variant) list \<Rightarrow> nat option \<Rightarrow> nat \<Rightarrow> variant option" where
  "base_slot xs b s = map_option (\<lambda>x. x s) (held xs b)"

text \<open>The update of a frame, from what the server sent and the client got at the frames before.\<close>

definition frame_update ::
  "wire \<Rightarrow> engine \<Rightarrow> net_id \<Rightarrow> sync_data \<Rightarrow> entity_frame \<Rightarrow> (nat \<Rightarrow> variant) list \<Rightarrow> (nat \<Rightarrow> variant) list \<Rightarrow> entity_update" where
  "frame_update W E i d fr sent got =
     \<lparr>eu_net_id = i, eu_whole = (ef_base fr = None), eu_kinds_check = check (sd_coding d), eu_changed = ef_changed fr,
      eu_base = base_slot got (ef_base fr), eu_server_time = ef_now fr,
      eu_reader = reader_of (entity_bytes W E (sd_coding d) (entity_value (ef_server fr) d) (base_slot sent (ef_base fr))
        (ef_now fr) (ef_changed fr))\<rparr>"

text \<open>The core's slots after an update: the baseline's, with what \<open>u.set\<close> recorded over them.\<close>

definition slots_after :: "(nat \<Rightarrow> variant) option \<Rightarrow> (nat \<times> variant) list \<Rightarrow> nat \<Rightarrow> variant" where
  "slots_after base sets = fold (\<lambda>(s, v) x. x(s := v)) sets (case base of Some x \<Rightarrow> x | None \<Rightarrow> (\<lambda>_. VNil))"

text \<open>What the client has of each frame, and what it writes to the game's properties.\<close>

fun entity_stream ::
  "wire \<Rightarrow> engine \<Rightarrow> nat \<Rightarrow> net_id \<Rightarrow> sync_data \<Rightarrow> entity_frame list \<Rightarrow> (nat \<Rightarrow> variant) list \<Rightarrow>
   (nat \<Rightarrow> variant) list \<times> (objid \<times> node_path \<times> variant) list list \<times> entity_client \<Rightarrow>
   (nat \<Rightarrow> variant) list \<times> (objid \<times> node_path \<times> variant) list list \<times> entity_client" where
  "entity_stream W E cap i d [] sent st = st"
| "entity_stream W E cap i d (fr # frs) sent (got, written, ec) =
     (let (out, ec1) = client_entity W E cap (ef_client fr) (ef_ids fr) (frame_update W E i d fr sent got) ec
      in entity_stream W E cap i d frs (sent @ [entity_value (ef_server fr) d])
           (got @ [slots_after (held got (ef_base fr)) (eo_set out)], written @ [eo_written out], ec1))"

subsection \<open>What the core sees to, and what the two ends share\<close>

text \<open>A frame's slots are slots of the entity, all of them where there is no baseline and otherwise at least those that
  changed since it; their values are ones their kinds carry.\<close>

definition frame_ok :: "wire \<Rightarrow> engine \<Rightarrow> sync_data \<Rightarrow> (nat \<Rightarrow> variant) list \<Rightarrow> entity_frame \<Rightarrow> bool" where
  "frame_ok W E d sent fr =
     (let c = sd_coding d; v = entity_value (ef_server fr) d in
      list_all (\<lambda>s. s < length (kinds c)) (ef_changed fr) \<and>
      list_all (\<lambda>s. slot_ok E (kinds c ! s) (quant c ! s) (v s) \<and> slot_stable W E (kinds c ! s) (grids c ! s) (v s))
        [0..<length (kinds c)] \<and>
      (case held sent (ef_base fr) of
         None \<Rightarrow> ef_base fr = None \<and> list_all (\<lambda>s. s \<in> set (ef_changed fr)) [0..<length (kinds c)]
       | Some w \<Rightarrow> list_all (\<lambda>s. s \<in> set (ef_changed fr) \<or> v s = w s) [0..<length (kinds c)]))"

fun frames_ok :: "wire \<Rightarrow> engine \<Rightarrow> sync_data \<Rightarrow> (nat \<Rightarrow> variant) list \<Rightarrow> entity_frame list \<Rightarrow> bool" where
  "frames_ok W E d sent [] = True"
| "frames_ok W E d sent (fr # frs) =
     (frame_ok W E d sent fr \<and> frames_ok W E d (sent @ [entity_value (ef_server fr) d]) frs)"

text \<open>The client's scene at a frame has the entity's synchronizer, in the tree, and would code it as the server does.\<close>

definition client_has :: "engine \<Rightarrow> nat \<Rightarrow> net_id \<Rightarrow> sync_data \<Rightarrow> objid \<Rightarrow> entity_frame \<Rightarrow> bool" where
  "client_has E cap i d so fr =
     (sync_from_objid (ef_client fr) (ids_object (ef_ids fr) i) = Some so \<and> wd_in_tree (ef_client fr) so \<and>
      made_coding E cap (ef_client fr) so = sd_coding d)"

lemma slots_after_at:
  assumes "\<And>s v. (s, v) \<in> set sets \<Longrightarrow> v = f s"
  shows "slots_after base sets s =
    (if s \<in> fst ` set sets then f s else case base of Some x \<Rightarrow> x s | None \<Rightarrow> VNil)"
proof -
  have "fold (\<lambda>(s, v) x. x(s := v)) sets y s = (if s \<in> fst ` set sets then f s else y s)"
    if "\<And>s v. (s, v) \<in> set sets \<Longrightarrow> v = f s" for y
    using that
  proof (induction sets arbitrary: y)
    case (Cons a sets)
    then have "snd a = f (fst a)" by (cases a) simp
    then show ?case using Cons.IH Cons.prems by (cases a) (auto simp: image_iff)
  qed simp
  then show ?thesis using assms by (simp add: slots_after_def split: option.split)
qed

text \<open>What the client has of a frame is the view of what the server read at it.\<close>

definition in_view :: "wire \<Rightarrow> engine \<Rightarrow> slot_coding \<Rightarrow> (nat \<Rightarrow> variant) \<Rightarrow> (nat \<Rightarrow> variant) \<Rightarrow> bool" where
  "in_view W E c v x = (\<forall>s < length (kinds c). x s = slot_seen W E c v s)"

definition read_ok :: "wire \<Rightarrow> engine \<Rightarrow> slot_coding \<Rightarrow> (nat \<Rightarrow> variant) \<Rightarrow> bool" where
  "read_ok W E c v =
     (\<forall>s < length (kinds c). slot_ok E (kinds c ! s) (quant c ! s) (v s) \<and> slot_stable W E (kinds c ! s) (grids c ! s) (v s))"

lemma held_in_view:
  "list_all2 (in_view W E c) sent got \<Longrightarrow> held sent b = Some w \<Longrightarrow> \<exists>x. held got b = Some x \<and> in_view W E c w x"
  by (auto simp: held_def list_all2_conv_all_nth split: option.splits if_splits)

lemma held_none_view: "list_all2 P sent got \<Longrightarrow> held sent b = None \<longleftrightarrow> held got b = None"
  by (auto simp: held_def list_all2_conv_all_nth split: option.splits)

lemma held_all: "list_all P xs \<Longrightarrow> held xs b = Some w \<Longrightarrow> P w"
  by (auto simp: held_def list_all_length split: option.splits if_splits)

lemma frame_arrives:
  assumes "wire_ok W" "angle_ok W" "engine_ok E" "client_has E cap i d so fr" "frame_ok W E d sent fr"
    and "codings_fresh E cap (ef_client fr) ec so" "length (kinds (sd_coding d)) = length (get_sync_slots cap (wd_sync (ef_client fr) so))"
    and "list_all2 (in_view W E (sd_coding d)) sent got" "list_all (read_ok W E (sd_coding d)) sent"
    and "client_entity W E cap (ef_client fr) (ef_ids fr) (frame_update W E i d fr sent got) ec = (out, ec1)"
  shows "in_view W E (sd_coding d) (entity_value (ef_server fr) d) (slots_after (held got (ef_base fr)) (eo_set out)) \<and>
    eo_written out = slot_writes (wd_scene (ef_client fr)) (sy_root (wd_sync (ef_client fr) so))
      (get_sync_slots cap (wd_sync (ef_client fr) so)) (slot_seen W E (sd_coding d) (entity_value (ef_server fr) d)) (ef_changed fr)"
proof -
  let ?c = "sd_coding d" and ?v = "entity_value (ef_server fr) d" and ?b = "ef_base fr"
  note has = assms(4) [unfolded client_has_def]
  have slot: "slot_ok E (kinds ?c ! s) (quant ?c ! s) (?v s)" if "s < length (kinds ?c)" for s
    using assms(5) that by (simp add: frame_ok_def Let_def list_all_iff)
  have base: "base_agrees W E (kinds ?c ! s) (grids ?c ! s) (base_slot sent ?b s) (base_slot got ?b s)"
    if s: "s < length (kinds ?c)" for s
  proof (cases "held sent ?b")
    case None
    then show ?thesis using held_none_view [OF assms(8), of ?b] by (simp add: base_slot_def base_agrees_none)
  next
    case (Some w)
    then obtain x where x: "held got ?b = Some x" "in_view W E ?c w x" using held_in_view [OF assms(8)] by blast
    have "slot_stable W E (kinds ?c ! s) (grids ?c ! s) (w s)"
      using held_all [OF assms(9) Some] s by (simp add: read_ok_def)
    from base_agrees_view [OF assms(3) this, of "quant ?c ! s"] show ?thesis
      using x s Some by (simp add: base_slot_def in_view_def slot_seen_def)
  qed
  have "list_all (change_ok W E ?c ?v (base_slot sent ?b) (base_slot got ?b)) (ef_changed fr)"
    using assms(5) slot base by (simp add: change_ok_def frame_ok_def Let_def list_all_iff)
  from entity_slots_decode [OF assms(1,2) assms(7) [symmetric] this, of "wd_scene (ef_client fr)"
      "sy_root (wd_sync (ef_client fr) so)" "ef_now fr" "[]"]
  have out: "eo_set out = map (\<lambda>s. (s, slot_seen W E ?c ?v s)) (ef_changed fr)"
    "eo_written out = slot_writes (wd_scene (ef_client fr)) (sy_root (wd_sync (ef_client fr) so))
      (get_sync_slots cap (wd_sync (ef_client fr) so)) (slot_seen W E ?c ?v) (ef_changed fr)"
    using client_entity_applies [of "ef_client fr" "ef_ids fr" "frame_update W E i d fr sent got" so E cap ec W] has assms(6,10)
    by (simp_all add: frame_update_def)
  have "slots_after (held got ?b) (eo_set out) s = slot_seen W E ?c ?v s" if s: "s < length (kinds ?c)" for s
  proof (cases "s \<in> set (ef_changed fr)")
    case True
    then show ?thesis by (subst slots_after_at [where f = "slot_seen W E ?c ?v"]) (auto simp: out image_iff)
  next
    case False
    then obtain w where w: "held sent ?b = Some w" "?v s = w s"
      using assms(5) s by (auto simp: frame_ok_def Let_def list_all_iff split: option.splits)
    then obtain x where "held got ?b = Some x" "in_view W E ?c w x" using held_in_view [OF assms(8)] by blast
    then show ?thesis
      using False w s
      by (subst slots_after_at [where f = "slot_seen W E ?c ?v"]) (auto simp: out image_iff in_view_def slot_seen_def)
  qed
  then show ?thesis using out(2) by (simp add: in_view_def)
qed


definition coding_kept :: "sync_data \<Rightarrow> objid \<Rightarrow> entity_client \<Rightarrow> bool" where
  "coding_kept d so ec = (case hm_get (ec_codings ec) so of None \<Rightarrow> True | Some c \<Rightarrow> c = sd_coding d)"

lemma kept_after:
  assumes "client_has E cap i d so fr" "coding_kept d so ec" "eu_net_id u = i"
  shows "coding_kept d so (snd (client_entity W E cap (ef_client fr) (ef_ids fr) u ec))"
proof -
  have "snd (client_coding E cap (ef_client fr) so ec) = ec \<or>
      ec_codings (snd (client_coding E cap (ef_client fr) so ec)) = hm_put so (sd_coding d) (ec_codings ec)"
    using assms(1) by (auto simp: client_coding_def client_has_def made_coding_def Let_def split: option.split)
  then have "coding_kept d so (snd (client_coding E cap (ef_client fr) so ec))"
    using assms(2) by (auto simp: coding_kept_def)
  then show ?thesis
    using assms by (auto simp: client_entity_def client_has_def coding_kept_def Let_def split_beta)
qed

definition frame_writes :: "wire \<Rightarrow> engine \<Rightarrow> nat \<Rightarrow> sync_data \<Rightarrow> objid \<Rightarrow> entity_frame \<Rightarrow> (objid \<times> node_path \<times> variant) list" where
  "frame_writes W E cap d so fr =
     slot_writes (wd_scene (ef_client fr)) (sy_root (wd_sync (ef_client fr) so))
       (get_sync_slots cap (wd_sync (ef_client fr) so)) (slot_seen W E (sd_coding d) (entity_value (ef_server fr) d))
       (ef_changed fr)"

lemma stream_in_view:
  assumes "wire_ok W" "angle_ok W" "engine_ok E"
    and "frames_ok W E d sent frs" "list_all (client_has E cap i d so) frs" "coding_kept d so ec"
    and "list_all2 (in_view W E (sd_coding d)) sent got" "list_all (read_ok W E (sd_coding d)) sent"
    and "entity_stream W E cap i d frs sent (got, written, ec) = (got1, written1, ec1)"
  shows "list_all2 (in_view W E (sd_coding d)) (sent @ map (\<lambda>fr. entity_value (ef_server fr) d) frs) got1 \<and>
    written1 = written @ map (frame_writes W E cap d so) frs"
  using assms(4-9)
proof (induction frs arbitrary: sent got written ec)
  case (Cons fr frs)
  let ?v = "entity_value (ef_server fr) d"
  obtain out ec2 where ce: "client_entity W E cap (ef_client fr) (ef_ids fr) (frame_update W E i d fr sent got) ec = (out, ec2)"
    by (cases "client_entity W E cap (ef_client fr) (ef_ids fr) (frame_update W E i d fr sent got) ec")
  have has: "client_has E cap i d so fr" and fr: "frame_ok W E d sent fr"
    and rest: "frames_ok W E d (sent @ [?v]) frs" "list_all (client_has E cap i d so) frs"
    using Cons.prems(1,2) by simp_all
  have fresh: "codings_fresh E cap (ef_client fr) ec so"
    using Cons.prems(3) has by (auto simp: codings_fresh_def coding_kept_def client_has_def split: option.splits)
  have len: "length (kinds (sd_coding d)) = length (get_sync_slots cap (wd_sync (ef_client fr) so))"
    using has unfolding client_has_def made_coding_def by (metis length_coding)
  note A = frame_arrives [OF assms(1-3) has fr fresh len Cons.prems(4,5) ce]
  have "read_ok W E (sd_coding d) ?v" using fr by (simp add: read_ok_def frame_ok_def Let_def list_all_iff)
  moreover have "coding_kept d so ec2"
    using kept_after [OF has Cons.prems(3), of "frame_update W E i d fr sent got" W] ce by (simp add: frame_update_def)
  ultimately show ?case
    using Cons.IH [OF rest, of ec2 "got @ [slots_after (held got (ef_base fr)) (eo_set out)]" "written @ [eo_written out]"]
      Cons.prems(4-6) A ce
    by (simp add: list_all2_appendI frame_writes_def)
qed simp

subsection \<open>Properties\<close>

text \<open>C3: an entity does not drift: over any sequence of frames, whichever earlier frame each is coded
  against, what the client has of a frame is, slot by slot, the wire's view of what the server read at that
  frame, and never what errors of earlier frames added up to; and the properties the client sets at a frame are
  those of the slots sent, in their order, with those values.\<close>

theorem entity_stream_never_drifts:
  assumes "wire_ok W" "angle_ok W" "engine_ok E"
    and "frames_ok W E d [] frs" "list_all (client_has E cap i d so) frs" "hm_get (ec_codings ec) so = None"
    and "entity_stream W E cap i d frs [] ([], [], ec) = (got, written, ec1)"
  shows "length got = length frs \<and>
    (\<forall>k < length frs. \<forall>s < length (kinds (sd_coding d)).
       (got ! k) s = slot_view W E (kinds (sd_coding d) ! s) (grids (sd_coding d) ! s) (quant (sd_coding d) ! s)
         (entity_value (ef_server (frs ! k)) d s)) \<and>
    written = map (frame_writes W E cap d so) frs"
proof -
  have "list_all2 (in_view W E (sd_coding d)) ([] @ map (\<lambda>fr. entity_value (ef_server fr) d) frs) got \<and>
      written = [] @ map (frame_writes W E cap d so) frs"
    by (rule stream_in_view [OF assms(1-5) _ _ _ assms(7)]) (simp_all add: coding_kept_def assms(6))
  then show ?thesis
    by (simp add: list_all2_conv_all_nth in_view_def slot_seen_def)
qed


definition demo_later_world :: world where
  "demo_later_world = demo_server_world\<lparr>wd_get := (\<lambda>_ p. if np_subs p = [''a''] then VInt 6 else VBool True)\<rparr>"

definition demo_frame :: "world \<Rightarrow> nat option \<Rightarrow> nat list \<Rightarrow> entity_frame" where
  "demo_frame Wd b ss = \<lparr>ef_server = Wd, ef_client = demo_client_world, ef_ids = demo_client_ids, ef_base = b, ef_changed = ss, ef_now = 9\<rparr>"

definition demo_frames :: "entity_frame list" where
  "demo_frames = [demo_frame demo_server_world None [0, 1], demo_frame demo_later_world (Some 0) [0],
     demo_frame demo_server_world (Some 0) [1]]"

lemma demo_later: "entity_value demo_later_world demo_entity 0 = VInt 6" "entity_value demo_later_world demo_entity (Suc 0) = VBool True"
  by (simp_all add: entity_value_def demo_entity_def demo_plan read_now_def alive_def demo_later_world_def demo_server_world_def)

lemma demo_frames_ok: "frames_ok demo_wire demo_engine demo_entity [] demo_frames"
  by (simp add: demo_frames_def demo_frame_def frame_ok_def held_def demo_kinds demo_later demo_values [unfolded One_nat_def]
      slot_ok_def slot_kind_stepped_def payload_ok_def tag_opaque_def slot_stable_def upt_rec)

lemma demo_client_has: "list_all (client_has demo_engine 32 4 demo_entity 30) demo_frames"
  by (simp add: demo_frames_def demo_frame_def client_has_def demo_client_id demo_worlds made_coding_def demo_coding)

lemma entity_stream_never_drifts_witness:
  "\<exists>got written ec1. entity_stream demo_wire demo_engine 32 4 demo_entity demo_frames []
       ([], [], \<lparr>ec_codings = [], ec_warned = []\<rparr>) = (got, written, ec1) \<and>
     map (\<lambda>x. (x 0, x 1)) got = [(VInt 5, VBool True), (VInt 6, VBool True), (VInt 5, VBool True)]"
proof -
  obtain got written ec1 where run: "entity_stream demo_wire demo_engine 32 4 demo_entity demo_frames []
      ([], [], \<lparr>ec_codings = [], ec_warned = []\<rparr>) = (got, written, ec1)"
    by (metis prod_cases3)
  have len: "length demo_frames = 3" by (simp add: demo_frames_def)
  from entity_stream_never_drifts [OF demo_wire_ok demo_angle_ok demo_engine_ok demo_frames_ok demo_client_has _ run]
  have got: "length got = 3" "\<forall>k < 3. \<forall>s < 2. (got ! k) s = slot_view demo_wire demo_engine (kinds (sd_coding demo_entity) ! s)
      (grids (sd_coding demo_entity) ! s) (quant (sd_coding demo_entity) ! s) (entity_value (ef_server (demo_frames ! k)) demo_entity s)"
    by (simp_all add: len demo_kinds numeral_2_eq_2)
  then obtain a b c where abc: "got = [a, b, c]" by (auto simp: numeral_3_eq_3 length_Suc_conv)
  have all3: "(\<forall>k < 3. P k) \<longleftrightarrow> P 0 \<and> P (Suc 0) \<and> P (Suc (Suc 0))" for P :: "nat \<Rightarrow> bool"
    by (auto simp: numeral_3_eq_3 less_Suc_eq)
  have all2: "(\<forall>k < 2. P k) \<longleftrightarrow> P 0 \<and> P (Suc 0)" for P :: "nat \<Rightarrow> bool"
    by (auto simp: numeral_2_eq_2 less_Suc_eq)
  have "map (\<lambda>x. (x 0, x 1)) got = [(VInt 5, VBool True), (VInt 6, VBool True), (VInt 5, VBool True)]"
    using got(2) unfolding all3 all2
    by (simp add: abc demo_frames_def demo_frame_def demo_kinds demo_later demo_values [unfolded One_nat_def]
        slot_view_def payload_view_def engine_okD [OF demo_engine_ok])
  with run have r: "entity_stream demo_wire demo_engine 32 4 demo_entity demo_frames []
       ([], [], \<lparr>ec_codings = [], ec_warned = []\<rparr>) = (got, written, ec1) \<and>
     map (\<lambda>x. (x 0, x 1)) got = [(VInt 5, VBool True), (VInt 6, VBool True), (VInt 5, VBool True)]" by (rule conjI)
  show ?thesis by (rule exI, rule exI, rule exI, rule r)
qed

end
