(* ===== verification/Server_Records.thy ===== *)
theory Server_Records
  imports Replica
begin

section \<open>The records of a server name what they say\<close>

text \<open>
  What holds of everything a server has handed its core, over any run of the events of \<open>Core_View\<close>: each record
  carries ids of the objects they were given to, with the paths and the data those objects had
  (\<open>made\<close>, \<open>server_inv\<close>, \<open>server_step\<close>). A server's ids only get later, a preorder on their states: an id below the
  counter never comes to name another object, so \<open>G\<close>, which object each id was given to, is only ever
  extended (\<open>extends\<close>), and what was made stays made (\<open>made_later\<close>).
\<close>

subsection \<open>Later states of a server's ids\<close>

instantiation net_ids_ext :: (type) preorder
begin

definition less_eq_net_ids_ext :: "'a net_ids_scheme \<Rightarrow> 'a net_ids_scheme \<Rightarrow> bool" where
  "s \<le> t \<longleftrightarrow> next_id s \<le> next_id t \<and>
     (\<forall>i e. i < next_id s \<longrightarrow> hm_get (by_id t) i = Some e \<longrightarrow> (\<exists>d. hm_get (by_id s) i = Some d \<and> e_obj d = e_obj e))"

definition less_net_ids_ext :: "'a net_ids_scheme \<Rightarrow> 'a net_ids_scheme \<Rightarrow> bool" where
  "s < t \<longleftrightarrow> s \<le> t \<and> \<not> t \<le> s" for s t :: "'a net_ids_scheme"

instance
proof
  fix s t u :: "'a net_ids_scheme"
  show "s < t \<longleftrightarrow> s \<le> t \<and> \<not> t \<le> s" by (rule less_net_ids_ext_def)
  show "s \<le> s" by (simp add: less_eq_net_ids_ext_def)
  assume st: "s \<le> t" and tu: "t \<le> u"
  have "\<exists>d. hm_get (by_id s) i = Some d \<and> e_obj d = e_obj e" if i: "i < next_id s" and e: "hm_get (by_id u) i = Some e" for i e
  proof -
    have "i < next_id t" using st i by (auto simp: less_eq_net_ids_ext_def)
    then obtain c where "hm_get (by_id t) i = Some c" "e_obj c = e_obj e"
      using tu e unfolding less_eq_net_ids_ext_def by blast
    then show ?thesis using st i unfolding less_eq_net_ids_ext_def by force
  qed
  then show "s \<le> u" using st tu by (auto simp: less_eq_net_ids_ext_def)
qed

end

text \<open>\<open>G\<close> says which object each id was given to, ids that name nothing any more included.\<close>

definition gives :: "(net_id \<Rightarrow> objid) \<Rightarrow> net_ids \<Rightarrow> bool" where
  "gives G s = (\<forall>i e. hm_get (by_id s) i = Some e \<longrightarrow> G i = e_obj e)"

definition extends :: "net_ids \<Rightarrow> (net_id \<Rightarrow> objid) \<Rightarrow> (net_id \<Rightarrow> objid) \<Rightarrow> bool" where
  "extends s G G1 = (\<forall>i < next_id s. G1 i = G i)"

lemma extends_refl [simp]: "extends s G G"
  by (simp add: extends_def)

lemma extends_trans: "extends s G G1 \<Longrightarrow> extends t G1 G2 \<Longrightarrow> s \<le> t \<Longrightarrow> extends s G G2"
  unfolding extends_def less_eq_net_ids_ext_def by (metis order.strict_trans2)

lemma gives_later:
  assumes "gives G s" "s \<le> t"
  shows "\<exists>G1. extends s G G1 \<and> gives G1 t"
proof -
  define G1 where "G1 i = (if i < next_id s then G i else case hm_get (by_id t) i of Some e \<Rightarrow> e_obj e | None \<Rightarrow> 0)" for i
  have "G1 i = e_obj e" if e: "hm_get (by_id t) i = Some e" for i e
  proof (cases "i < next_id s")
    case True
    then obtain d where "hm_get (by_id s) i = Some d" "e_obj d = e_obj e"
      using assms(2) e unfolding less_eq_net_ids_ext_def by blast
    then show ?thesis using assms(1) True by (simp add: G1_def gives_def)
  qed (simp add: G1_def e)
  then show ?thesis by (intro exI [of _ G1]) (simp add: gives_def extends_def G1_def)
qed

definition given :: "(net_id \<Rightarrow> objid) \<Rightarrow> net_ids \<Rightarrow> net_id \<Rightarrow> objid \<Rightarrow> bool" where
  "given G s i ob = (0 < i \<and> i < next_id s \<and> G i = ob)"

lemma given_later: "given G s i ob \<Longrightarrow> s \<le> t \<Longrightarrow> extends s G G1 \<Longrightarrow> given G1 t i ob"
  by (auto simp: given_def less_eq_net_ids_ext_def extends_def intro: order.strict_trans2)

lemma given_held: "server_ids s \<Longrightarrow> gives G s \<Longrightarrow> hm_get (by_obj s) ob = Some i \<Longrightarrow> given G s i ob"
  by (auto simp: given_def server_ids_def ids_inv_iff gives_def)

lemma later_drop: "s \<le> ids_drop i (s :: net_ids)"
  by (auto simp: less_eq_net_ids_ext_def ids_drop_by_id)

lemma later_drops: "s \<le> fold ids_drop is (s :: net_ids)"
  by (auto simp: less_eq_net_ids_ext_def drops_by_id split: if_splits)

lemma later_assign:
  assumes "ids_room (Suc k) s"
  shows "s \<le> snd (ids_assign ob s)"
proof -
  have "next_id s \<le> next_id s + 1"
    using assms u32_succ_less [of "next_id s"] by (simp add: ids_room_def word_le_nat_alt)
  then show ?thesis
    by (auto simp: less_eq_net_ids_ext_def ids_assign_def Let_def ids_put_def hm_get_put split: option.split)
qed

lemma later_names:
  "ids_room (length sys + k) ids \<Longrightarrow> ids \<le> snd (snd (name_syncs Wd n owned sys ids))"
proof (induction sys arbitrary: ids)
  case (Cons sy sys)
  then have "ids_room (Suc (length sys + k)) ids" by simp
  then show ?case
    using Cons.IH [of "snd (ids_assign sy ids)"] later_assign ids_room_assign
    by (simp add: split_beta) (meson order_trans)
qed simp

lemma spawner_net_id_later:
  assumes "spawner_net_id E Wd sp st = (i, st1)" "ids_room (Suc k) (rg_ids st)"
  shows "rg_ids st \<le> rg_ids st1 \<and> ids_room k (rg_ids st1)"
  using assms later_assign [OF assms(2)] ids_room_assign [OF assms(2)] ids_room_less [OF assms(2), of k]
  by (auto simp: spawner_net_id_def Let_def split_beta split: if_splits)

lemma drain_one_later:
  assumes "drain_one W E Wd n ps st = (fin, st1)" "ids_room (length (collect_syncs Wd (wd_tree Wd n)) + 2 + k) (rg_ids st)"
  shows "rg_ids st \<le> rg_ids st1"
proof (cases "drainable Wd st (n, ps)")
  case False
  then show ?thesis using assms(1) by (simp add: drain_one_skips)
next
  case True
  obtain sp_id s1 where sp: "spawner_net_id E Wd (ps_spawner ps) st = (sp_id, s1)"
    by (cases "spawner_net_id E Wd (ps_spawner ps) st")
  let ?ns = "snd (snd (name_syncs Wd n (rg_owned s1) (collect_syncs Wd (wd_tree Wd n)) (rg_ids s1)))"
  have a: "rg_ids st \<le> rg_ids s1" "ids_room (length (collect_syncs Wd (wd_tree Wd n)) + Suc k) (rg_ids s1)"
    using spawner_net_id_later [OF sp, of "length (collect_syncs Wd (wd_tree Wd n)) + Suc k"] assms(2) by simp_all
  note a(1)
  also have "rg_ids s1 \<le> ?ns" using later_names [OF a(2)] .
  also have "?ns \<le> snd (ids_assign n ?ns)" using later_assign [OF name_syncs_room [OF a(2)]] .
  finally show ?thesis
    using assms(1) True sp by (auto simp: drain_one_def drainable_def split_beta)
qed

subsection \<open>Records made from what the server had\<close>

text \<open>\<open>SW\<close> are the scenes the server's polls ran in, \<open>CAP\<close> the spawns captured: node, spawner, data.\<close>

definition bind_made :: "engine \<Rightarrow> world set \<Rightarrow> (net_id \<Rightarrow> objid) \<Rightarrow> net_ids \<Rightarrow> net_id \<Rightarrow> spawn_record \<Rightarrow> bool" where
  "bind_made E SW G ids i rec =
     (\<exists>Ws \<in> SW. \<exists>ob. given G ids i ob \<and> sr_spawner rec = BIND_SPAWNER \<and> of_utf8 E (sr_data rec) = wd_path Ws ob)"

definition spawn_made ::
  "wire \<Rightarrow> engine \<Rightarrow> world set \<Rightarrow> (objid \<times> objid \<times> variant) set \<Rightarrow> (net_id \<Rightarrow> objid) \<Rightarrow> net_ids \<Rightarrow> net_id \<Rightarrow>
   spawn_record \<Rightarrow> bool" where
  "spawn_made W E SW CAP G ids i rec =
     (\<exists>Ws \<in> SW. \<exists>(n, sp, v) \<in> CAP. \<exists>syncs.
        given G ids i n \<and> given G ids (sr_spawner rec) sp \<and>
        get_spawn_data W E (sr_data rec) =
          Some (map (\<lambda>(j, so). \<lparr>ss_net_id = j, ss_path = wd_path_to Ws n so\<rparr>) syncs, v) \<and>
        (\<forall>(j, so) \<in> set syncs. given G ids j so))"

fun record_of :: "core_call \<Rightarrow> (net_id \<times> spawn_record) option" where
  "record_of (Add_Spawn i rec) = Some (i, rec)"
| "record_of (Add_Entity i layout d rec) = map_option (Pair i) rec"
| "record_of _ = None"

definition made ::
  "wire \<Rightarrow> engine \<Rightarrow> world set \<Rightarrow> (objid \<times> objid \<times> variant) set \<Rightarrow> (net_id \<Rightarrow> objid) \<Rightarrow> net_ids \<Rightarrow> core_call \<Rightarrow> bool" where
  "made W E SW CAP G ids c =
     (case record_of c of None \<Rightarrow> True
      | Some (i, rec) \<Rightarrow> bind_made E SW G ids i rec \<or> spawn_made W E SW CAP G ids i rec)"

lemma made_tick [simp]: "made W E SW CAP G ids (Core_Tick now)"
  by (simp add: made_def)

lemma bind_made_later:
  "bind_made E SW G s i rec \<Longrightarrow> s \<le> t \<Longrightarrow> extends s G G1 \<Longrightarrow> SW \<subseteq> SW1 \<Longrightarrow> bind_made E SW1 G1 t i rec"
  unfolding bind_made_def by (meson given_later subsetD)

lemma spawn_made_later:
  assumes "spawn_made W E SW CAP G s i rec" "s \<le> t" "extends s G G1" "SW \<subseteq> SW1" "CAP \<subseteq> CAP1"
  shows "spawn_made W E SW1 CAP1 G1 t i rec"
proof -
  obtain Ws n sp v syncs where *: "Ws \<in> SW" "(n, sp, v) \<in> CAP" "given G s i n" "given G s (sr_spawner rec) sp"
    "get_spawn_data W E (sr_data rec) =
       Some (map (\<lambda>(j, so). \<lparr>ss_net_id = j, ss_path = wd_path_to Ws n so\<rparr>) syncs, v)"
    "\<forall>(j, so) \<in> set syncs. given G s j so"
    using assms(1) unfolding spawn_made_def by auto
  note l = given_later [OF _ assms(2,3)]
  show ?thesis
    using * assms(4,5) l unfolding spawn_made_def
    by (intro bexI [of _ Ws] bexI [of _ "(n, sp, v)"]) (auto intro!: exI [of _ syncs])
qed

lemma made_later:
  "made W E SW CAP G s c \<Longrightarrow> s \<le> t \<Longrightarrow> extends s G G1 \<Longrightarrow> SW \<subseteq> SW1 \<Longrightarrow> CAP \<subseteq> CAP1 \<Longrightarrow> made W E SW1 CAP1 G1 t c"
  by (auto simp: made_def intro: bind_made_later spawn_made_later split: option.splits)

subsection \<open>What a server's operations hand the core\<close>

text \<open>Strings and data that come through the engine's conversions as they were.\<close>

definition scene_text_ok :: "engine \<Rightarrow> world \<Rightarrow> bool" where
  "scene_text_ok E Wd = (\<forall>a b. str_ok E (wd_path Wd a) \<and> str_ok E (wd_path_to Wd a b))"

lemma bind_record_made:
  assumes "Wd \<in> SW" "scene_text_ok E Wd" "given G ids i ob"
  shows "bind_made E SW G ids i (bind_record E Wd ob i gated)"
  using assms by (auto simp: bind_made_def bind_record_def scene_text_ok_def str_ok_def)

lemma drain_one_read:
  assumes "ids_room (length (collect_syncs Wd (wd_tree Wd n)) + k) ids" "wire_ok W" "scene_text_ok E Wd"
    and "bytes_to_var E (var_to_bytes E v) = v"
  shows "get_spawn_data W E (put_spawn_data W E
        (map (\<lambda>so. \<lparr>ss_net_id = f so, ss_path = wd_path_to Wd n so\<rparr>) (filter P (collect_syncs Wd (wd_tree Wd n)))) v) =
      Some (map (\<lambda>so. \<lparr>ss_net_id = f so, ss_path = wd_path_to Wd n so\<rparr>) (filter P (collect_syncs Wd (wd_tree Wd n))), v)"
proof (rule get_put_spawn_data [OF assms(2) _ _ assms(4)])
  show "list_all (\<lambda>s. str_ok E (ss_path s)) (map (\<lambda>so. \<lparr>ss_net_id = f so, ss_path = wd_path_to Wd n so\<rparr>)
      (filter P (collect_syncs Wd (wd_tree Wd n))))"
    using assms(3) by (simp add: scene_text_ok_def list_all_iff)
  have "length (filter P (collect_syncs Wd (wd_tree Wd n))) < 2 ^ 32"
    using assms(1) by (intro le_less_trans [OF length_filter_le]) (simp add: ids_room_def)
  then show "length (map (\<lambda>so. \<lparr>ss_net_id = f so, ss_path = wd_path_to Wd n so\<rparr>)
      (filter P (collect_syncs Wd (wd_tree Wd n)))) < 2 ^ 32"
    by simp
qed

lemma drain_one_spawner_has:
  assumes "drain_one W E Wd n ps st = (fin, st1)" "drainable Wd st (n, ps)"
  shows "hm_get (by_obj (rg_ids st1)) (ps_spawner ps) \<noteq> None"
proof -
  obtain i s1 where s1: "spawner_net_id E Wd (ps_spawner ps) st = (i, s1)"
    by (cases "spawner_net_id E Wd (ps_spawner ps) st")
  obtain es named ids1
    where ns: "name_syncs Wd n (rg_owned s1) (collect_syncs Wd (wd_tree Wd n)) (rg_ids s1) = (es, named, ids1)"
    by (metis prod_cases3)
  have "rg_ids st1 = snd (ids_assign n ids1)"
    using assms s1 ns by (auto simp: drain_one_def drainable_def split_beta)
  then have "ids_ext (rg_ids s1) (rg_ids st1)"
    using name_syncs_spec [OF ns ids_ext_refl] ids_ext_trans ids_ext_assign by metis
  then show ?thesis using spawner_net_id_spec(2) [OF s1] by (auto simp: ids_ext_def)
qed

lemma drain_one_made:
  assumes "drain_one W E Wd n ps st = (fin, st1)"
    and "ids_room (length (collect_syncs Wd (wd_tree Wd n)) + 2 + k) (rg_ids st)"
    and "wire_ok W" "scene_text_ok E Wd" "Wd \<in> SW" "(n, ps_spawner ps, ps_data ps) \<in> CAP"
    and "bytes_to_var E (var_to_bytes E (ps_data ps)) = ps_data ps"
  shows "\<exists>new. rg_calls st1 = rg_calls st @ new \<and>
    (\<forall>G. gives G (rg_ids st1) \<longrightarrow> (\<forall>c \<in> set new. made W E SW CAP G (rg_ids st1) c))"
proof (cases "drainable Wd st (n, ps)")
  case False
  then show ?thesis using assms(1) by (simp add: drain_one_skips)
next
  case True
  let ?ids = "rg_ids st1" and ?syncs = "filter (\<lambda>so. so \<in> set (rg_owned st)) (collect_syncs Wd (wd_tree Wd n))"
  note spec = drain_one_spec [OF assms(1) True ids_ext_refl]
  have room: "ids_room k ?ids" using drain_one_room [OF assms(1,2)] .
  then have sv: "server_ids ?ids" by (simp add: ids_room_def)
  have sp: "hm_get (by_obj ?ids) (ps_spawner ps) \<noteq> None" by (rule drain_one_spawner_has [OF assms(1) True])
  have held: "hm_get (by_obj ?ids) so \<noteq> None" if "so \<in> insert n (set ?syncs)" for so
    using drain_one_has [OF assms(1) True, of so] that by auto
  have "ids_room (length (collect_syncs Wd (wd_tree Wd n)) + (2 + k)) (rg_ids st)" using assms(2) by (simp add: add.assoc)
  note read = drain_one_read [OF this assms(3,4,7), of "ids_id ?ids" "\<lambda>so. so \<in> set (rg_owned st)"]
  have "made W E SW CAP G ?ids (spawn_call W E Wd (rg_owned st) ?ids n ps) \<and>
      made W E SW CAP G ?ids (Add_Spawn (ids_id ?ids (ps_spawner ps))
        (bind_record E Wd (ps_spawner ps) (ids_id ?ids (ps_spawner ps)) False))" if G: "gives G ?ids" for G
  proof -
    have has: "given G ?ids (ids_id ?ids ob) ob" if "hm_get (by_obj ?ids) ob \<noteq> None" for ob
      using that given_held [OF sv G] by (auto simp: ids_id_def)
    have "made W E SW CAP G ?ids (spawn_call W E Wd (rg_owned st) ?ids n ps)"
      unfolding made_def spawn_call_def Let_def record_of.simps option.case prod.case spawn_made_def
      using assms(5,6) has [OF held] has [OF sp] read
      by (intro disjI2 bexI [of _ Wd] bexI [of _ "(n, ps_spawner ps, ps_data ps)"])
        (auto simp: comp_def intro!: exI [of _ "map (\<lambda>so. (ids_id ?ids so, so)) ?syncs"])
    then show ?thesis
      using bind_record_made [OF assms(5,4) has [OF sp]] by (simp add: made_def)
  qed
  then show ?thesis using spec(9) by auto
qed

text \<open>An operation of the server's: its ids get later, and what it hands the core is made.\<close>

definition adds_made ::
  "wire \<Rightarrow> engine \<Rightarrow> world set \<Rightarrow> (objid \<times> objid \<times> variant) set \<Rightarrow> registry \<Rightarrow> registry \<Rightarrow> bool" where
  "adds_made W E SW CAP st st1 =
     (rg_ids st \<le> rg_ids st1 \<and>
      (\<exists>new. rg_calls st1 = rg_calls st @ new \<and>
         (\<forall>G. gives G (rg_ids st) \<longrightarrow>
            (\<exists>G1. extends (rg_ids st) G G1 \<and> gives G1 (rg_ids st1) \<and>
               (\<forall>c \<in> set new. made W E SW CAP G1 (rg_ids st1) c)))))"

lemma adds_made_refl [simp]: "adds_made W E SW CAP st st"
  by (auto simp: adds_made_def intro: extends_refl)

lemma adds_made_trans [trans]:
  assumes "adds_made W E SW CAP st s1" "adds_made W E SW CAP s1 s2"
  shows "adds_made W E SW CAP st s2"
proof -
  obtain new where new: "rg_calls s1 = rg_calls st @ new"
    "\<And>G. gives G (rg_ids st) \<Longrightarrow> \<exists>G1. extends (rg_ids st) G G1 \<and> gives G1 (rg_ids s1) \<and>
       (\<forall>c \<in> set new. made W E SW CAP G1 (rg_ids s1) c)"
    using assms(1) unfolding adds_made_def by blast
  obtain more where more: "rg_calls s2 = rg_calls s1 @ more"
    "\<And>G. gives G (rg_ids s1) \<Longrightarrow> \<exists>G1. extends (rg_ids s1) G G1 \<and> gives G1 (rg_ids s2) \<and>
       (\<forall>c \<in> set more. made W E SW CAP G1 (rg_ids s2) c)"
    using assms(2) unfolding adds_made_def by blast
  have le: "rg_ids st \<le> rg_ids s1" "rg_ids s1 \<le> rg_ids s2" using assms by (simp_all add: adds_made_def)
  have "\<exists>G2. extends (rg_ids st) G G2 \<and> gives G2 (rg_ids s2) \<and> (\<forall>c \<in> set (new @ more). made W E SW CAP G2 (rg_ids s2) c)"
    if G: "gives G (rg_ids st)" for G
  proof -
    obtain G1 where G1: "extends (rg_ids st) G G1" "gives G1 (rg_ids s1)" "\<forall>c \<in> set new. made W E SW CAP G1 (rg_ids s1) c"
      using new(2) [OF G] by blast
    obtain G2 where G2: "extends (rg_ids s1) G1 G2" "gives G2 (rg_ids s2)" "\<forall>c \<in> set more. made W E SW CAP G2 (rg_ids s2) c"
      using more(2) [OF G1(2)] by blast
    have "made W E SW CAP G2 (rg_ids s2) c" if "c \<in> set new" for c
      using made_later [OF _ le(2) G2(1) order_refl order_refl] G1(3) that by blast
    then show ?thesis using extends_trans [OF G1(1) G2(1) le(1)] G2 by auto
  qed
  then show ?thesis
    unfolding adds_made_def using order_trans [OF le] new(1) more(1) by (intro conjI exI [of _ "new @ more"]) auto
qed

lemma adds_madeI:
  assumes "rg_ids st \<le> rg_ids st1" "rg_calls st1 = rg_calls st @ new"
    and "\<And>G c. gives G (rg_ids st1) \<Longrightarrow> c \<in> set new \<Longrightarrow> made W E SW CAP G (rg_ids st1) c"
  shows "adds_made W E SW CAP st st1"
  unfolding adds_made_def using assms gives_later by blast

lemma adds_made_drops:
  "rg_ids st1 = fold ids_drop gone (rg_ids st) \<Longrightarrow> rg_calls st1 = rg_calls st @ new \<Longrightarrow> \<forall>c \<in> set new. record_of c = None \<Longrightarrow>
     adds_made W E SW CAP st st1"
  by (rule adds_madeI) (auto simp: made_def later_drops)

definition captured_in :: "(objid \<times> objid \<times> variant) set \<Rightarrow> engine \<Rightarrow> (objid \<times> pending_spawn) list \<Rightarrow> bool" where
  "captured_in CAP E items =
     (\<forall>(n, ps) \<in> set items. (n, ps_spawner ps, ps_data ps) \<in> CAP \<and>
        bytes_to_var E (var_to_bytes E (ps_data ps)) = ps_data ps)"

lemma drain_loop_made:
  assumes "drain_loop W E Wd items st = (fins, st1)" "ids_room (ids_needed Wd items + k) (rg_ids st)"
    and "wire_ok W" "scene_text_ok E Wd" "Wd \<in> SW" "captured_in CAP E items"
  shows "adds_made W E SW CAP st st1"
  using assms(1,2,6)
proof (induction items arbitrary: st fins)
  case (Cons item items)
  obtain n ps where item: "item = (n, ps)" by (cases item)
  obtain f s1 where one: "drain_one W E Wd n ps st = (f, s1)" by (cases "drain_one W E Wd n ps st")
  obtain fs where rest: "drain_loop W E Wd items s1 = (fs, st1)"
    using Cons.prems(1) item one by (auto simp: split_beta prod_eq_iff)
  have room: "ids_room (length (collect_syncs Wd (wd_tree Wd n)) + 2 + (ids_needed Wd items + k)) (rg_ids st)"
    using Cons.prems(2) by (simp add: ids_needed_def item add.assoc)
  have ps: "(n, ps_spawner ps, ps_data ps) \<in> CAP" "bytes_to_var E (var_to_bytes E (ps_data ps)) = ps_data ps"
    and items: "captured_in CAP E items"
    using Cons.prems(3) item by (auto simp: captured_in_def)
  have "adds_made W E SW CAP st s1"
    using drain_one_later [OF one room] drain_one_made [OF one room assms(3-5) ps] by (blast intro: adds_madeI)
  also have "adds_made W E SW CAP s1 st1"
    by (rule Cons.IH [OF rest drain_one_room [OF one room] items])
  finally show ?case .
qed simp

lemma drain_made:
  assumes "ids_room (ids_needed Wd (rg_pending st) + k) (rg_ids st)" "wire_ok W" "scene_text_ok E Wd" "Wd \<in> SW"
    and "captured_in CAP E (rg_pending st)"
  shows "adds_made W E SW CAP st (drain_pending_spawns W E Wd st)"
proof (cases "rg_pending st = []")
  case False
  obtain fins s1 where loop: "drain_loop W E Wd (rg_pending st) st = (fins, s1)"
    by (cases "drain_loop W E Wd (rg_pending st) st")
  have "adds_made W E SW CAP st s1" using drain_loop_made [OF loop assms] .
  then show ?thesis using False loop by (simp add: drain_pending_spawns_def adds_made_def)
qed (simp add: drain_pending_spawns_def)

lemma detect_made: "adds_made W E SW CAP st (detect_despawns Wd st)"
  by (rule adds_made_drops [where gone = "gone_ids Wd (rg_ids st) (rg_spawned st) @
        gone_ids Wd (fold ids_drop (gone_ids Wd (rg_ids st) (rg_spawned st)) (rg_ids st)) (rg_bind_ids st)"])
    (auto simp: detect_despawns_def Let_def fold_despawn_spawned fold_despawn_bound)

lemma add_entity_made:
  assumes "add_entity E cap Wd so st = (fin, st1)" "ids_room (Suc k) (rg_ids st)" "scene_text_ok E Wd" "Wd \<in> SW"
  shows "adds_made W E SW CAP st st1 \<and> ids_room k (rg_ids st1)"
proof (cases "sync_from_objid Wd so = None \<or> \<not> wd_in_tree Wd so \<or> \<not> wd_authority Wd so")
  case True
  then show ?thesis
    using assms ids_room_less [OF assms(2), of k] by (auto simp: add_entity_def split: if_splits)
next
  case False
  let ?ids = "snd (ids_assign so (rg_ids st))"
  have ids: "rg_ids st1 = ?ids" and calls: "\<exists>layout d rec. rg_calls st1 = rg_calls st @ [Add_Entity (fst (ids_assign so (rg_ids st))) layout d rec] \<and>
      (rec = None \<or> rec = Some (bind_record E Wd so (fst (ids_assign so (rg_ids st))) True))"
    using assms(1) False by (auto simp: add_entity_def Let_def split_beta split: if_splits)
  have room: "ids_room k ?ids" using ids_room_assign [OF assms(2)] .
  then have "given G ?ids (fst (ids_assign so (rg_ids st))) so" if "gives G ?ids" for G
    using that by (intro given_held) (simp_all add: ids_room_def assign_by_obj)
  from bind_record_made [OF assms(4,3) this] have "adds_made W E SW CAP st st1"
    using calls later_assign [OF assms(2)] by (auto simp: ids made_def intro!: adds_madeI)
  then show ?thesis using room ids by simp
qed

lemma add_loop_made:
  assumes "add_loop E cap Wd sos st = (fins, st1)" "ids_room (length sos + k) (rg_ids st)" "scene_text_ok E Wd" "Wd \<in> SW"
  shows "adds_made W E SW CAP st st1 \<and> ids_room k (rg_ids st1)"
  using assms(1,2)
proof (induction sos arbitrary: st fins)
  case (Cons so sos)
  obtain f s1 where one: "add_entity E cap Wd so st = (f, s1)" by (cases "add_entity E cap Wd so st")
  obtain fs where rest: "add_loop E cap Wd sos s1 = (fs, st1)"
    using Cons.prems(1) one by (auto simp: split_beta prod_eq_iff)
  have "ids_room (Suc (length sos + k)) (rg_ids st)" using Cons.prems(2) by simp
  note A = add_entity_made [OF one this assms(3,4)]
  then show ?case using Cons.IH [OF rest] adds_made_trans by blast
qed simp


subsection \<open>The server's invariant\<close>

definition server_inv ::
  "wire \<Rightarrow> engine \<Rightarrow> world set \<Rightarrow> (objid \<times> objid \<times> variant) set \<Rightarrow> (net_id \<Rightarrow> objid) \<Rightarrow> registry \<Rightarrow> bool" where
  "server_inv W E SW CAP G st =
     (ids_room 0 (rg_ids st) \<and> captured_in CAP E (rg_pending st) \<and> gives G (rg_ids st) \<and>
      (\<forall>c \<in> set (rg_calls st). made W E SW CAP G (rg_ids st) c))"

fun server_scenes :: "registry_event \<Rightarrow> world set" where
  "server_scenes (Polled Wd) = {Wd}"
| "server_scenes (Ticked Wd tr now) = {Wd}"
| "server_scenes _ = {}"

fun captures :: "registry_event \<Rightarrow> (objid \<times> objid \<times> variant) set" where
  "captures (Captured (Some n) v sp) = {(n, sp, v)}"
| "captures _ = {}"

text \<open>What a server's event relies on: the ids' counter does not wrap in it, and the engine's conversions keep
  the scene's paths and the game's spawn data.\<close>

fun server_fine :: "engine \<Rightarrow> registry \<Rightarrow> registry_event \<Rightarrow> bool" where
  "server_fine E st (Captured node v sp) = (bytes_to_var E (var_to_bytes E v) = v)"
| "server_fine E st (Polled Wd) =
     (scene_text_ok E Wd \<and> unat (next_id (rg_ids st)) + ids_needed Wd (rg_pending st) < 2 ^ 32)"
| "server_fine E st (Ticked Wd tr now) =
     (scene_text_ok E Wd \<and>
      unat (next_id (rg_ids st)) + ids_needed Wd (rg_pending st) + length (rg_to_add st) < 2 ^ 32)"
| "server_fine E st _ = True"

lemma server_inv_adds:
  assumes "server_inv W E SW CAP G st" "SW \<subseteq> SW1" "CAP \<subseteq> CAP1" "adds_made W E SW1 CAP1 st st1"
    and "ids_room 0 (rg_ids st1)" "captured_in CAP1 E (rg_pending st1)"
  shows "\<exists>G1. extends (rg_ids st) G G1 \<and> rg_ids st \<le> rg_ids st1 \<and> server_inv W E SW1 CAP1 G1 st1"
proof -
  obtain new G1 where new: "rg_calls st1 = rg_calls st @ new" "\<forall>c \<in> set new. made W E SW1 CAP1 G1 (rg_ids st1) c"
    and le: "rg_ids st \<le> rg_ids st1" and G1: "extends (rg_ids st) G G1" "gives G1 (rg_ids st1)"
    using assms(1,4) unfolding adds_made_def server_inv_def by blast
  have "made W E SW1 CAP1 G1 (rg_ids st1) c" if "c \<in> set (rg_calls st)" for c
    using assms(1-3) that le G1(1) made_later unfolding server_inv_def by blast
  then show ?thesis
    using assms(5,6) new le G1 unfolding server_inv_def by (intro exI [of _ G1]) auto
qed

lemma hm_erase_subset: "set (fold hm_erase ks m) \<subseteq> set m"
proof (induction ks arbitrary: m)
  case (Cons k ks)
  have "set (hm_erase k m) \<subseteq> set m" by (auto simp: hm_erase_def AList.delete_eq)
  then show ?case using Cons.IH [of "hm_erase k m"] by auto
qed simp

lemma hm_put_subset: "set (hm_put k v m) \<subseteq> insert (k, v) (set m)"
  unfolding hm_put_def by (induction m) auto

lemma drain_keeps:
  assumes "ids_room (ids_needed Wd (rg_pending st) + k) (rg_ids st)"
  shows "ids_room k (rg_ids (drain_pending_spawns W E Wd st)) \<and>
    rg_to_add (drain_pending_spawns W E Wd st) = rg_to_add st \<and>
    set (rg_pending (drain_pending_spawns W E Wd st)) \<subseteq> set (rg_pending st)"
proof (cases "rg_pending st = []")
  case True
  then show ?thesis using assms ids_room_less [OF assms, of k] by (simp add: drain_pending_spawns_def)
next
  case False
  obtain fins s1 where loop: "drain_loop W E Wd (rg_pending st) st = (fins, s1)"
    by (cases "drain_loop W E Wd (rg_pending st) st")
  have "rg_pending s1 = rg_pending st" using drain_loop_spec [OF loop ids_ext_refl] by simp
  then show ?thesis
    using drain_loop_core [OF loop, of k] assms False loop hm_erase_subset [of fins "rg_pending st"]
    by (simp add: drain_pending_spawns_def)
qed

lemma detect_keeps:
  "ids_room k (rg_ids st) \<Longrightarrow> ids_room k (rg_ids (detect_despawns Wd st)) \<and>
     rg_to_add (detect_despawns Wd st) = rg_to_add st \<and> rg_pending (detect_despawns Wd st) = rg_pending st"
  by (simp add: detect_despawns_def Let_def fold_despawn_spawned fold_despawn_bound ids_room_drops)

lemma poll_made:
  assumes "captured_in CAP E (rg_pending st)" "wire_ok W" "scene_text_ok E Wd" "Wd \<in> SW"
    and "ids_room (ids_needed Wd (rg_pending st) + k) (rg_ids st)"
    and "st1 = detect_despawns Wd (drain_pending_spawns W E Wd st)"
  shows "adds_made W E SW CAP st st1 \<and> ids_room k (rg_ids st1) \<and> rg_to_add st1 = rg_to_add st \<and>
    set (rg_pending st1) \<subseteq> set (rg_pending st)"
proof -
  let ?d = "drain_pending_spawns W E Wd st"
  note D = drain_keeps [OF assms(5), of W E]
  then have "ids_room k (rg_ids ?d)" by blast
  note F = detect_keeps [OF this, of Wd]
  have "adds_made W E SW CAP st ?d" by (rule drain_made [OF assms(5,2-4,1)])
  also have "adds_made W E SW CAP ?d (detect_despawns Wd ?d)" by (rule detect_made)
  finally show ?thesis using D F by (simp add: assms(6))
qed

lemma capture_spawners_keeps [simp]:
  "rg_ids (capture_spawners Wd tr st) = rg_ids st" "rg_calls (capture_spawners Wd tr st) = rg_calls st"
  "rg_pending (capture_spawners Wd tr st) = rg_pending st" "rg_to_add (capture_spawners Wd tr st) = rg_to_add st"
proof -
  have "rg_ids (fold wrap_spawner sps s) = rg_ids s \<and> rg_calls (fold wrap_spawner sps s) = rg_calls s \<and>
      rg_pending (fold wrap_spawner sps s) = rg_pending s \<and> rg_to_add (fold wrap_spawner sps s) = rg_to_add s" for sps s
    by (induction sps arbitrary: s) (simp_all add: wrap_spawner_def)
  then show "rg_ids (capture_spawners Wd tr st) = rg_ids st" "rg_calls (capture_spawners Wd tr st) = rg_calls st"
  "rg_pending (capture_spawners Wd tr st) = rg_pending st" "rg_to_add (capture_spawners Wd tr st) = rg_to_add st"
    by (simp_all add: capture_spawners_def split: option.split)
qed

lemma add_loop_pending: "add_loop E cap Wd sos st = (fins, st1) \<Longrightarrow> rg_pending st1 = rg_pending st"
proof (induction sos arbitrary: st fins)
  case (Cons so sos)
  obtain f s1 where one: "add_entity E cap Wd so st = (f, s1)" by (cases "add_entity E cap Wd so st")
  then have "rg_pending s1 = rg_pending st"
    by (auto simp: add_entity_def Let_def split_beta split: if_splits)
  moreover obtain fs where "add_loop E cap Wd sos s1 = (fs, st1)"
    using Cons.prems one by (auto simp: split_beta prod_eq_iff)
  ultimately show ?case using Cons.IH by simp
qed simp

lemma adds_made_cong:
  "rg_ids s1 = rg_ids s \<Longrightarrow> rg_calls s1 = rg_calls s \<Longrightarrow> adds_made W E SW CAP st s1 = adds_made W E SW CAP st s"
  by (simp add: adds_made_def)

lemma add_entities_made:
  assumes "ids_room (length (rg_to_add st)) (rg_ids st)" "scene_text_ok E Wd" "Wd \<in> SW"
  shows "adds_made W E SW CAP st (add_entities E cap Wd st) \<and> ids_room 0 (rg_ids (add_entities E cap Wd st)) \<and>
    rg_pending (add_entities E cap Wd st) = rg_pending st"
proof -
  obtain fins s1 where loop: "add_loop E cap Wd (rg_to_add st) st = (fins, s1)"
    by (cases "add_loop E cap Wd (rg_to_add st) st")
  then show ?thesis
    using add_loop_made [OF loop, of 0 SW W CAP] assms add_loop_pending [OF loop]
    by (simp add: add_entities_def adds_made_def)
qed

lemma tick_made:
  assumes "ids_room (length (rg_to_add st)) (rg_ids st)" "scene_text_ok E Wd" "Wd \<in> SW"
  shows "adds_made W E SW CAP st (server_tick E cap Wd tr now st) \<and> ids_room 0 (rg_ids (server_tick E cap Wd tr now st)) \<and>
    rg_pending (server_tick E cap Wd tr now st) = rg_pending st"
proof (cases "tr = None")
  case True
  then show ?thesis using ids_room_less [OF assms(1), of 0] by (simp add: server_tick_def)
next
  case False
  let ?c = "capture_spawners Wd tr st"
  note A = add_entities_made [of ?c E Wd SW W CAP cap]
  have "adds_made W E SW CAP st ?c" by (simp cong: adds_made_cong)
  also have "adds_made W E SW CAP ?c (add_entities E cap Wd ?c)" using A assms by simp
  also have "adds_made W E SW CAP (add_entities E cap Wd ?c) (core (Core_Tick now) (add_entities E cap Wd ?c))"
    by (rule adds_madeI [where new = "[Core_Tick now]"]) simp_all
  finally show ?thesis using False A assms by (auto simp: server_tick_def)
qed

lemma refresh_keeps [simp]:
  "rg_ids (refresh edge Wd st) = rg_ids st" "rg_pending (refresh edge Wd st) = rg_pending st"
  by (simp_all add: refresh_def Let_def split_beta)

lemma wrap_spawner_server [simp]:
  "rg_calls (wrap_spawner sp st) = rg_calls st" "rg_pending (wrap_spawner sp st) = rg_pending st"
  by (simp_all add: wrap_spawner_def)

lemma wrap_step_calls: "\<exists>new. rg_calls (wrap_step edge st op) = rg_calls st @ new \<and> (\<forall>c \<in> set new. record_of c = None)"
proof (cases op)
  case (Found_Announced Wd on_server object cfg)
  then show ?thesis
    by (simp add: config_add_def refresh_def Let_def split_beta split: option.split node_class.split)
qed (simp_all add: on_node_added_def)

lemma wrap_step_pending: "rg_pending (wrap_step edge st op) = rg_pending st"
  by (cases op) (simp_all add: on_node_added_def config_add_def split: option.split node_class.split)

lemma remove_plain:
  "\<exists>gone. rg_ids (snd (config_remove edge Wd cfg st)) = fold ids_drop gone (rg_ids st)"
  "\<exists>new. rg_calls (snd (config_remove edge Wd cfg st)) = rg_calls st @ new \<and> (\<forall>c \<in> set new. record_of c = None)"
  "rg_pending (snd (config_remove edge Wd cfg st)) = rg_pending st"
proof -
  have drop: "\<exists>gone. ids_drop i s = fold ids_drop gone s" "\<exists>gone. s = fold ids_drop gone s" for i s
    using exI [of "\<lambda>gone. ids_drop i s = fold ids_drop gone s" "[i]"]
      exI [of "\<lambda>gone. s = fold ids_drop gone s" "[]"] by simp_all
  show "\<exists>gone. rg_ids (snd (config_remove edge Wd cfg st)) = fold ids_drop gone (rg_ids st)"
    using drop by (simp add: config_remove_def ids_release_eq Let_def split: option.split node_class.split)
  show "rg_pending (snd (config_remove edge Wd cfg st)) = rg_pending st"
    by (simp add: config_remove_def ids_release_eq Let_def split: option.split node_class.split)
  show "\<exists>new. rg_calls (snd (config_remove edge Wd cfg st)) = rg_calls st @ new \<and> (\<forall>c \<in> set new. record_of c = None)"
    by (simp add: config_remove_def ids_release_eq refresh_def Let_def split_beta split: option.split node_class.split)
qed

lemma captured_more: "captured_in CAP E items \<Longrightarrow> set items1 \<subseteq> set items \<Longrightarrow> CAP \<subseteq> CAP1 \<Longrightarrow> captured_in CAP1 E items1"
  unfolding captured_in_def by fast

lemma server_event:
  assumes "ids_room 0 (rg_ids st)" "captured_in CAP E (rg_pending st)" "server_fine E st ev" "wire_ok W"
  shows "adds_made W E (server_scenes ev \<union> SW) (captures ev \<union> CAP) st (registry_step W E cap edge st ev) \<and>
    ids_room 0 (rg_ids (registry_step W E cap edge st ev)) \<and>
    captured_in (captures ev \<union> CAP) E (rg_pending (registry_step W E cap edge st ev))"
proof (cases ev)
  case (Polled Wd)
  have "ids_room (ids_needed Wd (rg_pending st) + 0) (rg_ids st)"
    using assms(1,3) Polled by (simp add: ids_room_def)
  from poll_made [OF assms(2,4) _ _ this refl, of "insert Wd SW"] show ?thesis
    using assms(3) Polled by (auto intro: captured_more [OF assms(2)])
next
  case (Ticked Wd tr now)
  let ?p = "detect_despawns Wd (drain_pending_spawns W E Wd st)"
  have "ids_room (ids_needed Wd (rg_pending st) + length (rg_to_add st)) (rg_ids st)"
    using assms(1,3) Ticked by (simp add: ids_room_def)
  note P = poll_made [OF assms(2,4) _ _ this refl, of "insert Wd SW"]
  have paths: "scene_text_ok E Wd" using assms(3) Ticked by simp
  have room: "ids_room (length (rg_to_add ?p)) (rg_ids ?p)" using P paths by simp
  note T = tick_made [OF room paths, of "insert Wd SW" W CAP cap tr now]
  have "adds_made W E (insert Wd SW) CAP st ?p" using P paths by simp
  also have "adds_made W E (insert Wd SW) CAP ?p (server_tick E cap Wd tr now ?p)" using T by simp
  finally show ?thesis
    using T P paths by (auto simp: Ticked send_snapshots_def intro: captured_more [OF assms(2)])
next
  case (Captured node v sp)
  have "captured_in (captures ev \<union> CAP) E (rg_pending st)" by (rule captured_more [OF assms(2)]) auto
  then show ?thesis
    using assms(1,3) hm_put_subset
    by (fastforce simp: Captured spawn_trampoline_def Let_def captured_in_def cong: adds_made_cong split: option.split)
next
  case (Found op)
  obtain new where "rg_calls (wrap_step edge st op) = rg_calls st @ new" "\<forall>c \<in> set new. record_of c = None"
    using wrap_step_calls by blast
  then have "adds_made W E SW CAP st (wrap_step edge st op)"
    by (intro adds_made_drops [where gone = "[]"]) simp_all
  then show ?thesis using assms(1,2) by (simp add: Found wrap_step_pending)
next
  case (Unregistered Wd cfg)
  obtain gone new where r: "rg_ids (snd (config_remove edge Wd cfg st)) = fold ids_drop gone (rg_ids st)"
    "rg_calls (snd (config_remove edge Wd cfg st)) = rg_calls st @ new" "\<forall>c \<in> set new. record_of c = None"
    using remove_plain(1,2) by meson
  then show ?thesis
    using assms(1,2) adds_made_drops [OF r, of W E SW CAP] by (simp add: Unregistered remove_plain(3) ids_room_drops)
qed

lemma server_step:
  assumes "server_inv W E SW CAP G st" "server_fine E st ev" "wire_ok W"
  shows "\<exists>G1. extends (rg_ids st) G G1 \<and> rg_ids st \<le> rg_ids (registry_step W E cap edge st ev) \<and>
    server_inv W E (server_scenes ev \<union> SW) (captures ev \<union> CAP) G1 (registry_step W E cap edge st ev)"
  using server_event [of st CAP E ev W SW cap edge] assms
  by (intro server_inv_adds [OF assms(1)]) (auto simp: server_inv_def)

lemma fresh_server:
  "server_inv W E {} {} (\<lambda>_. 0) registry0"
proof -
  have "ids_room 0 (rg_ids registry0)" using server_ids0 by (simp add: registry0_def ids_room_def) (simp add: net_ids0_def)
  then show ?thesis
    by (simp add: server_inv_def captured_in_def gives_def, simp add: registry0_def net_ids0_def)
qed

lemma demo_text: "scene_text_ok demo_engine demo_spawn_world"
  by (simp add: scene_text_ok_def demo_spawn_world_def demo_str_ok)

end
