(* ===== verification/Two_Ends.thy ===== *)
theory Two_Ends
  imports Server_Records Session
begin

section \<open>A server and a client, over whole runs\<close>

text \<open>
  The two ends together: a server's registry driven by the events of \<open>Core_View\<close>, a client's driven by those of
  \<open>Replica\<close>, and between them the records the server handed its core. What the core does with them is not
  assumed beyond that: a record may come in any order, late, again or never, and a despawn with any id
  (\<open>play\<close>). The scenes are the game's, and change freely between events; a client whose session is over may go on
  to another server.

  The theorem is what the ids are for: at every point of every run, an id that names a node on each end names
  the same node of the game, its twin (\<open>twin\<close>). It is proved by rule induction over \<open>play\<close>: the records of the
  server name the objects their ids were given to (\<open>Server_Records\<close>), and what a client has bound, it bound to the
  twins of those objects (\<open>client_inv\<close>). That nothing of one server is left for the next is
  \<open>reset_names_nothing\<close>: a client's ids are all learned, and a reset forgets those.
\<close>

subsection \<open>Twins\<close>

text \<open>A node of the client's is the twin of a node of the server's when it stands where the server's stands, in scenes
  the two ends had (\<open>SW\<close> and \<open>CW\<close>), or was built by the twin of its spawner from the same data, or is where
  the server's is below a node and its twin. \<open>FN\<close> holds the spawn functions the client has wrapped.\<close>

inductive twin ::
  "(callable \<Rightarrow> variant \<Rightarrow> objid option) \<Rightarrow> world set \<Rightarrow> world set \<Rightarrow> (objid \<times> objid \<times> variant) set \<Rightarrow>
   (objid, callable) hash_map \<Rightarrow> objid \<Rightarrow> objid \<Rightarrow> bool"
  for call_fn SW CW CAP FN where
  placed: "Ws \<in> SW \<Longrightarrow> Wc \<in> CW \<Longrightarrow> wd_root_at Wc (wd_path Ws so) = Some co \<Longrightarrow> twin call_fn SW CW CAP FN so co"
| built_alike: "twin call_fn SW CW CAP FN sp spc \<Longrightarrow> (n, sp, v) \<in> CAP \<Longrightarrow> hm_get FN spc = Some fn \<Longrightarrow>
    call_fn fn v = Some nc \<Longrightarrow> twin call_fn SW CW CAP FN n nc"
| below: "twin call_fn SW CW CAP FN n nc \<Longrightarrow> Ws \<in> SW \<Longrightarrow> Wc \<in> CW \<Longrightarrow>
    wd_at Wc nc (wd_path_to Ws n so) = Some co \<Longrightarrow> twin call_fn SW CW CAP FN so co"

lemma twin_mono:
  assumes "twin call_fn SW CW CAP FN so co" "SW \<subseteq> SW1" "CW \<subseteq> CW1" "CAP \<subseteq> CAP1"
    and "\<And>sp fn. hm_get FN sp = Some fn \<Longrightarrow> hm_get FN1 sp = Some fn"
  shows "twin call_fn SW1 CW1 CAP1 FN1 so co"
  using assms(1)
proof induction
  case (placed Ws Wc so co)
  then show ?case using assms(2,3) by (intro twin.placed) auto
next
  case (built_alike sp spc n v fn nc)
  show ?case
    by (rule twin.built_alike [OF built_alike.IH _ assms(5) built_alike.hyps(4)]) (use built_alike.hyps assms(4) in auto)
next
  case (below n nc Ws Wc so co)
  show ?case
    by (rule twin.below [OF below.IH _ _ below.hyps(4)]) (use below.hyps assms(2,3) in auto)
qed

subsection \<open>The client's invariant\<close>

definition client_inv :: "(objid \<Rightarrow> objid \<Rightarrow> bool) \<Rightarrow> (net_id \<Rightarrow> objid) \<Rightarrow> net_ids \<Rightarrow> registry \<Rightarrow> bool" where
  "client_inv T G ids cl =
     (ids_sound (rg_ids cl) \<and> (\<forall>i co. names (rg_ids cl) i co \<longrightarrow> (\<exists>so. given G ids i so \<and> T so co)))"

lemma client_inv_mono:
  "client_inv T G ids cl \<Longrightarrow> (\<And>so co. T so co \<Longrightarrow> T1 so co) \<Longrightarrow> ids \<le> ids1 \<Longrightarrow> extends ids G G1 \<Longrightarrow>
     client_inv T1 G1 ids1 cl"
  unfolding client_inv_def using given_later by fast

lemma client_inv_fewer:
  "client_inv T G ids cl \<Longrightarrow> ids_sound (rg_ids cl1) \<Longrightarrow>
     (\<And>i co. names (rg_ids cl1) i co \<Longrightarrow> names (rg_ids cl) i co) \<Longrightarrow> client_inv T G ids cl1"
  unfolding client_inv_def by blast

lemma bind_names_one:
  "ids_sound s \<Longrightarrow> names (ids_bind i ob s) j co \<Longrightarrow> j = i \<and> co = ob \<or> names s j co"
  by (auto simp: ids_sound_def names_def ids_bind_by_id split: if_splits)

lemma bind_names_from:
  assumes "ids_sound ids" "\<And>s. s \<in> set ss \<Longrightarrow> 0 < ss_net_id s"
  shows "ids_sound (fst (bind_names Wd n owned ss ids)) \<and>
    (names (fst (bind_names Wd n owned ss ids)) j co \<longrightarrow>
       names ids j co \<or> (\<exists>s \<in> set ss. ss_net_id s = j \<and> wd_at Wd n (ss_path s) = Some co))"
  using assms
proof (induction ss arbitrary: ids)
  case (Cons s ss)
  show ?case
  proof (cases "\<exists>so. wd_at Wd n (ss_path s) = Some so \<and> sync_from_objid Wd so \<noteq> None \<and> so \<in> set owned")
    case True
    then obtain so where so: "wd_at Wd n (ss_path s) = Some so" "sync_from_objid Wd so \<noteq> None \<and> so \<in> set owned" by blast
    have "ids_sound (ids_bind (ss_net_id s) so ids)" using Cons.prems by (intro ids_sound_bind) simp_all
    then show ?thesis
      using Cons.IH [of "ids_bind (ss_net_id s) so ids"] Cons.prems so bind_names_one [of ids "ss_net_id s" so j co]
      by auto
  next
    case False
    then have "fst (bind_names Wd n owned (s # ss) ids) = fst (bind_names Wd n owned ss ids)"
      by (auto simp: split_beta split: option.splits)
    then show ?thesis using Cons.IH [of ids] Cons.prems by auto
  qed
qed simp

lemma apply_spawn_result:
  assumes "apply_spawn W E edge call_fn Wd enter i sp_id data st = (taken, es, st1)"
  shows "st1 = st \<or> (\<exists>fn syncs v rt n Wd1 ops.
    hm_get (rg_spawners st) (ids_object (rg_ids st) sp_id) = Some fn \<and>
    wd_class Wd (ids_object (rg_ids st) sp_id) = Some Spawner_Node \<and>
    get_spawn_data W E data = Some (syncs, v) \<and> call_fn fn v = Some n \<and> enter rt n = (Wd1, ops) \<and>
    rg_ids st1 = fst (bind_names Wd1 n (rg_owned (run (wrap_step edge) st ops)) syncs (ids_bind i n (rg_ids st))) \<and>
    rg_spawners st1 = rg_spawners (run (wrap_step edge) st ops))"
proof (cases "st1 = st")
  case False
  let ?sp = "ids_object (rg_ids st) sp_id"
  obtain fn syncs v rt n where *: "hm_get (rg_spawners st) ?sp = Some fn" "wd_class Wd ?sp = Some Spawner_Node"
    "get_spawn_data W E data = Some (syncs, v)" "call_fn fn v = Some n"
    and pl: "place_spawn edge (enter rt n) ?sp n i syncs st = (taken, es, st1)"
    using assms False unfolding apply_spawn_def Let_def by (auto split: option.splits if_splits prod.splits)
  obtain Wd1 ops where e: "enter rt n = (Wd1, ops)" by (cases "enter rt n")
  have "rg_ids st1 = fst (bind_names Wd1 n (rg_owned (run (wrap_step edge) st ops)) syncs (ids_bind i n (rg_ids st)))"
    "rg_spawners st1 = rg_spawners (run (wrap_step edge) st ops)"
    using pl by (auto simp: e place_spawn_def Let_def split_beta)
  then show ?thesis using * e by (intro disjI2 exI conjI)
qed simp

lemma wrap_step_spawners:
  "hm_get (rg_spawners st) sp = Some fn \<Longrightarrow> hm_get (rg_spawners (wrap_step edge st op)) sp = Some fn"
proof -
  assume a: "hm_get (rg_spawners st) sp = Some fn"
  have one: "hm_get (rg_spawners s) sp = Some fn \<Longrightarrow> hm_get (rg_spawners (wrap_spawner q s)) sp = Some fn" for q s
    by (auto simp: wrap_spawner_def hm_has_def hm_get_put)
  have many: "hm_get (rg_spawners s) sp = Some fn \<Longrightarrow> hm_get (rg_spawners (fold wrap_spawner qs s)) sp = Some fn" for qs s
    by (induction qs arbitrary: s) (simp_all add: one)
  show ?thesis
    using a by (cases op) (simp_all add: on_node_added_def capture_spawners_def config_add_def refresh_def Let_def
        split_beta one many split: option.split node_class.split)
qed

lemma wraps_spawners:
  "hm_get (rg_spawners st) sp = Some fn \<Longrightarrow> hm_get (rg_spawners (run (wrap_step edge) st ops)) sp = Some fn"
  by (induction ops arbitrary: st) (simp_all add: wrap_step_spawners)


lemma wrap_spawner_spawners:
  "hm_get (rg_spawners st) sp = Some fn \<Longrightarrow> hm_get (rg_spawners (wrap_spawner q st)) sp = Some fn"
  by (auto simp: wrap_spawner_def hm_has_def hm_get_put)

lemma client_bound:
  assumes "client_inv T G ids cl" "\<And>so co. T so co \<Longrightarrow> T1 so co" "T1 so n" "given G ids i so"
    and "rg_ids cl1 = ids_bind i n (rg_ids cl)"
  shows "client_inv T1 G ids cl1"
proof -
  have snd: "ids_sound (rg_ids cl)" using assms(1) by (simp add: client_inv_def)
  have "\<exists>so. given G ids j so \<and> T1 so co" if "names (rg_ids cl1) j co" for j co
    using bind_names_one [OF snd that [unfolded assms(5)]] assms(1-4) unfolding client_inv_def by blast
  then show ?thesis
    using ids_sound_bind [OF snd, of i n] assms(4,5) by (simp add: client_inv_def given_def)
qed

lemma client_bind_record:
  assumes "client_inv (twin call_fn SW CW CAP (rg_spawners cl)) G ids cl" "bind_made E SW G ids i rec"
    and "apply_bind E Wd i (sr_data rec) cl = (taken, cl1)" "Wd \<in> CW1" "CW \<subseteq> CW1"
  shows "client_inv (twin call_fn SW CW1 CAP (rg_spawners cl1)) G ids cl1"
proof -
  obtain Ws ob where made: "Ws \<in> SW" "given G ids i ob" "of_utf8 E (sr_data rec) = wd_path Ws ob"
    using assms(2) unfolding bind_made_def by blast
  have grow: "hm_get (rg_spawners cl) sp = Some fn \<Longrightarrow> hm_get (rg_spawners cl1) sp = Some fn" for sp fn
    using assms(3) wrap_spawner_spawners [of cl sp fn]
    by (auto simp: apply_bind_def Let_def split: option.splits if_splits)
  have mono: "twin call_fn SW CW CAP (rg_spawners cl) so co \<Longrightarrow> twin call_fn SW CW1 CAP (rg_spawners cl1) so co" for so co
    using assms(5) grow by (auto elim: twin_mono)
  show ?thesis
  proof (cases "cl1 = cl")
    case True
    then show ?thesis using client_inv_mono [OF assms(1) mono order_refl extends_refl] by simp
  next
    case False
    then obtain n where n: "wd_root_at Wd (wd_path Ws ob) = Some n" "rg_ids cl1 = ids_bind i n (rg_ids cl)"
      using assms(3) made(3) by (auto simp: apply_bind_def Let_def split: option.splits if_splits)
    have same: "twin call_fn SW CW1 CAP (rg_spawners cl1) ob n"
      using twin.placed [OF made(1) assms(4) n(1)] .
    show ?thesis
      by (rule client_bound [where ?T1.0 = "twin call_fn SW CW1 CAP (rg_spawners cl1)", OF assms(1) mono same made(2) n(2)])
  qed
qed

lemma client_spawn_record:
  assumes "client_inv (twin call_fn SW CW CAP (rg_spawners cl)) G ids cl" "spawn_made W E SW CAP G ids i rec" "world_ok Wd"
    and "apply_spawn W E edge call_fn Wd enter i (sr_spawner rec) (sr_data rec) cl = (taken, es, cl1)"
    and "\<And>rt n. fst (enter rt n) \<in> CW1" "CW \<subseteq> CW1"
  shows "client_inv (twin call_fn SW CW1 CAP (rg_spawners cl1)) G ids cl1"
  using apply_spawn_result [OF assms(4)]
proof (elim disjE exE conjE)
  assume "cl1 = cl"
  then show ?thesis
    using client_inv_mono [OF assms(1) _ order_refl extends_refl] twin_mono [OF _ order_refl assms(6) order_refl] by metis
next
  let ?T = "twin call_fn SW CW1 CAP (rg_spawners cl1)" and ?sp = "ids_object (rg_ids cl) (sr_spawner rec)"
  fix fn syncs v rt n Wd1 ops
  assume fn: "hm_get (rg_spawners cl) ?sp = Some fn" and cls: "wd_class Wd ?sp = Some Spawner_Node"
    and read: "get_spawn_data W E (sr_data rec) = Some (syncs, v)" and call: "call_fn fn v = Some n"
    and entered: "enter rt n = (Wd1, ops)"
    and ids: "rg_ids cl1 = fst (bind_names Wd1 n (rg_owned (run (wrap_step edge) cl ops)) syncs (ids_bind i n (rg_ids cl)))"
    and sps: "rg_spawners cl1 = rg_spawners (run (wrap_step edge) cl ops)"
  obtain Ws m sp pairs where made: "Ws \<in> SW" "(m, sp, v) \<in> CAP" "given G ids i m" "given G ids (sr_spawner rec) sp"
    and syncs: "syncs = map (\<lambda>(j, so). \<lparr>ss_net_id = j, ss_path = wd_path_to Ws m so\<rparr>) pairs"
    and pairs: "\<forall>(j, so) \<in> set pairs. given G ids j so"
    using assms(2) read unfolding spawn_made_def by auto
  have grow: "hm_get (rg_spawners cl) q = Some f \<Longrightarrow> hm_get (rg_spawners cl1) q = Some f" for q f
    by (simp add: sps wraps_spawners)
  have mono: "twin call_fn SW CW CAP (rg_spawners cl) so co \<Longrightarrow> ?T so co" for so co
    using assms(6) grow by (auto elim: twin_mono)
  have sound: "ids_sound (rg_ids cl)" using assms(1) by (simp add: client_inv_def)
  have pos: "0 < i" using made(3) by (simp add: given_def)
  have "?sp \<noteq> 0" using cls assms(3) by (auto simp: world_ok_def alive_def)
  then have "names (rg_ids cl) (sr_spawner rec) ?sp"
    by (auto simp: names_def ids_object_def split: option.splits)
  then obtain spo where "twin call_fn SW CW CAP (rg_spawners cl) spo ?sp" "given G ids (sr_spawner rec) spo"
    using assms(1) unfolding client_inv_def by blast
  moreover from this made(4) have "spo = sp" by (simp add: given_def)
  ultimately have "?T sp ?sp" using mono by simp
  from twin.built_alike [OF this made(2) grow [OF fn] call] have built: "?T m n" .
  have T: "client_inv ?T G ids (cl\<lparr>rg_ids := ids_bind i n (rg_ids cl)\<rparr>)"
    by (rule client_bound [where ?T1.0 = ?T, OF assms(1) mono built made(3)]) simp_all
  have *: "ids_sound (rg_ids cl1) \<and> (names (rg_ids cl1) j co \<longrightarrow> names (ids_bind i n (rg_ids cl)) j co \<or>
      (\<exists>s \<in> set syncs. ss_net_id s = j \<and> wd_at Wd1 n (ss_path s) = Some co))" for j co
    unfolding ids
    by (rule bind_names_from [OF ids_sound_bind [OF sound pos]]) (use pairs in \<open>auto simp: syncs given_def\<close>)
  have "\<exists>so. given G ids j so \<and> ?T so co"
    if s: "s \<in> set syncs" "ss_net_id s = j" "wd_at Wd1 n (ss_path s) = Some co" for s j co
  proof -
    obtain so where so: "(j, so) \<in> set pairs" "ss_path s = wd_path_to Ws m so" using s(1,2) by (auto simp: syncs)
    have "Wd1 \<in> CW1" using assms(5) [of rt n] entered by simp
    from twin.below [OF built made(1) this] have "?T so co" using s(3) so(2) by simp
    then show ?thesis using pairs so(1) by auto
  qed
  then show ?thesis
    using * T unfolding client_inv_def by (auto) (metis)
qed


subsection \<open>Both ends, and the records between them\<close>

datatype play_event =
    At_Server registry_event
  | At_Client replica_event
  | Client_Found wrap_op
  | Entity_In world entity_update
  | Client_Reset
  | New_Server

text \<open>A run of a server and a client, newest event first, and the two registries after it. Any record the
  server ever handed its core may come in, in any order, late, or again; a despawn may carry any id, and an
  entity's update anything. A client whose session was reset may find another server there, which knows nothing of
  the one before.\<close>

inductive play ::
  "wire \<Rightarrow> engine \<Rightarrow> nat \<Rightarrow> (f64 \<Rightarrow> u64) \<Rightarrow> (callable \<Rightarrow> variant \<Rightarrow> objid option) \<Rightarrow>
   play_event list \<Rightarrow> registry \<Rightarrow> registry \<Rightarrow> bool"
  for W E cap edge call_fn where
  start: "play W E cap edge call_fn [] registry0 registry0"
| served: "play W E cap edge call_fn evs sv cl \<Longrightarrow> server_fine E sv ev \<Longrightarrow>
    play W E cap edge call_fn (At_Server ev # evs) (registry_step W E cap edge sv ev) cl"
| record_came: "play W E cap edge call_fn evs sv cl \<Longrightarrow> c \<in> set (rg_calls sv) \<Longrightarrow> record_of c = Some (i, rec) \<Longrightarrow>
    world_ok Wd \<Longrightarrow> ev = Record_In Wd enter i (sr_spawner rec) (sr_data rec) \<Longrightarrow>
    play W E cap edge call_fn (At_Client ev # evs) sv (fst (replica_step W E edge call_fn (cl, []) ev))"
| despawn_came: "play W E cap edge call_fn evs sv cl \<Longrightarrow> ev = Despawn_In Wd i \<Longrightarrow>
    play W E cap edge call_fn (At_Client ev # evs) sv (fst (replica_step W E edge call_fn (cl, []) ev))"
| left_tree: "play W E cap edge call_fn evs sv cl \<Longrightarrow> ev = Left_Tree Wd cfg \<Longrightarrow>
    play W E cap edge call_fn (At_Client ev # evs) sv (fst (replica_step W E edge call_fn (cl, []) ev))"
| found: "play W E cap edge call_fn evs sv cl \<Longrightarrow>
    play W E cap edge call_fn (Client_Found op # evs) sv (wrap_step edge cl op)"
| updated: "play W E cap edge call_fn evs sv cl \<Longrightarrow>
    play W E cap edge call_fn (Entity_In Wd u # evs) sv
      (cl\<lparr>rg_entity := snd (client_entity W E cap Wd (rg_ids cl) u (rg_entity cl))\<rparr>)"
| session_over: "play W E cap edge call_fn evs sv (gs_registry (st :: unit session)) \<Longrightarrow>
    play W E cap edge call_fn (Client_Reset # evs) sv (gs_registry (reset_client_state st))"
| new_server: "play W E cap edge call_fn (Client_Reset # evs) sv cl \<Longrightarrow>
    play W E cap edge call_fn (New_Server # Client_Reset # evs) registry0 cl"

inductive_cases play_resetE: "play W E cap edge call_fn (Client_Reset # evs) sv cl"

text \<open>The scenes and the captured spawns of the run since this server started.\<close>

definition session_of :: "play_event list \<Rightarrow> play_event list" where
  "session_of evs = takeWhile (\<lambda>ev. ev \<noteq> New_Server) evs"

definition served_in :: "play_event list \<Rightarrow> world set" where
  "served_in evs = (\<Union>ev \<in> set (session_of evs). case ev of At_Server e \<Rightarrow> server_scenes e | _ \<Rightarrow> {})"

definition played_in :: "play_event list \<Rightarrow> world set" where
  "played_in evs =
     (\<Union>ev \<in> set (session_of evs). case ev of
        At_Client (Record_In Wd enter i sp data) \<Rightarrow> insert Wd (range (\<lambda>(rt, n). fst (enter rt n)))
      | _ \<Rightarrow> {})"

definition captured_by :: "play_event list \<Rightarrow> (objid \<times> objid \<times> variant) set" where
  "captured_by evs = (\<Union>ev \<in> set (session_of evs). case ev of At_Server e \<Rightarrow> captures e | _ \<Rightarrow> {})"

lemma scenes_Cons [simp]:
  "served_in (At_Server e # evs) = server_scenes e \<union> served_in evs"
  "captured_by (At_Server e # evs) = captures e \<union> captured_by evs"
  "played_in (At_Server e # evs) = played_in evs"
  "served_in (At_Client r # evs) = served_in evs" "captured_by (At_Client r # evs) = captured_by evs"
  "served_in (Client_Found op # evs) = served_in evs" "captured_by (Client_Found op # evs) = captured_by evs"
  "played_in (Client_Found op # evs) = played_in evs"
  "served_in (Entity_In Wd u # evs) = served_in evs" "captured_by (Entity_In Wd u # evs) = captured_by evs"
  "played_in (Entity_In Wd u # evs) = played_in evs"
  "served_in (Client_Reset # evs) = served_in evs" "captured_by (Client_Reset # evs) = captured_by evs"
  "played_in (Client_Reset # evs) = played_in evs"
  "served_in (New_Server # evs) = {}" "captured_by (New_Server # evs) = {}" "played_in (New_Server # evs) = {}"
  "served_in [] = {}" "captured_by [] = {}" "played_in [] = {}"
  by (simp_all add: served_in_def captured_by_def played_in_def session_of_def)

lemma played_more: "ev \<noteq> New_Server \<Longrightarrow> played_in evs \<subseteq> played_in (ev # evs)"
  by (auto simp: played_in_def session_of_def)

lemma record_scenes:
  "Wd \<in> played_in (At_Client (Record_In Wd enter i sp data) # evs)"
  "fst (enter rt n) \<in> played_in (At_Client (Record_In Wd enter i sp data) # evs)"
  by (force simp: played_in_def session_of_def)+

abbreviation alike ::
  "(callable \<Rightarrow> variant \<Rightarrow> objid option) \<Rightarrow> play_event list \<Rightarrow> registry \<Rightarrow> objid \<Rightarrow> objid \<Rightarrow> bool" where
  "alike call_fn evs cl \<equiv> twin call_fn (served_in evs) (played_in evs) (captured_by evs) (rg_spawners cl)"

lemma names_drop: "names (ids_drop i s) j ob \<Longrightarrow> names s j ob"
  by (auto simp: names_def ids_drop_by_id split: if_splits)

lemma ids_sound_drop: "ids_sound s \<Longrightarrow> ids_sound (ids_drop i s)"
  by (simp add: ids_sound_def ids_inv_drop ids_drop_by_id)

lemma ids_sound_forget: "ids_sound s \<Longrightarrow> ids_sound (ids_forget_learned s)"
  by (auto simp: ids_sound_def ids_forget_learned_def ids_inv_drops drops_by_id)

lemma names_forget: "names (ids_forget_learned s) j ob \<Longrightarrow> names s j ob"
  by (auto simp: names_def ids_forget_learned_def drops_by_id split: if_splits)

lemma despawn_ids:
  "rg_ids (snd (apply_despawn Wd i cl)) = ids_drop i (rg_ids cl)" "rg_spawners (snd (apply_despawn Wd i cl)) = rg_spawners cl"
  by (simp_all add: apply_despawn_def Let_def)

lemma alike_more:
  assumes "alike call_fn evs cl so co" "\<And>sp fn. hm_get (rg_spawners cl) sp = Some fn \<Longrightarrow> hm_get (rg_spawners cl1) sp = Some fn"
    and "served_in evs \<subseteq> served_in (ev # evs)" "captured_by evs \<subseteq> captured_by (ev # evs)" "ev \<noteq> New_Server"
  shows "alike call_fn (ev # evs) cl1 so co"
  using assms(1) by (rule twin_mono) (use assms(2-4) played_more [OF assms(5)] in auto)

lemma client_fewer:
  assumes "client_inv (alike call_fn evs cl) G ids cl" "rg_spawners cl1 = rg_spawners cl"
    and "ids_sound (rg_ids cl) \<Longrightarrow> ids_sound (rg_ids cl1)" "\<And>j ob. names (rg_ids cl1) j ob \<Longrightarrow> names (rg_ids cl) j ob"
    and "served_in (ev # evs) = served_in evs" "captured_by (ev # evs) = captured_by evs" "ev \<noteq> New_Server"
  shows "client_inv (alike call_fn (ev # evs) cl1) G ids cl1"
proof -
  have "client_inv (alike call_fn (ev # evs) cl1) G ids cl"
    by (rule client_inv_mono [OF assms(1) alike_more order_refl extends_refl]) (simp_all add: assms(2,5-7))
  moreover have "ids_sound (rg_ids cl1)" using assms(1,3) by (simp add: client_inv_def)
  ultimately show ?thesis using assms(4) by (rule client_inv_fewer)
qed

text \<open>A client's ids are all learned, so a reset forgets every one.\<close>

definition all_learned :: "net_ids \<Rightarrow> bool" where
  "all_learned s = (\<forall>i e. hm_get (by_id s) i = Some e \<longrightarrow> e_learned e)"

lemma learned_keeps:
  "all_learned s \<Longrightarrow> all_learned (ids_drop i s)" "all_learned s \<Longrightarrow> all_learned (ids_bind i ob s)"
  "all_learned s \<Longrightarrow> all_learned (ids_forget_learned s)"
  by (auto simp: all_learned_def ids_bind_def ids_put_def ids_release_eq ids_drop_by_id hm_get_put
      ids_forget_learned_def drops_by_id split: if_splits)

lemma learned_names: "all_learned s \<Longrightarrow> all_learned (fst (bind_names Wd n owned ss s))"
  by (induction ss arbitrary: s) (auto simp: learned_keeps split_beta Let_def split: option.split)

lemma learned_listed: "hm_get m i = Some e \<Longrightarrow> e_learned e \<Longrightarrow> i \<in> fst ` {x \<in> set m. case x of (i, e) \<Rightarrow> e_learned e}"
  by (force dest: hm_get_mem)

lemma learned_forgotten: "all_learned s \<Longrightarrow> \<not> names (ids_forget_learned s) i ob"
  by (auto simp: names_def ids_forget_learned_def drops_by_id all_learned_def learned_ids_def)
    (blast dest: learned_listed)

lemma learned_record:
  assumes "all_learned (rg_ids cl)" "client_spawn W E edge call_fn Wd enter i sp data cl = (taken, es, cl1)"
  shows "all_learned (rg_ids cl1)"
proof (cases "sp = BIND_SPAWNER")
  case True
  then show ?thesis
    using assms by (auto simp: client_spawn_def apply_bind_def split_beta learned_keeps Let_def split: option.splits if_splits)
next
  case False
  then have "apply_spawn W E edge call_fn Wd enter i sp data cl = (taken, es, cl1)" using assms(2) by (simp add: client_spawn_def)
  from apply_spawn_result [OF this] assms(1) show ?thesis by (auto simp: learned_names learned_keeps)
qed

lemma left_ids:
  "rg_ids (snd (config_remove edge Wd cfg cl)) = rg_ids cl \<or>
     rg_ids (snd (config_remove edge Wd cfg cl)) = ids_drop (ids_id (rg_ids cl) cfg) (rg_ids cl)"
  "rg_spawners (snd (config_remove edge Wd cfg cl)) = rg_spawners cl"
  by (auto simp: config_remove_def ids_release_eq Let_def refresh_def split_beta split: option.split node_class.split)

lemma play_learned: "play W E cap edge call_fn evs sv cl \<Longrightarrow> all_learned (rg_ids cl)"
proof (induction rule: play.induct)
  case start
  show ?case by (simp add: all_learned_def registry0_def net_ids0_def)
next
  case (record_came evs sv cl c i rec Wd ev enter)
  then show ?case
    using learned_record [of cl W E edge call_fn Wd enter i "sr_spawner rec" "sr_data rec"] by (auto simp: split_beta prod_eq_iff)
next
  case (left_tree evs sv cl ev Wd cfg)
  then show ?case using left_ids(1) [of edge Wd cfg cl] by (auto simp: split_beta learned_keeps)
qed (auto simp: split_beta despawn_ids learned_keeps reset_client_state_def Let_def)

lemma reset_names_nothing:
  assumes "play W E cap edge call_fn (Client_Reset # evs) sv cl"
  shows "\<not> names (rg_ids cl) i co"
  using assms
proof (rule play_resetE)
  fix st assume "cl = gs_registry (reset_client_state st)" "play W E cap edge call_fn evs sv (gs_registry st)"
  then show ?thesis using learned_forgotten [OF play_learned] by (simp add: reset_client_state_def Let_def)
qed

lemma play_inv:
  assumes "play W E cap edge call_fn evs sv cl" "wire_ok W"
  shows "\<exists>G. server_inv W E (served_in evs) (captured_by evs) G sv \<and> client_inv (alike call_fn evs cl) G (rg_ids sv) cl"
  using assms(1)
proof induction
  case start
  have "ids_sound (rg_ids registry0)" using ids_sound0 by (simp add: registry0_def)
  then show ?case
    using fresh_server [of W E] by (intro exI [of _ "\<lambda>_. 0"])
      (simp add: client_inv_def names_def, simp add: registry0_def net_ids0_def)
next
  case (served evs sv cl ev)
  then obtain G where G: "server_inv W E (served_in evs) (captured_by evs) G sv" "client_inv (alike call_fn evs cl) G (rg_ids sv) cl"
    by blast
  from server_step [OF G(1) served.hyps(2) assms(2), of cap edge] obtain G1 where
    G1: "extends (rg_ids sv) G G1" "rg_ids sv \<le> rg_ids (registry_step W E cap edge sv ev)"
      "server_inv W E (server_scenes ev \<union> served_in evs) (captures ev \<union> captured_by evs) G1 (registry_step W E cap edge sv ev)"
    by blast
  have "client_inv (alike call_fn (At_Server ev # evs) cl) G1 (rg_ids (registry_step W E cap edge sv ev)) cl"
    by (rule client_inv_mono [OF G(2) alike_more G1(2,1)]) auto
  then show ?case using G1(3) by auto
next
  case (record_came evs sv cl c i rec Wd ev enter)
  then obtain G where G: "server_inv W E (served_in evs) (captured_by evs) G sv" "client_inv (alike call_fn evs cl) G (rg_ids sv) cl"
    by blast
  have made: "bind_made E (served_in evs) G (rg_ids sv) i rec \<or> spawn_made W E (served_in evs) (captured_by evs) G (rg_ids sv) i rec"
    using G(1) record_came.hyps(2,3) by (force simp: server_inv_def made_def)
  obtain taken es cl1 where cl1: "client_spawn W E edge call_fn Wd enter i (sr_spawner rec) (sr_data rec) cl = (taken, es, cl1)"
    by (metis prod_cases3)
  have step: "fst (replica_step W E edge call_fn (cl, []) ev) = cl1" by (simp add: record_came.hyps(5) cl1)
  note sub = played_more [of "At_Client ev" evs, simplified]
    and scenes = record_scenes [where Wd = Wd and enter = enter and i = i and sp = "sr_spawner rec" and data = "sr_data rec" and evs = evs]
  have "client_inv (alike call_fn (At_Client ev # evs) cl1) G (rg_ids sv) cl1"
  proof (cases "sr_spawner rec = BIND_SPAWNER")
    case True
    then have "bind_made E (served_in evs) G (rg_ids sv) i rec" using made by (auto simp: spawn_made_def given_def)
    moreover have "apply_bind E Wd i (sr_data rec) cl = (taken, cl1)" using cl1 True by (auto simp: client_spawn_def split_beta prod_eq_iff)
    ultimately show ?thesis
      using client_bind_record [OF G(2) _ _ _ sub] scenes(1) by (simp add: record_came.hyps(5))
  next
    case False
    then have "spawn_made W E (served_in evs) (captured_by evs) G (rg_ids sv) i rec" using made by (auto simp: bind_made_def)
    moreover have "apply_spawn W E edge call_fn Wd enter i (sr_spawner rec) (sr_data rec) cl = (taken, es, cl1)"
      using cl1 False by (simp add: client_spawn_def)
    ultimately show ?thesis
      using client_spawn_record [OF G(2) _ record_came.hyps(4) _ _ sub] scenes(2) by (simp add: record_came.hyps(5))
  qed
  then show ?case using G(1) step by auto
next
  case (despawn_came evs sv cl ev Wd i)
  then obtain G where G: "server_inv W E (served_in evs) (captured_by evs) G sv" "client_inv (alike call_fn evs cl) G (rg_ids sv) cl"
    by blast
  have "client_inv (alike call_fn (At_Client ev # evs) (snd (apply_despawn Wd i cl))) G (rg_ids sv) (snd (apply_despawn Wd i cl))"
    by (rule client_fewer [OF G(2)]) (auto simp: despawn_ids dest: names_drop ids_sound_drop)
  then show ?case using G(1) despawn_came.hyps(2) by (auto simp: split_beta)
next
  case (left_tree evs sv cl ev Wd cfg)
  then obtain G where G: "server_inv W E (served_in evs) (captured_by evs) G sv" "client_inv (alike call_fn evs cl) G (rg_ids sv) cl"
    by blast
  let ?r = "snd (config_remove edge Wd cfg cl)"
  note left_ids [of edge Wd cfg cl]
  then have "client_inv (alike call_fn (At_Client ev # evs) ?r) G (rg_ids sv) ?r"
    by (intro client_fewer [OF G(2)]) (auto dest: names_drop ids_sound_drop)
  then show ?case using G(1) left_tree.hyps(2) by auto
next
  case (found evs sv cl op)
  then obtain G where G: "server_inv W E (served_in evs) (captured_by evs) G sv" "client_inv (alike call_fn evs cl) G (rg_ids sv) cl"
    by blast
  have "client_inv (alike call_fn (Client_Found op # evs) (wrap_step edge cl op)) G (rg_ids sv) cl"
  proof (rule client_inv_mono [OF G(2) _ order_refl extends_refl])
    show "alike call_fn (Client_Found op # evs) (wrap_step edge cl op) so co" if "alike call_fn evs cl so co" for so co
      using that by (rule alike_more) (simp_all add: wrap_step_spawners)
  qed
  then show ?case using G(1) by (auto simp: client_inv_def)
next
  case (updated evs sv cl Wd u)
  then obtain G where G: "server_inv W E (served_in evs) (captured_by evs) G sv" "client_inv (alike call_fn evs cl) G (rg_ids sv) cl"
    by blast
  let ?cl = "cl\<lparr>rg_entity := snd (client_entity W E cap Wd (rg_ids cl) u (rg_entity cl))\<rparr>"
  have "client_inv (alike call_fn (Entity_In Wd u # evs) ?cl) G (rg_ids sv) ?cl"
    by (rule client_fewer [OF G(2)]) auto
  then show ?case using G(1) by auto
next
  case (session_over evs sv st)
  then obtain G where G: "server_inv W E (served_in evs) (captured_by evs) G sv"
    "client_inv (alike call_fn evs (gs_registry st)) G (rg_ids sv) (gs_registry st)"
    by blast
  have "client_inv (alike call_fn (Client_Reset # evs) (gs_registry (reset_client_state st))) G (rg_ids sv)
      (gs_registry (reset_client_state st))"
    by (rule client_fewer [OF G(2)]) (auto simp: reset_client_state_def Let_def dest: names_forget ids_sound_forget)
  then show ?case using G(1) by auto
next
  case (new_server evs sv cl)
  then have "ids_sound (rg_ids cl)" by (auto simp: client_inv_def)
  then have "client_inv (alike call_fn (New_Server # Client_Reset # evs) cl) (\<lambda>_. 0) (rg_ids registry0) cl"
    using reset_names_nothing [OF new_server.hyps] by (simp add: client_inv_def)
  then show ?case using fresh_server [of W E] by auto
qed

lemma play_twin:
  assumes "play W E cap edge call_fn evs sv cl" "wire_ok W"
    and "hm_get (by_obj (rg_ids sv)) so = Some i" "names (rg_ids cl) i co"
  shows "alike call_fn evs cl so co"
proof -
  obtain G where G: "server_inv W E (served_in evs) (captured_by evs) G sv"
    "client_inv (alike call_fn evs cl) G (rg_ids sv) cl"
    using play_inv [OF assms(1,2)] by blast
  obtain so1 where so1: "given G (rg_ids sv) i so1" "alike call_fn evs cl so1 co"
    using G(2) assms(4) unfolding client_inv_def by blast
  have "given G (rg_ids sv) i so"
    using given_held [OF _ _ assms(3)] G(1) by (simp add: server_inv_def ids_room_def)
  then show ?thesis using so1 by (simp add: given_def)
qed

lemma object_names: "ids_object ids i = co \<Longrightarrow> co \<noteq> 0 \<Longrightarrow> names ids i co"
  by (auto simp: names_def ids_object_def split: option.splits)

subsection \<open>Properties\<close>

text \<open>C2: an id means one node of the game on both ends, always: in any run of a server and a client, whatever the
  core does with the records, and however many servers the client was at before, if the server has given
  an id to a node and the client resolves the id to a node, the client's node is the server's twin: found at the
  path where the server's stood, built by the twin of its spawner from the data the server's was spawned from, or
  found below such a node at the path where the server's is below its own, all since this server started.\<close>

theorem both_ends_name_alike:
  assumes "play W E cap edge call_fn evs sv cl" "wire_ok W"
    and "hm_get (by_obj (rg_ids sv)) so = Some i" "ids_object (rg_ids cl) i = co" "co \<noteq> 0"
  shows "twin call_fn (served_in evs) (played_in evs) (captured_by evs) (rg_spawners cl) so co"
  by (rule play_twin [OF assms(1-3) object_names [OF assms(4,5)]])


definition demo_play :: "play_event list" where
  "demo_play = map At_Client (rev demo_client_events) @ At_Server demo_tick # map At_Server (rev demo_spawn_events)"

abbreviation demo_played :: "play_event list \<Rightarrow> registry \<Rightarrow> registry \<Rightarrow> bool" where
  "demo_played \<equiv> play demo_wire demo_engine 32 (\<lambda>_. 0) (\<lambda>_ _. Some 160)"

lemma demo_served:
  "demo_played (At_Server demo_tick # map At_Server (rev demo_spawn_events))
     (demo_step (run demo_step registry0 demo_spawn_events) demo_tick) registry0"
proof -
  let ?st = "run demo_step registry0 demo_spawn_events"
  have "demo_played (map At_Server (rev demo_spawn_events)) ?st registry0"
    unfolding demo_spawn_events_def rev.simps map_append list.map append.simps run.simps demo_step_def
    by (intro play.served play.start) (simp_all add: demo_nil)
  moreover have "server_fine demo_engine ?st demo_tick"
    using demo_spawned [OF refl]
    by (simp add: demo_text ids_needed_def demo_spawn_world) (simp add: net_ids0_def)
  ultimately show ?thesis unfolding demo_step_def by (rule play.served)
qed


lemma demo_replayed:
  "demo_played demo_play (demo_step (run demo_step registry0 demo_spawn_events) demo_tick) demo_built"
proof -
  let ?sv = "demo_step (run demo_step registry0 demo_spawn_events) demo_tick"
  have calls: "Add_Spawn 1 (bind_record demo_engine demo_spawn_world 50 1 False) \<in> set (rg_calls ?sv)"
    "Add_Spawn 3 demo_spawn_record \<in> set (rg_calls ?sv)"
    using demo_ticked(7) [OF refl] by auto
  have ok: "world_ok demo_root_world" "world_ok demo_join_world"
    by (simp_all add: world_ok_def alive_def demo_root_world_def demo_join_world)
  have sp: "sr_spawner demo_spawn_record = 1" by (simp add: demo_spawn_record_def)
  have "demo_played (At_Client (Record_In demo_root_world demo_enter 1 BIND_SPAWNER
          (sr_data (bind_record demo_engine demo_spawn_world 50 1 False))) # At_Server demo_tick # map At_Server (rev demo_spawn_events))
      ?sv demo_bound"
    using play.record_came [where enter = demo_enter, OF demo_served calls(1) record_of.simps(1) ok(1) refl]
    by (simp add: client_spawn_def demo_bind) (simp add: bind_record_def demo_bind)
  from play.record_came [where enter = demo_enter, OF this calls(2) record_of.simps(1) ok(2) refl] show ?thesis
    by (simp add: demo_play_def demo_client_events_def client_spawn_def demo_build sp)
qed

lemma both_ends_name_alike_witness:
  "twin (\<lambda>_ _. Some 160) (served_in demo_play) (played_in demo_play) (captured_by demo_play) [(150, Game_Fn 0)] 61 161"
proof -
  have "hm_get (by_obj (rg_ids (demo_step (run demo_step registry0 demo_spawn_events) demo_tick))) 61 = Some 2"
    using demo_ticked(6) [OF refl] by (simp add: demo_ids_def hm_get_def)
  from both_ends_name_alike [OF demo_replayed demo_wire_ok this demo_built(2)] show ?thesis
    by (simp add: demo_built(3))
qed

end
