(* ===== verification/Twin_State.thy ===== *)
theory Twin_State
  imports Entity_Stream Two_Ends
begin

section \<open>What the server reads, on its twin\<close>

text \<open>
  The parts of replication together: the ids of \<open>Two_Ends\<close> and the frames of \<open>Entity_Stream\<close>. A frame of the
  server's synchronizer \<open>so\<close> arrives in some run of the two ends, where both hold its id (\<open>arrives_in\<close>); the client's
  scene shows its node as the server's scene showed \<open>so\<close> when the core was given it (\<open>shows_as\<close>): with the same
  configuration and metas, and with each property declared with one type. That the two then code the
  slots alike is \<open>both_ends_coding\<close>.
\<close>

definition shows_as :: "nat \<Rightarrow> world \<Rightarrow> objid \<Rightarrow> world \<Rightarrow> objid \<Rightarrow> bool" where
  "shows_as cap Ws so Wc co =
     (sy_config (wd_sync Wc co) = sy_config (wd_sync Ws so) \<and> sy_meta (wd_sync Wc co) = sy_meta (wd_sync Ws so) \<and>
      map (declared_type (wd_scene Wc)) (cache_slot_plan cap (wd_scene Wc) (wd_sync Wc co)) =
      map (declared_type (wd_scene Ws)) (cache_slot_plan cap (wd_scene Ws) (wd_sync Ws so)))"

definition arrives_in ::
  "wire \<Rightarrow> engine \<Rightarrow> nat \<Rightarrow> (f64 \<Rightarrow> u64) \<Rightarrow> (callable \<Rightarrow> variant \<Rightarrow> objid option) \<Rightarrow> world \<Rightarrow> objid \<Rightarrow> net_id \<Rightarrow> objid \<Rightarrow>
   entity_frame \<Rightarrow> play_event list \<times> registry \<Rightarrow> bool" where
  "arrives_in W E cap edge call_fn Ws so i co fr run_cl =
     (\<exists>sv. play W E cap edge call_fn (fst run_cl) sv (snd run_cl) \<and> hm_get (by_obj (rg_ids sv)) so = Some i \<and>
       ef_ids fr = rg_ids (snd run_cl) \<and> ids_object (ef_ids fr) i = co \<and> co \<noteq> 0 \<and>
       sync_from_objid (ef_client fr) co = Some co \<and> wd_in_tree (ef_client fr) co \<and> shows_as cap Ws so (ef_client fr) co)"

lemma shown_alike:
  assumes "arrives_in W E cap edge call_fn Ws so i co fr r"
  shows "client_has E cap i (make_sync_data E cap Ws so) co fr"
    and "get_sync_slots cap (wd_sync (ef_client fr) co) = get_sync_slots cap (wd_sync Ws so)"
    and "wire_ok W \<Longrightarrow> alike call_fn (fst r) (snd r) so co"
proof -
  have sh: "shows_as cap Ws so (ef_client fr) co" using assms by (auto simp: arrives_in_def)
  then have "made_coding E cap (ef_client fr) co = sd_coding (make_sync_data E cap Ws so)"
    unfolding shows_as_def made_coding_def make_sync_data_def Let_def sync_data.simps
    by (intro both_ends_coding) auto
  then show "client_has E cap i (make_sync_data E cap Ws so) co fr"
    using assms by (auto simp: arrives_in_def client_has_def)
  show "get_sync_slots cap (wd_sync (ef_client fr) co) = get_sync_slots cap (wd_sync Ws so)"
    using sh by (simp add: shows_as_def get_sync_slots_def)
  show "alike call_fn (fst r) (snd r) so co" if "wire_ok W"
    using assms play_twin [OF _ that _ object_names] by (auto simp: arrives_in_def)
qed

subsection \<open>Properties\<close>

text \<open>C1: what the server reads of a synchronizer is what its twin is set to. Let any sequence of a synchronizer's
  frames, each coded against any earlier one, arrive in runs of a server and a client, whatever the order of the records
  in those. At each frame the client's synchronizer is the server's twin, and the properties set on the
  client are those of the slots sent, found from the twin's own root, with the wire's view of what
  the server read at that frame.\<close>

theorem state_reaches_twin:
  assumes "wire_ok W" "angle_ok W" "engine_ok E"
    and "d = make_sync_data E cap Ws so" "frames_ok W E d [] frs"
    and "list_all2 (arrives_in W E cap edge call_fn Ws so i co) frs runs" "hm_get (ec_codings ec) co = None"
    and "entity_stream W E cap i d frs [] ([], [], ec) = (got, written, ec1)"
  shows "length written = length frs \<and>
    (\<forall>k < length frs.
       twin call_fn (served_in (fst (runs ! k))) (played_in (fst (runs ! k))) (captured_by (fst (runs ! k)))
         (rg_spawners (snd (runs ! k))) so co \<and>
       written ! k = slot_writes (wd_scene (ef_client (frs ! k))) (sy_root (wd_sync (ef_client (frs ! k)) co))
         (get_sync_slots cap (wd_sync Ws so)) (slot_seen W E (sd_coding d) (entity_value (ef_server (frs ! k)) d))
         (ef_changed (frs ! k)))"
proof -
  have at: "arrives_in W E cap edge call_fn Ws so i co (frs ! k) (runs ! k)" if "k < length frs" for k
    using assms(6) that by (simp add: list_all2_conv_all_nth)
  have "list_all (client_has E cap i d co) frs"
    using shown_alike(1) [OF at] assms(4) by (simp add: list_all_length)
  from stream_in_view [OF assms(1-3,5) this _ _ _ assms(8)] have "written = map (frame_writes W E cap d co) frs"
    by (simp add: coding_kept_def assms(7))
  then show ?thesis
    using shown_alike(2,3) [OF at] assms(1) by (simp add: frame_writes_def)
qed

text \<open>The synchronizer 61 of \<open>demo_play\<close>, and two frames of it at the client, where its twin is 161.\<close>

definition demo_there :: world where
  "demo_there = demo_client_world\<lparr>wd_class := (\<lambda>ob. if ob = 161 then Some Sync_Node else Some Plain_Node)\<rparr>"

definition demo_arrival :: "world \<Rightarrow> nat option \<Rightarrow> nat list \<Rightarrow> entity_frame" where
  "demo_arrival Wd b ss =
     \<lparr>ef_server = Wd, ef_client = demo_there, ef_ids = rg_ids demo_built, ef_base = b, ef_changed = ss, ef_now = 9\<rparr>"

definition demo_arrivals :: "entity_frame list" where
  "demo_arrivals = [demo_arrival demo_server_world None [0, 1], demo_arrival demo_later_world (Some 0) [0]]"

abbreviation demo_sync_data :: sync_data where
  "demo_sync_data \<equiv> make_sync_data demo_engine 32 demo_spawn_world 61"

lemma demo_same_sync: "sd_coding demo_sync_data = sd_coding demo_entity" "entity_value Wd demo_sync_data = entity_value Wd demo_entity"
  by (simp_all add: make_sync_data_def Let_def entity_value_def fun_eq_iff demo_entity_def demo_spawn_world)
    (simp_all add: demo_spawn_world_def)

lemma demo_seen:
  "slot_seen demo_wire demo_engine (sd_coding demo_entity) (entity_value demo_server_world demo_entity) 0 = VInt 5"
  "slot_seen demo_wire demo_engine (sd_coding demo_entity) (entity_value demo_server_world demo_entity) (Suc 0) = VBool True"
  "slot_seen demo_wire demo_engine (sd_coding demo_entity) (entity_value demo_later_world demo_entity) 0 = VInt 6"
  by (simp_all add: slot_seen_def demo_kinds demo_later demo_values [unfolded One_nat_def] slot_view_def payload_view_def
      engine_okD [OF demo_engine_ok])

lemma demo_arrivals_ok: "frames_ok demo_wire demo_engine demo_sync_data [] demo_arrivals"
  by (simp add: demo_arrivals_def demo_arrival_def frame_ok_def held_def demo_same_sync demo_kinds demo_later
      demo_values [unfolded One_nat_def] slot_ok_def slot_kind_stepped_def payload_ok_def tag_opaque_def slot_stable_def upt_rec)

lemma demo_arrives:
  "arrives_in demo_wire demo_engine 32 (\<lambda>_. 0) (\<lambda>_ _. Some 160) demo_spawn_world 61 2 161 (demo_arrival Wd b ss) (demo_play, demo_built)"
proof -
  have "hm_get (by_obj (rg_ids (demo_step (run demo_step registry0 demo_spawn_events) demo_tick))) 61 = Some 2"
    using demo_ticked(6) [OF refl] by (simp add: demo_ids_def hm_get_def)
  moreover have "shows_as 32 demo_spawn_world 61 demo_there 161"
    by (simp add: shows_as_def demo_spawn_world demo_there_def demo_worlds) (simp add: demo_spawn_world_def)
  ultimately show ?thesis
    using demo_replayed demo_built(2)
    by (auto simp: arrives_in_def demo_arrival_def) (auto simp: demo_there_def sync_from_objid_def demo_worlds)
qed

lemma state_reaches_twin_witness:
  "\<exists>got written ec1. entity_stream demo_wire demo_engine 32 2 demo_sync_data demo_arrivals []
       ([], [], \<lparr>ec_codings = [], ec_warned = []\<rparr>) = (got, written, ec1) \<and>
     map (map (\<lambda>(t, p, v). (t, np_subs p, v))) written =
       [[(7, [''a''], VInt 5), (7, [''b''], VBool True)], [(7, [''a''], VInt 6)]]"
proof -
  obtain got written ec1 where run: "entity_stream demo_wire demo_engine 32 2 demo_sync_data demo_arrivals []
      ([], [], \<lparr>ec_codings = [], ec_warned = []\<rparr>) = (got, written, ec1)"
    by (metis prod_cases3)
  have "list_all2 (arrives_in demo_wire demo_engine 32 (\<lambda>_. 0) (\<lambda>_ _. Some 160) demo_spawn_world 61 2 161) demo_arrivals
      [(demo_play, demo_built), (demo_play, demo_built)]"
    by (simp add: demo_arrivals_def demo_arrives)
  from state_reaches_twin [OF demo_wire_ok demo_angle_ok demo_engine_ok refl demo_arrivals_ok this _ run]
  have w: "length written = 2" "\<forall>k < 2. written ! k =
      slot_writes (wd_scene (ef_client (demo_arrivals ! k))) (sy_root (wd_sync (ef_client (demo_arrivals ! k)) 161))
        (get_sync_slots 32 (wd_sync demo_spawn_world 61))
        (slot_seen demo_wire demo_engine (sd_coding demo_sync_data) (entity_value (ef_server (demo_arrivals ! k)) demo_sync_data))
        (ef_changed (demo_arrivals ! k))"
    by (simp_all add: demo_arrivals_def)
  then obtain a b where ab: "written = [a, b]" by (auto simp: numeral_2_eq_2 length_Suc_conv)
  have all2: "(\<forall>k < 2. P k) \<longleftrightarrow> P 0 \<and> P (Suc 0)" for P :: "nat \<Rightarrow> bool"
    by (auto simp: numeral_2_eq_2 less_Suc_eq)
  have "map (map (\<lambda>(t, p, v). (t, np_subs p, v))) written =
       [[(7, [''a''], VInt 5), (7, [''b''], VBool True)], [(7, [''a''], VInt 6)]]"
    using w(2) unfolding all2
    by (simp add: ab demo_arrivals_def demo_arrival_def demo_same_sync slot_writes_def demo_spawn_world
        demo_slots demo_there_def demo_worlds)
      (simp add: demo_seen resolve_property_def demo_prop_def demo_sync_def demo_scene_def subpath_string_def)
  with run have r: "entity_stream demo_wire demo_engine 32 2 demo_sync_data demo_arrivals []
       ([], [], \<lparr>ec_codings = [], ec_warned = []\<rparr>) = (got, written, ec1) \<and>
     map (map (\<lambda>(t, p, v). (t, np_subs p, v))) written =
       [[(7, [''a''], VInt 5), (7, [''b''], VBool True)], [(7, [''a''], VInt 6)]]" by (rule conjI)
  show ?thesis by (rule exI, rule exI, rule exI, rule r)
qed

end
