(* ===== verification/Late_Sync.thy ===== *)
theory Late_Sync
  imports Server_Records
begin

section \<open>A synchronizer that comes late to a spawned node\<close>

text \<open>
  What no record names, over any run of a server's events: a synchronizer that is given its id after the record of
  the spawned node it is below was made, because it left the tree and came back or was added later
  (\<open>late_synchronizer_unnamed\<close>). \<open>add_entity\<close> hands the core no record of its own for it, and
  \<open>drain_one\<close> named what was below the node then. The operations' lemmas say that what each adds to the calls
  tells of ids of other objects only (\<open>goes_on\<close>); the preorder on a server's ids keeps what was told before apart.
\<close>

subsection \<open>Calls that do not tell of an object\<close>

definition naming :: "net_ids \<Rightarrow> net_id \<Rightarrow> objid \<Rightarrow> bool" where
  "naming ids i so = (\<exists>e. hm_get (by_id ids) i = Some e \<and> e_obj e = so)"

lemma naming_held: "server_ids ids \<Longrightarrow> naming ids i so \<longleftrightarrow> hm_get (by_obj ids) so = Some i"
  by (simp add: naming_def server_ids_def ids_inv_iff)

definition avoids :: "wire \<Rightarrow> engine \<Rightarrow> objid \<Rightarrow> net_ids \<Rightarrow> core_call \<Rightarrow> bool" where
  "avoids W E so ids c = (\<forall>i. tells W E i c \<longrightarrow> i < next_id ids \<and> \<not> naming ids i so)"

lemma avoids_later: "avoids W E so s c \<Longrightarrow> s \<le> t \<Longrightarrow> avoids W E so t c"
  unfolding avoids_def naming_def less_eq_net_ids_ext_def by (metis order.strict_trans2)

lemma avoids_others:
  assumes "server_ids ids" "\<And>i. tells W E i c \<Longrightarrow> \<exists>ob. ob \<noteq> so \<and> hm_get (by_obj ids) ob = Some i"
  shows "avoids W E so ids c"
  unfolding avoids_def
proof (intro allI impI)
  fix i assume "tells W E i c"
  then obtain ob where ob: "ob \<noteq> so" "hm_get (by_obj ids) ob = Some i" using assms(2) by blast
  have "i < next_id ids" using assms(1) ob(2) by (auto simp: server_ids_def ids_inv_iff)
  moreover have "\<not> naming ids i so"
    using naming_held [OF assms(1)] server_ids_inj [OF assms(1) ob(2), of so] ob(1) by auto
  ultimately show "i < next_id ids \<and> \<not> naming ids i so" by blast
qed

lemma no_record_tells: "record_of c = None \<Longrightarrow> \<not> tells W E i c"
  by (cases "(W, E, i, c)" rule: tells.cases) simp_all

lemma no_record_avoids: "record_of c = None \<Longrightarrow> avoids W E so ids c"
  by (simp add: avoids_def no_record_tells)

text \<open>A node is spawned while its id is among the spawned ones.\<close>

definition spawned_in :: "objid \<Rightarrow> registry \<Rightarrow> bool" where
  "spawned_in n st = (\<exists>j \<in> set (rg_spawned st). hm_get (by_obj (rg_ids st)) n = Some j)"

text \<open>An operation, while \<open>n\<close> is spawned: its ids get later, what it hands the core tells nothing of \<open>so\<close>, and
  \<open>n\<close> stays spawned.\<close>

definition goes_on :: "wire \<Rightarrow> engine \<Rightarrow> objid \<Rightarrow> objid \<Rightarrow> registry \<Rightarrow> registry \<Rightarrow> bool" where
  "goes_on W E n so st st1 =
     (spawned_in n st \<longrightarrow> spawned_in n st1 \<and> rg_ids st \<le> rg_ids st1 \<and>
        (\<exists>new. rg_calls st1 = rg_calls st @ new \<and> (\<forall>c \<in> set new. avoids W E so (rg_ids st1) c)))"

lemma goes_on_refl [simp]: "goes_on W E n so st st"
  by (simp add: goes_on_def)

lemma goes_on_trans [trans]:
  assumes "goes_on W E n so st s1" "goes_on W E n so s1 s2"
  shows "goes_on W E n so st s2"
  unfolding goes_on_def
proof (intro impI)
  assume n: "spawned_in n st"
  obtain new where new: "spawned_in n s1" "rg_ids st \<le> rg_ids s1" "rg_calls s1 = rg_calls st @ new"
    "\<forall>c \<in> set new. avoids W E so (rg_ids s1) c"
    using assms(1) n unfolding goes_on_def by blast
  obtain more where more: "spawned_in n s2" "rg_ids s1 \<le> rg_ids s2" "rg_calls s2 = rg_calls s1 @ more"
    "\<forall>c \<in> set more. avoids W E so (rg_ids s2) c"
    using assms(2) new(1) unfolding goes_on_def by blast
  have "\<forall>c \<in> set (new @ more). avoids W E so (rg_ids s2) c" using new(4) more(4) avoids_later [OF _ more(2)] by auto
  then show "spawned_in n s2 \<and> rg_ids st \<le> rg_ids s2 \<and>
      (\<exists>new. rg_calls s2 = rg_calls st @ new \<and> (\<forall>c \<in> set new. avoids W E so (rg_ids s2) c))"
    using new more order_trans [OF new(2) more(2)] by (intro conjI exI [of _ "new @ more"]) simp_all
qed

lemma goes_on_cong:
  "rg_ids s1 = rg_ids s \<Longrightarrow> rg_calls s1 = rg_calls s \<Longrightarrow> rg_spawned s1 = rg_spawned s \<Longrightarrow>
     goes_on W E n so st s1 = goes_on W E n so st s"
  by (simp add: goes_on_def spawned_in_def)

lemma goes_onI:
  assumes "rg_ids st \<le> rg_ids st1" "rg_calls st1 = rg_calls st @ new" "spawned_in n st \<Longrightarrow> spawned_in n st1"
    and "\<And>c. spawned_in n st \<Longrightarrow> c \<in> set new \<Longrightarrow> avoids W E so (rg_ids st1) c"
  shows "goes_on W E n so st st1"
  unfolding goes_on_def using assms by blast

lemma spawned_ext:
  "spawned_in n st \<Longrightarrow> ids_ext (rg_ids st) (rg_ids st1) \<Longrightarrow> set (rg_spawned st) \<subseteq> set (rg_spawned st1) \<Longrightarrow> spawned_in n st1"
  unfolding spawned_in_def ids_ext_def by blast

subsection \<open>Draining\<close>

text \<open>The objects the draining of a captured spawn gives ids to.\<close>

definition drained :: "world \<Rightarrow> objid \<times> pending_spawn \<Rightarrow> objid set" where
  "drained Wd item = insert (fst item) (insert (ps_spawner (snd item)) (set (collect_syncs Wd (wd_tree Wd (fst item)))))"

lemma drain_one_goes_on:
  assumes "drain_one W E Wd m ps st = (fin, st1)"
    and "ids_room (length (collect_syncs Wd (wd_tree Wd m)) + 2 + k) (rg_ids st)"
    and "wire_ok W" "scene_text_ok E Wd" "bytes_to_var E (var_to_bytes E (ps_data ps)) = ps_data ps"
    and "so \<notin> drained Wd (m, ps)"
  shows "goes_on W E n so st st1"
proof (cases "drainable Wd st (m, ps)")
  case False
  then show ?thesis using assms(1) by (simp add: drain_one_skips)
next
  case True
  let ?ids = "rg_ids st1" and ?P = "\<lambda>sy. sy \<in> set (rg_owned st)"
  note spec = drain_one_spec [OF assms(1) True ids_ext_refl]
  have sv: "server_ids ?ids" using drain_one_room [OF assms(1,2)] by (simp add: ids_room_def)
  have other: "ob \<noteq> so \<and> hm_get (by_obj ?ids) ob = Some (ids_id ?ids ob)" if "ob \<in> drained Wd (m, ps)" for ob
  proof -
    have "hm_get (by_obj ?ids) ob \<noteq> None"
      using that drain_one_has [OF assms(1) True, of ob] drain_one_spawner_has [OF assms(1) True]
      by (auto simp: drained_def)
    then show ?thesis using that assms(6) by (auto simp: ids_id_def)
  qed
  have "ids_room (length (collect_syncs Wd (wd_tree Wd m)) + (2 + k)) (rg_ids st)" using assms(2) by (simp add: add.assoc)
  note read = drain_one_read [OF this assms(3,4,5), of "ids_id ?ids" ?P]
  have told: "\<exists>ob \<in> drained Wd (m, ps). i = ids_id ?ids ob"
    if "tells W E i (spawn_call W E Wd (rg_owned st) ?ids m ps)" for i
    using that read by (auto simp: spawn_call_def Let_def drained_def)
  have bound: "\<exists>ob \<in> drained Wd (m, ps). i = ids_id ?ids ob"
    if "tells W E i (Add_Spawn (ids_id ?ids (ps_spawner ps)) (bind_record E Wd (ps_spawner ps) (ids_id ?ids (ps_spawner ps)) False))" for i
    using that by (simp add: bind_record_def drained_def)
  show ?thesis
  proof (rule goes_onI [OF drain_one_later [OF assms(1,2)] spec(9)])
    show "spawned_in n st \<Longrightarrow> spawned_in n st1" by (rule spawned_ext [OF _ spec(2)]) (auto simp: spec(7))
    fix c assume "c \<in> set ((if ids_id (rg_ids st) (ps_spawner ps) = 0 \<and> alive Wd (ps_spawner ps)
        then [Add_Spawn (ids_id ?ids (ps_spawner ps)) (bind_record E Wd (ps_spawner ps) (ids_id ?ids (ps_spawner ps)) False)]
        else []) @ [spawn_call W E Wd (rg_owned st) ?ids m ps])"
    then have "\<exists>ob. ob \<noteq> so \<and> hm_get (by_obj ?ids) ob = Some i" if "tells W E i c" for i
      using that told bound other by (fastforce split: if_splits)
    then show "avoids W E so ?ids c" by (rule avoids_others [OF sv])
  qed
qed

lemma drain_goes_on:
  assumes "ids_room (ids_needed Wd (rg_pending st) + k) (rg_ids st)" "wire_ok W" "scene_text_ok E Wd"
    and "captured_in CAP E (rg_pending st)" "\<forall>item \<in> set (rg_pending st). so \<notin> drained Wd item"
  shows "goes_on W E n so st (drain_pending_spawns W E Wd st)"
proof -
  have loop: "goes_on W E n so st st1"
    if "drain_loop W E Wd items st = (fins, st1)" "ids_room (ids_needed Wd items + k) (rg_ids st)"
      "captured_in CAP E items" "\<forall>item \<in> set items. so \<notin> drained Wd item" for items st fins st1
    using that
  proof (induction items arbitrary: st fins)
    case (Cons item items)
    obtain m ps where item: "item = (m, ps)" by (cases item)
    obtain f s1 where one: "drain_one W E Wd m ps st = (f, s1)" by (cases "drain_one W E Wd m ps st")
    obtain fs where rest: "drain_loop W E Wd items s1 = (fs, st1)"
      using Cons.prems(1) item one by (auto simp: split_beta prod_eq_iff)
    have room: "ids_room (length (collect_syncs Wd (wd_tree Wd m)) + 2 + (ids_needed Wd items + k)) (rg_ids st)"
      using Cons.prems(2) by (simp add: ids_needed_def item add.assoc)
    have "bytes_to_var E (var_to_bytes E (ps_data ps)) = ps_data ps" "captured_in CAP E items"
      using Cons.prems(3) item by (auto simp: captured_in_def)
    then have "goes_on W E n so st s1" "goes_on W E n so s1 st1"
      using Cons.prems(4) item Cons.IH [OF rest drain_one_room [OF one room]] drain_one_goes_on [OF one room assms(2,3)]
      by simp_all
    then show ?case by (rule goes_on_trans)
  qed simp
  show ?thesis
  proof (cases "rg_pending st = []")
    case False
    obtain fins s1 where l: "drain_loop W E Wd (rg_pending st) st = (fins, s1)"
      by (cases "drain_loop W E Wd (rg_pending st) st")
    have "goes_on W E n so st (s1\<lparr>rg_pending := fold hm_erase fins (rg_pending s1)\<rparr>)"
      using loop [OF l assms(1,4,5)] by (simp add: goes_on_def spawned_in_def)
    then show ?thesis using False l by (simp add: drain_pending_spawns_def)
  qed (simp add: drain_pending_spawns_def)
qed

lemma detect_goes_on:
  assumes "world_ok Wd" "server_ids (rg_ids st)" "alive Wd n"
  shows "goes_on W E n so st (detect_despawns Wd st)"
proof -
  let ?s = "detect_despawns Wd st"
  obtain gone where g: "rg_calls ?s = rg_calls st @ map Despawn gone"
    "set gone = {i \<in> set (rg_spawned st) \<union> set (rg_bind_ids st). id_dead Wd (rg_ids st) i}"
    "rg_ids ?s = fold ids_drop gone (rg_ids st)"
    "set (rg_spawned ?s) = {i \<in> set (rg_spawned st). \<not> id_dead Wd (rg_ids st) i}"
    using detect_despawns_spec [OF assms(1) refl, of st] by blast
  show ?thesis
  proof (rule goes_onI [OF _ g(1)])
    show "rg_ids st \<le> rg_ids ?s" by (simp add: g(3) later_drops)
    assume "spawned_in n st"
    then obtain j where j: "j \<in> set (rg_spawned st)" "hm_get (by_obj (rg_ids st)) n = Some j"
      unfolding spawned_in_def by blast
    then have "\<not> id_dead Wd (rg_ids st) j"
      using assms(2,3) ids_object_id [of "rg_ids st" n j] by (simp add: id_dead_def server_ids_def)
    then show "spawned_in n ?s"
      using j by (auto simp: spawned_in_def g(2,4) g(3) drops_by_obj [OF assms(2)])
  qed (auto simp: no_record_avoids)
qed

subsection \<open>Adding entities\<close>

lemma add_entity_goes_on:
  assumes "add_entity E cap Wd ob st = (fin, st1)" "ids_room (Suc k) (rg_ids st)" "n \<in> set (wd_up Wd so)"
  shows "goes_on W E n so st st1"
proof (cases "sync_from_objid Wd ob = None \<or> \<not> wd_in_tree Wd ob \<or> \<not> wd_authority Wd ob")
  case True
  then show ?thesis using assms(1) by (auto simp: add_entity_def split: if_splits)
next
  case False
  let ?ids = "snd (ids_assign ob (rg_ids st))" and ?i = "fst (ids_assign ob (rg_ids st))"
  have ids: "rg_ids st1 = ?ids" "rg_spawned st1 = rg_spawned st"
    and calls: "\<exists>layout d rec. rg_calls st1 = rg_calls st @ [Add_Entity ?i layout d rec] \<and>
      (under_spawned Wd (st\<lparr>rg_ids := ?ids\<rparr>) ob \<longrightarrow> rec = None)"
    using assms(1) False by (auto simp: add_entity_def Let_def split_beta split: if_splits)
  have sv: "server_ids ?ids" using ids_room_assign [OF assms(2)] by (simp add: ids_room_def)
  obtain layout d rec where c: "rg_calls st1 = rg_calls st @ [Add_Entity ?i layout d rec]"
    "under_spawned Wd (st\<lparr>rg_ids := ?ids\<rparr>) ob \<Longrightarrow> rec = None" using calls by blast
  show ?thesis
  proof (rule goes_onI [OF _ c(1)])
    show "rg_ids st \<le> rg_ids st1" using later_assign [OF assms(2)] by (simp add: ids)
    show "spawned_in n st \<Longrightarrow> spawned_in n st1" by (rule spawned_ext [of n st]) (simp_all add: ids)
    fix c assume n: "spawned_in n st" and "c \<in> set [Add_Entity ?i layout d rec]"
    moreover have "rec = None" if "ob = so"
    proof (rule c(2))
      obtain j where "j \<in> set (rg_spawned st)" "hm_get (by_obj (rg_ids st)) n = Some j"
        using n unfolding spawned_in_def by blast
      moreover have "ids_ext (rg_ids st) ?ids" by simp
      ultimately show "under_spawned Wd (st\<lparr>rg_ids := ?ids\<rparr>) ob"
        using assms(3) that by (auto simp: under_spawned_def list_ex_iff ids_id_def ids_ext_def intro!: bexI [of _ n])
    qed
    ultimately show "avoids W E so (rg_ids st1) c"
      unfolding ids by (cases rec) (auto simp: no_record_avoids assign_by_obj intro!: avoids_others [OF sv] exI [of _ ob])
  qed
qed

lemma add_goes_on:
  assumes "ids_room (length (rg_to_add st) + k) (rg_ids st)" "n \<in> set (wd_up Wd so)"
  shows "goes_on W E n so st (add_entities E cap Wd st)"
proof -
  have loop: "goes_on W E n so st st1"
    if "add_loop E cap Wd obs st = (fins, st1)" "ids_room (length obs + k) (rg_ids st)" for obs st fins st1
    using that
  proof (induction obs arbitrary: st fins)
    case (Cons ob obs)
    obtain f s1 where one: "add_entity E cap Wd ob st = (f, s1)" by (cases "add_entity E cap Wd ob st")
    obtain fs where rest: "add_loop E cap Wd obs s1 = (fs, st1)"
      using Cons.prems(1) one by (auto simp: split_beta prod_eq_iff)
    have room: "ids_room (Suc (length obs + k)) (rg_ids st)" using Cons.prems(2) by simp
    have s1: "rg_ids s1 = rg_ids st \<or> rg_ids s1 = snd (ids_assign ob (rg_ids st))"
      using one by (auto simp: add_entity_def Let_def split_beta split: if_splits)
    then have "ids_room (length obs + k) (rg_ids s1)"
      using ids_room_assign [OF room] ids_room_less [OF room, of "length obs + k"] by auto
    from goes_on_trans [OF add_entity_goes_on [OF one room assms(2)] Cons.IH [OF rest this]] show ?case .
  qed simp
  obtain fins s1 where l: "add_loop E cap Wd (rg_to_add st) st = (fins, s1)"
    by (cases "add_loop E cap Wd (rg_to_add st) st")
  have "goes_on W E n so st (s1\<lparr>rg_to_add := fold hs_erase fins (rg_to_add s1)\<rparr>)"
    using loop [OF l assms(1)] by (simp add: goes_on_def spawned_in_def)
  then show ?thesis using l by (simp add: add_entities_def)
qed

subsection \<open>One event\<close>

text \<open>What an event of the later run relies on: what any of a server's does, and, where it drains, despawns or adds, that
  the spawned node \<open>n\<close> is alive, \<open>so\<close> is below it, and no captured spawn waits for a record that would
  name \<open>so\<close> (one of a node nested between the two).\<close>

definition below :: "objid \<Rightarrow> objid \<Rightarrow> world \<Rightarrow> registry \<Rightarrow> bool" where
  "below n so Wd st =
     (world_ok Wd \<and> alive Wd n \<and> n \<in> set (wd_up Wd so) \<and> (\<forall>item \<in> set (rg_pending st). so \<notin> drained Wd item))"

fun late_fine :: "engine \<Rightarrow> objid \<Rightarrow> objid \<Rightarrow> registry \<Rightarrow> registry_event \<Rightarrow> bool" where
  "late_fine E n so st (Polled Wd) = (server_fine E st (Polled Wd) \<and> below n so Wd st)"
| "late_fine E n so st (Ticked Wd tr now) = (server_fine E st (Ticked Wd tr now) \<and> below n so Wd st)"
| "late_fine E n so st (Unregistered Wd cfg) = (cfg \<noteq> n)"
| "late_fine E n so st ev = server_fine E st ev"

lemma late_server_fine: "late_fine E n so st ev \<Longrightarrow> server_fine E st ev"
  by (cases ev) simp_all

definition late_inv :: "wire \<Rightarrow> engine \<Rightarrow> objid \<Rightarrow> objid \<Rightarrow> registry \<Rightarrow> bool" where
  "late_inv W E n so st =
     (wire_ok W \<and> ids_room 0 (rg_ids st) \<and> captured_in UNIV E (rg_pending st) \<and> spawned_in n st \<and>
      (\<forall>c \<in> set (rg_calls st). avoids W E so (rg_ids st) c))"

lemma poll_goes_on:
  assumes "late_inv W E n so st" "below n so Wd st" "scene_text_ok E Wd"
    and "ids_room (ids_needed Wd (rg_pending st) + k) (rg_ids st)"
  shows "goes_on W E n so st (detect_despawns Wd (drain_pending_spawns W E Wd st))"
proof -
  let ?d = "drain_pending_spawns W E Wd st"
  have "goes_on W E n so st ?d"
    using assms by (intro drain_goes_on [OF assms(4) _ assms(3)]) (auto simp: late_inv_def below_def)
  also have "goes_on W E n so ?d (detect_despawns Wd ?d)"
    using drain_keeps [OF assms(4), of W E] assms(2) by (intro detect_goes_on) (simp_all add: below_def ids_room_def)
  finally show ?thesis .
qed

lemma capture_spawned [simp]: "rg_spawned (capture_spawners Wd tr st) = rg_spawned st"
proof -
  have "rg_spawned (fold wrap_spawner sps s) = rg_spawned s" for sps s
    by (induction sps arbitrary: s) (simp_all add: wrap_spawner_def)
  then show ?thesis by (simp add: capture_spawners_def split: option.split)
qed

lemma tick_goes_on:
  assumes "ids_room (length (rg_to_add st) + k) (rg_ids st)" "n \<in> set (wd_up Wd so)"
  shows "goes_on W E n so st (server_tick E cap Wd tr now st)"
proof (cases "tr = None")
  case False
  let ?c = "capture_spawners Wd tr st"
  let ?a = "add_entities E cap Wd ?c"
  have "goes_on W E n so st ?c" by (simp cong: goes_on_cong)
  also have "goes_on W E n so ?c ?a" using assms by (intro add_goes_on [where k = k]) simp_all
  also have "goes_on W E n so ?a (core (Core_Tick now) ?a)"
    by (rule goes_onI [where new = "[Core_Tick now]"]) (simp_all add: spawned_in_def no_record_avoids)
  finally show ?thesis using False by (simp add: server_tick_def)
qed (simp add: server_tick_def)

lemma late_goes_on:
  assumes "late_inv W E n so st" "late_fine E n so st ev"
  shows "goes_on W E n so st (registry_step W E cap edge st ev)"
proof (cases ev)
  case (Polled Wd)
  have "ids_room (ids_needed Wd (rg_pending st) + 0) (rg_ids st)"
    using assms Polled by (simp add: late_inv_def ids_room_def)
  from poll_goes_on [OF assms(1) _ _ this] show ?thesis using assms(2) Polled by simp
next
  case (Ticked Wd tr now)
  let ?p = "detect_despawns Wd (drain_pending_spawns W E Wd st)"
  have room: "ids_room (ids_needed Wd (rg_pending st) + length (rg_to_add st)) (rg_ids st)"
    using assms Ticked by (simp add: late_inv_def ids_room_def)
  have p: "ids_room (length (rg_to_add ?p) + 0) (rg_ids ?p)"
    using drain_keeps [OF room, of W E]
      detect_keeps [of "length (rg_to_add st)" "drain_pending_spawns W E Wd st" Wd] by simp
  have "goes_on W E n so st ?p" using poll_goes_on [OF assms(1) _ _ room] assms(2) Ticked by simp
  also have "goes_on W E n so ?p (server_tick E cap Wd tr now ?p)"
    using tick_goes_on [OF p] assms(2) Ticked by (simp add: below_def)
  finally show ?thesis by (simp add: Ticked send_snapshots_def)
next
  case (Captured node v sp)
  then show ?thesis
    by (simp add: spawn_trampoline_def Let_def cong: goes_on_cong split: option.split)
next
  case (Found op)
  obtain new where "rg_calls (wrap_step edge st op) = rg_calls st @ new" "\<forall>c \<in> set new. record_of c = None"
    using wrap_step_calls by blast
  moreover have "rg_ids (wrap_step edge st op) = rg_ids st" "rg_spawned (wrap_step edge st op) = rg_spawned st"
    by (cases op; simp add: on_node_added_def wrap_spawner_def config_add_def refresh_def Let_def split_beta
        split: option.split node_class.split)+
  ultimately show ?thesis
    by (auto simp: Found spawned_in_def no_record_avoids intro!: goes_onI)
next
  case (Unregistered Wd cfg)
  let ?s = "snd (config_remove edge Wd cfg st)" and ?i = "ids_id (rg_ids st) cfg"
  have sv: "server_ids (rg_ids st)" using assms(1) by (simp add: late_inv_def ids_room_def)
  obtain new where new: "rg_calls ?s = rg_calls st @ new" "\<forall>c \<in> set new. record_of c = None"
    using remove_plain(2) by blast
  have ids: "rg_ids ?s = rg_ids st \<or> rg_ids ?s = ids_drop ?i (rg_ids st)" and sp: "rg_spawned ?s = rg_spawned st"
    by (simp_all add: config_remove_def ids_release_eq refresh_def Let_def split_beta split: option.split node_class.split)
  show ?thesis
    unfolding Unregistered registry_step.simps
  proof (rule goes_onI [OF _ new(1)])
    show "rg_ids st \<le> rg_ids ?s" using ids later_drop by auto
    assume "spawned_in n st"
    then obtain j where j: "j \<in> set (rg_spawned st)" "hm_get (by_obj (rg_ids st)) n = Some j"
      unfolding spawned_in_def by blast
    have "j \<noteq> ?i"
    proof
      assume "j = ?i"
      moreover have "0 < j" by (rule server_ids_pos [OF sv j(2)])
      ultimately have "hm_get (by_obj (rg_ids st)) cfg = Some j" by (simp add: ids_id_def split: option.splits)
      then show False using server_ids_inj [OF sv j(2)] assms(2) Unregistered by auto
    qed
    then show "spawned_in n ?s" using ids sp j by (auto simp: spawned_in_def server_ids_by_obj_drop [OF sv])
  qed (use new(2) in \<open>simp add: no_record_avoids\<close>)
qed

lemma late_inv_step:
  assumes "late_inv W E n so st" "late_fine E n so st ev"
  shows "late_inv W E n so (registry_step W E cap edge st ev)"
proof -
  let ?s = "registry_step W E cap edge st ev"
  have "ids_room 0 (rg_ids ?s) \<and> captured_in UNIV E (rg_pending ?s)"
    using server_event [of st UNIV E ev W "{}" cap edge] assms late_server_fine [OF assms(2)] by (simp add: late_inv_def)
  moreover obtain new where "spawned_in n ?s" "rg_ids st \<le> rg_ids ?s" "rg_calls ?s = rg_calls st @ new"
    "\<forall>c \<in> set new. avoids W E so (rg_ids ?s) c"
    using late_goes_on [OF assms, of cap edge] assms(1) unfolding goes_on_def late_inv_def by blast
  ultimately show ?thesis
    using assms(1) avoids_later by (auto simp: late_inv_def)
qed

interpretation late: machine "registry_step W E cap edge" "late_fine E n so" "late_inv W E n so" for W E cap edge n so
  by unfold_locales (rule late_inv_step)

text \<open>What a server has told is of ids it has given out.\<close>

lemma server_run:
  assumes "wire_ok W"
  shows "server_inv W E SW CAP G st \<Longrightarrow> run_ok (registry_step W E cap edge) (server_fine E) st es \<Longrightarrow>
    \<exists>SW1 CAP1 G1. server_inv W E SW1 CAP1 G1 (run (registry_step W E cap edge) st es)"
proof (induction es arbitrary: SW CAP G st)
  case (Cons ev es)
  then show ?case using server_step [OF Cons.prems(1) _ assms, of ev cap edge] by simp blast
qed auto

lemma made_told:
  assumes "made W E SW CAP G ids c" "tells W E i c"
  shows "i < next_id ids"
  using assms
  by (cases "(W, E, i, c)" rule: tells.cases)
    (fastforce simp: made_def bind_made_def spawn_made_def given_def split: option.splits)+

subsection \<open>Properties\<close>

text \<open>C22: a synchronizer that comes late to a spawned node is never named. Take any run of a server's events after
  which a node is spawned, its record made, and a synchronizer has no id: it has left the tree (an
  unregistered synchronizer loses its id) or was not there yet. Then over any further run, through polls and
  ticks, with the node alive and the synchronizer below it, and with no captured spawn of a node between the two, whatever id the
  synchronizer gets, nothing the core is handed tells the peers that the id is its: no record of its own, and
  no spawn record. The binding's clients skip the updates of an id they know no node for, so an entity the core
  holds for it is never replicated.\<close>

theorem late_synchronizer_unnamed:
  assumes "wire_ok W" "run_ok (registry_step W E cap edge) (server_fine E) registry0 es"
    and "st = run (registry_step W E cap edge) registry0 es"
    and "hm_get (by_obj (rg_ids st)) n = Some j" "j \<in> set (rg_spawned st)" "hm_get (by_obj (rg_ids st)) so = None"
    and "run_ok (registry_step W E cap edge) (late_fine E n so) st later"
    and "hm_get (by_obj (rg_ids (run (registry_step W E cap edge) st later))) so = Some i"
  shows "\<not> list_ex (tells W E i) (rg_calls (run (registry_step W E cap edge) st later))"
proof -
  obtain SW CAP G where inv: "server_inv W E SW CAP G st"
    using server_run [OF assms(1) fresh_server assms(2)] assms(3) by blast
  then have sv: "server_ids (rg_ids st)" by (simp add: server_inv_def ids_room_def)
  have "avoids W E so (rg_ids st) c" if "c \<in> set (rg_calls st)" for c
    using inv that made_told naming_held [OF sv] assms(6) by (auto simp: avoids_def server_inv_def)
  moreover have "captured_in UNIV E (rg_pending st)" using inv by (auto simp: server_inv_def captured_in_def)
  ultimately have "late_inv W E n so st"
    using inv assms(1,4,5) by (auto simp: late_inv_def server_inv_def spawned_in_def)
  from late.inv_run [OF this assms(7)] have
    "server_ids (rg_ids (run (registry_step W E cap edge) st later))"
    "\<forall>c \<in> set (rg_calls (run (registry_step W E cap edge) st later)).
       avoids W E so (rg_ids (run (registry_step W E cap edge) st later)) c"
    by (simp_all add: late_inv_def ids_room_def)
  then show ?thesis using assms(8) naming_held unfolding avoids_def list_ex_iff by blast
qed

text \<open>The synchronizer of \<open>demo_moved\<close>, back in the tree, is in the core as 4, and no call tells of 4.\<close>

lemma late_synchronizer_unnamed_witness:
  "in_core (run demo_step registry0 demo_moved) 61 \<and>
   ids_id (rg_ids (run demo_step registry0 demo_moved)) 61 = 4 \<and>
   \<not> list_ex (tells demo_wire demo_engine 4) (rg_calls (run demo_step registry0 demo_moved))"
proof -
  let ?es = "demo_spawn_events @ demo_tick # demo_back_events"
  define st where "st = run demo_step registry0 ?es"
  note r = demo_returned [OF st_def] and m = demo_moved [OF refl]
  have moved: "run demo_step registry0 demo_moved = run demo_step st [demo_tick]"
    by (simp only: demo_moved_def run_append st_def)
  have fine: "run_ok demo_step (server_fine demo_engine) registry0 ?es"
    using demo_spawned [OF refl]
    by (simp add: run_ok_append demo_back_events_def demo_text ids_needed_def demo_spawn_world net_ids0_def)
      (simp add: demo_spawn_events_def demo_nil)
  have late: "run_ok demo_step (late_fine demo_engine 60 61) st [demo_tick]"
    by (simp add: r demo_text ids_needed_def below_def world_ok_def alive_def demo_spawn_world)
  have "hm_get (by_obj (rg_ids st)) 60 = Some 3" by (simp add: r hm_get_def)
  from late_synchronizer_unnamed [OF demo_wire_ok fine [unfolded demo_step_def] st_def [unfolded demo_step_def] this _ r(10)
      late [unfolded demo_step_def], of 4]
  have "\<not> list_ex (tells demo_wire demo_engine 4) (rg_calls (run demo_step registry0 demo_moved))"
    using m(3) r(4) unfolding moved by (simp add: demo_step_def)
  moreover have "in_core (run demo_step registry0 demo_moved) 61"
    using m(3,4) by (auto simp: in_core_def core_entities_def bind_record_def)
  ultimately show ?thesis using m(3) by (simp add: ids_id_def)
qed

end
