(* ===== verification/Spec2Isabelle.thy ===== *)
theory Spec2Isabelle
  imports Slot_Plan Args Net_Ids Rpc Commands Messages Rpc_Stats Api Cadence Dirty Peer_Wrapper Sim_Config Settings
    Twin_State Late_Sync
begin

text \<open>
  \<^bold>\<open>goldnet-godot: a model of the Godot binding of goldnet, and what makes it correct.\<close>

  \<^bold>\<open>The program.\<close> \<open>src/src\<close> is a Godot extension. \<open>GoldNetMultiplayer\<close> (\<open>goldnet_multiplayer.h\<close>, \<open>.cpp\<close>)
  is a \<open>MultiplayerAPI\<close> that stands in front of the stock \<open>SceneMultiplayer\<close>, its \<open>inner\<close>, and puts the
  game's replicated state, its spawns and most of its RPCs on goldnet's own protocol. That protocol
  (change tracking, per-peer baselines and acks, the reliable stream, rates) is the core, in the
  submodule \<open>extern/goldnet\<close>: it calls the binding through \<open>ServerHost\<close>, \<open>ClientHost\<close> and
  \<open>UplinkHost\<close>, and the binding calls it. The other parts are \<open>NetIds\<close> (\<open>goldnet_net_ids.h\<close>), which id names
  which node; \<open>GoldNetSimPeer\<close> (\<open>goldnet_sim_peer.h\<close>, \<open>.cpp\<close>), which holds back what a client's peer
  receives to simulate a bad link; and \<open>GoldNetLink\<close>, the node whose two RPCs carry the packets.

  \<^bold>\<open>Where each part is.\<close> Every definition has the name of the code it models, where HOL leaves the name
  free; the state of a component is a record with the code's members.

  \<^item> \<open>Prelude\<close>: machine words, Godot's \<open>HashMap\<close>, \<open>HashSet\<close> and \<open>Variant\<close>, runs of a component and
    the locale \<open>machine\<close> that lifts a one-step invariant to runs. \<open>Ieee\<close>, \<open>Ieee_Round\<close>: \<open>float\<close> and
    \<open>double\<close> on bit patterns and their rounding error. \<open>Wire\<close>: goldnet's byte primitives and the
    engine's conversions, as the parameters \<open>wire\<close> and \<open>engine\<close>, and the locale \<open>codec\<close>;
    \<open>Wire_Demo\<close>: one concrete instance, for the witnesses.
  \<^item> What a value is on the wire. \<open>Values\<close>: tagged values. \<open>Slots\<close>: slots, coded as steps from a baseline;
    \<open>Grid_Stable\<close>: why a step's two ends agree on the quantum; \<open>Slot_Stream\<close>: a slot over lost
    frames, through the locale \<open>delta_channel\<close>. \<open>Slot_Plan\<close>: from a synchronizer's configuration and
    metas to its slots, their kinds and the one-byte check.
  \<^item> Replication. \<open>World\<close>: the scene, as the code asks about it. \<open>Net_Ids\<close>: the ids. \<open>Entity\<close>: one entity's
    state, read and encoded by the server, decoded and set by the client. \<open>Registry\<close>: synchronizers,
    spawners and spawned nodes, the engine's announcements, and what a server's tick hands the core (the
    log \<open>rg_calls\<close>). \<open>Spawn_Data\<close>: a spawn record's bytes. \<open>Spawn_Capture\<close>: from a spawn to its record.
    \<open>Core_View\<close>: how the core follows the scene. \<open>Replica\<close>: the client's half, and one spawn at both ends.
    \<open>Entity_Stream\<close>: an entity over a session's frames. \<open>Server_Records\<close>: what a server has told under an id, over
    any run; \<open>Two_Ends\<close>: any run of a server and a client together, as a step relation; \<open>Twin_State\<close>: what an entity
    of the server is on the client, from the two; \<open>Late_Sync\<close>: what no record names.
    \<open>Cadence\<close>: when a server sends. \<open>Dirty\<close>: \<open>mark_dirty\<close>.
  \<^item> Calls. \<open>Args\<close>: their arguments' bytes. \<open>Rpc\<close>: a method's configuration and the size of a call.
    \<open>Commands\<close>: command streams, signatures, delivery. \<open>Messages\<close>: RPCs on the netchan, both ends, over
    the core's promises. \<open>Funnel\<close>: the one way out of every call, snapshot and uplink packet, through the
    send-side sim. \<open>Rpc_Stats\<close>: the RPC counters and their print. \<open>Sim_Peer\<close>: the receive side, and
    \<open>Peer_Wrapper\<close>: the peer it wraps. \<open>Sim_Config\<close>: the settings of both; \<open>Settings\<close>: the core's.
  \<^item> \<open>Session\<close>: starts and ends of a session and what follows a snapshot, around the registries, the messages
    and the sim. \<open>Api\<close>: the poll that drives all of it, and the order of what it hands the core.

  \<^bold>\<open>How the parts interact.\<close> The engine announces a synchronizer (\<open>config_add\<close>) or calls a wrapped spawner
  (\<open>spawn_trampoline\<close>); a server's poll (\<open>poll_server\<close>) drains the captured spawns into records, turns freed nodes
  into despawns and adds new entities, naming every node by \<open>ids_assign\<close>. A client's core hands each record
  to \<open>client_spawn\<close>, which builds or finds the node and binds the ids (\<open>ids_bind\<close>), and each entity's
  update to \<open>client_entity\<close>, which resolves its id, decodes its slots and sets its properties. A game's
  call enters at \<open>rpc\<close> and leaves as a command, a message or a call of the inner.

  \<^bold>\<open>What the lemmas show.\<close> Bytes read back as they were written, up to a stated view: values, slots, arguments,
  spawn records, commands (\<open>codec\<close>, and the \<open>wire_simps\<close> collection the larger ones are built from). State
  stays well formed under every operation, and so over runs: the ids' two maps, what the core
  holds against what the scene has, what the sims hold against what went in, what a client frees. The
  two ends agree: a slot's values and an entity's, over lost frames; the node an id means, over
  any run and any order of the records; both together (\<open>Twin_State\<close>); the target a call is made on. And errors are
  values: a refused command, a record that comes again, an update skipped.

  \<^bold>\<open>Parameters.\<close> Nothing outside \<open>src\<close> is defined here. The core is a log of the calls it is given and arguments
  for its answers; \<open>NetSim\<close> is the record \<open>netsim\<close> with the hypothesis \<open>netsim_ok\<close>; goldnet's primitives and
  the engine's conversions are \<open>wire\<close> and \<open>engine\<close> with \<open>wire_ok\<close>, \<open>angle_ok\<close> and \<open>engine_ok\<close>, and a string's or an opaque
  value's own \<open>str_ok\<close> and \<open>opaque_ok\<close>; the sim's settings are \<open>sim_knobs\<close> with \<open>knobs_ok\<close>; the peer
  a sim wraps is \<open>multiplayer_peer\<close> with \<open>peer_ok\<close>. The scene of each
  operation is its \<open>world\<close>; game code that runs inside an operation (a spawn function, what entering the tree
  announces, what the inner's poll calls back) is a function argument. Every hypothesis used has a witness.

  \<^bold>\<open>Bounds and fuel.\<close> The ids' counter and the message ids are 32 bits wide, so freshness is stated while they have
  not wrapped (\<open>ids_room\<close>, \<open>event_room\<close>); grid values agree up to \<open>2 ^ 50\<close> quanta for a \<open>double\<close> and \<open>2 ^ 21\<close> for a
  \<open>Vector3\<close>. \<open>_sim_send\<close> calls itself to split a broadcast: \<open>sim_send\<close> has fuel, and two units are enough wherever
  peers have positive ids, which the engine's always have (\<open>sim_send_route\<close>). \<open>GoldNetSimPeer\<close>'s
  poll loops while its peer has packets: \<open>read_loop\<close> is partial, and returns over a queue. Every other loop
  is over a list.

  \<^bold>\<open>What modelling showed.\<close> Some theorems state faults: a node marked dirty too early is never marked; a
  client's peer swapped for a hosting one leaves learned ids that the host then hands out again; a synchronizer
  that comes late to a spawned node is replicated under an id no peer can resolve; a broadcast deferred by the
  send sim outlives its session; an angle or half hint on a property of another type changes its values' type; the RPC
  counters miss a recipient; and the one-byte check cannot tell every pair of codings apart.

  \<^bold>\<open>Not modelled.\<close> \<open>register_types.cpp\<close>, \<open>_bind_methods\<close> and the connecting of signals (engine bindings);
  the debug prints, with the byte counter only they read, and the text of the statistics print; and
  the game's signal handlers, which may run anything.
\<close>

end
